(* ===== verification/Prelude.thy ===== *)
theory Prelude
  imports Main "HOL-Library.Word" "HOL-Library.List_Lexorder"
begin

text \<open>
  Shared vocabulary of the development: byte strings in the order of Go's
  \<open>bytes.Compare\<close>, the fixed-width integer encodings of \<open>encoding/binary\<close>, the
  sorted enumeration of a finite map, and generic lemmas on lists and maps.
  The collections declared here carry the component proofs:
  \<open>codec_simps\<close> (encode/decode round trips) and \<open>ts_simps\<close> (timestamp order).
\<close>

named_theorems codec_simps \<open>round-trip equations of encoders and decoders\<close>
named_theorems ts_simps \<open>unfolding of the timestamp operations\<close>

section \<open>Bytes\<close>

type_synonym byte = "8 word"
type_synonym bytes = "byte list"

text \<open>A Go string literal, as the bytes of its (ASCII) characters.\<close>

definition ascii :: "string \<Rightarrow> bytes" where
  "ascii s = map of_char s"

lemma length_ascii [simp]: "length (ascii s) = length s"
  by (simp add: ascii_def)

section \<open>Lexicographic order of byte strings\<close>

text \<open>
  \<open>xs < ys\<close> on lists is the lexicographic order, with a proper prefix below its
  extensions: the order \<open>bytes.Compare\<close> decides.
\<close>

lemma list_less_append_same [simp]: "((xs :: 'a::linorder list) @ ys < xs @ zs) \<longleftrightarrow> ys < zs"
  by (induction xs) auto

lemma list_less_eq_append_same [simp]:
  "((xs :: 'a::linorder list) @ ys \<le> xs @ zs) \<longleftrightarrow> ys \<le> zs"
  by (induction xs) auto

lemma list_less_append_right: "(ys :: 'a::linorder list) \<noteq> [] \<Longrightarrow> xs < xs @ ys"
  using list_less_append_same [of xs "[]" ys] by (cases ys) auto

lemma list_less_append_mono:
  fixes xs ys :: "'a::linorder list"
  assumes "xs < ys" and "length xs = length ys"
  shows "xs @ us < ys @ vs"
  using assms
proof (induction xs arbitrary: ys)
  case Nil
  then show ?case by simp
next
  case (Cons x xs)
  then obtain y ys' where "ys = y # ys'" by (cases ys) auto
  with Cons show ?case by auto
qed

lemma list_less_append_iff:
  fixes xs ys :: "'a::linorder list"
  assumes "length xs = length ys"
  shows "xs @ us < ys @ vs \<longleftrightarrow> xs < ys \<or> xs = ys \<and> us < vs"
  using assms list_less_append_mono [of xs ys us vs] list_less_append_mono [of ys xs vs us]
  by (metis list_less_append_same linorder_less_linear order_less_asym)

section \<open>Fixed-width integers of encoding/binary\<close>

text \<open>
  \<open>be_bytes n x\<close> is the \<open>n\<close>-byte big-endian image of \<open>x\<close> (\<open>BigEndian.PutUint*\<close>),
  \<open>be_val\<close> reads one back (\<open>BigEndian.Uint*\<close>); \<open>le_bytes\<close> and \<open>le_val\<close> are the
  little-endian pair.
\<close>

fun be_bytes :: "nat \<Rightarrow> nat \<Rightarrow> bytes" where
  "be_bytes 0 x = []"
| "be_bytes (Suc n) x = be_bytes n (x div 256) @ [of_nat x]"

definition be_val :: "bytes \<Rightarrow> nat" where
  "be_val bs = foldl (\<lambda>a b. a * 256 + unat b) 0 bs"

fun le_bytes :: "nat \<Rightarrow> nat \<Rightarrow> bytes" where
  "le_bytes 0 x = []"
| "le_bytes (Suc n) x = of_nat x # le_bytes n (x div 256)"

fun le_val :: "bytes \<Rightarrow> nat" where
  "le_val [] = 0"
| "le_val (b # bs) = unat b + 256 * le_val bs"

lemma length_be_bytes [simp]: "length (be_bytes n x) = n"
  by (induction n arbitrary: x) auto

lemma length_le_bytes [simp]: "length (le_bytes n x) = n"
  by (induction n arbitrary: x) auto

lemma unat_of_nat_byte: "unat (of_nat x :: byte) = x mod 256"
  by (simp add: unat_of_nat)

lemma be_val_Nil [simp]: "be_val [] = 0"
  by (simp add: be_val_def)

lemma be_val_snoc [simp]: "be_val (bs @ [b]) = be_val bs * 256 + unat b"
  by (simp add: be_val_def)

lemma mod_256_pow: "x div 256 mod 256 ^ n * 256 + x mod 256 = x mod (256 ^ Suc n :: nat)"
  using mod_mult2_eq [of x 256 "256 ^ n"] by (simp add: mult.commute)

lemma be_val_be_bytes [codec_simps]: "be_val (be_bytes n x) = x mod 256 ^ n"
  by (induction n arbitrary: x) (simp_all add: unat_of_nat_byte mod_256_pow del: power_Suc)

lemma le_val_le_bytes [codec_simps]: "le_val (le_bytes n x) = x mod 256 ^ n"
proof (induction n arbitrary: x)
  case (Suc n)
  then show ?case
    using mod_256_pow [of x n] by (simp add: unat_of_nat_byte mult.commute del: power_Suc)
qed simp

lemma be_val_single [simp]: "be_val [b] = unat b"
  by (simp add: be_val_def)

lemma be_val_Cons: "be_val (b # bs) = unat b * 256 ^ length bs + be_val bs"
proof (induction bs rule: rev_induct)
  case (snoc c bs)
  have "be_val (b # bs @ [c]) = be_val (b # bs) * 256 + unat c"
    using be_val_snoc [of "b # bs" c] by simp
  with snoc show ?case by (simp add: algebra_simps)
qed simp

lemma unat_byte_le: "unat (b :: byte) \<le> 255"
proof -
  have "unat b < 2 ^ LENGTH(8)" by (rule unsigned_less)
  then show ?thesis by simp
qed

lemma be_val_bound: "be_val bs < 256 ^ length bs"
proof (induction bs)
  case (Cons b bs)
  have "unat b * 256 ^ length bs \<le> 255 * 256 ^ length bs"
    by (rule mult_right_mono) (simp_all add: unat_byte_le)
  then have "unat b * 256 ^ length bs + be_val bs < 255 * 256 ^ length bs + 256 ^ length bs"
    using Cons by (rule add_le_less_mono)
  then show ?case by (simp add: be_val_Cons)
qed simp

lemma le_val_bound: "le_val bs < 256 ^ length bs"
proof (induction bs)
  case (Cons b bs)
  with unat_byte_le [of b] show ?case by simp
qed simp

lemma be_bytes_be_val [codec_simps]: "be_bytes (length bs) (be_val bs) = bs"
proof (induction bs rule: rev_induct)
  case (snoc b bs)
  have "unat (of_nat (be_val bs * 256 + unat b) :: byte) = unat b"
    using unat_byte_le [of b] by (simp only: unat_of_nat_byte mod_mult_self3) simp
  then have "of_nat (be_val bs * 256 + unat b) = b"
    by (rule unsigned_word_eqI)
  with snoc unat_byte_le [of b] show ?case by simp
qed simp

lemma be_val_less_iff:
  "length xs = length ys \<Longrightarrow> xs < ys \<longleftrightarrow> be_val xs < be_val ys"
proof (induction xs arbitrary: ys)
  case Nil
  then show ?case by simp
next
  case (Cons x xs)
  then obtain y ys' where ys: "ys = y # ys'" and len: "length xs = length ys'"
    by (cases ys) auto
  let ?w = "256 ^ length xs :: nat"
  have hi: "be_val (a # bs) < be_val (c # ds)"
    if "a < c" "length bs = length xs" "length ds = length xs" for a c and bs ds :: bytes
  proof -
    have "unat a + 1 \<le> unat c" using that(1) by (simp add: word_less_nat_alt)
    then have "(unat a + 1) * ?w \<le> unat c * ?w" by (rule mult_right_mono) simp
    then show ?thesis using be_val_bound [of bs] that by (simp add: be_val_Cons algebra_simps)
  qed
  show ?case
  proof (cases x y rule: linorder_cases)
    case less
    have "be_val (x # xs) < be_val (y # ys')"
      by (rule hi [OF less refl len [symmetric]])
    with less show ?thesis by (simp add: ys)
  next
    case equal
    with Cons.IH [OF len] len show ?thesis by (simp add: ys be_val_Cons)
  next
    case greater
    have "be_val (y # ys') < be_val (x # xs)"
      by (rule hi [OF greater len [symmetric] refl])
    with greater show ?thesis by (auto simp: ys)
  qed
qed

section \<open>Sorted enumeration of a finite map\<close>

definition entries :: "(('k::linorder) \<rightharpoonup> 'v) \<Rightarrow> ('k \<times> 'v) list" where
  "entries m = map (\<lambda>k. (k, the (m k))) (sorted_list_of_set (dom m))"

lemma map_fst_entries: "map fst (entries m) = sorted_list_of_set (dom m)"
  by (simp add: entries_def comp_def)

lemma set_entries: "finite (dom m) \<Longrightarrow> set (entries m) = {(k, v). m k = Some v}"
  by (auto simp: entries_def)

lemma sorted_wrt_entries: "sorted_wrt (<) (map fst (entries m))"
  by (simp add: map_fst_entries)

lemma entries_empty [simp]: "entries Map.empty = []"
  by (simp add: entries_def)

lemma map_fst_eq_imp_eq:
  assumes "map fst xs = map fst ys" and "distinct (map fst xs)" and "set xs = set ys"
  shows "xs = ys"
proof (rule nth_equalityI)
  show len: "length xs = length ys"
    using assms(1) by (metis length_map)
  fix i
  assume i: "i < length xs"
  then have "xs ! i \<in> set ys" and fsts: "fst (xs ! i) = fst (ys ! i)"
    using assms(1,3) len by (metis nth_mem, metis nth_map)
  then show "xs ! i = ys ! i"
    using assms(1,2) i len by (metis eq_key_imp_eq_value nth_mem prod.collapse)
qed

lemma sorted_wrt_fst_unique:
  fixes xs ys :: "('k::linorder \<times> 'v) list"
  assumes "sorted_wrt (<) (map fst xs)" and "sorted_wrt (<) (map fst ys)" and "set xs = set ys"
  shows "xs = ys"
proof -
  have "map fst xs = map fst ys"
    using assms strict_sorted_equal by (metis list.set_map)
  moreover have "distinct (map fst xs)"
    using assms(1) strict_sorted_iff by blast
  ultimately show ?thesis
    using assms(3) map_fst_eq_imp_eq by blast
qed

lemma entries_eqI:
  assumes "finite (dom m)" and "sorted_wrt (<) (map fst xs)" and "set xs = {(k, v). m k = Some v}"
  shows "entries m = xs"
  by (rule sorted_wrt_fst_unique) (use assms in \<open>simp_all add: sorted_wrt_entries set_entries\<close>)

lemma entries_eq_Nil_iff: "finite (dom m) \<Longrightarrow> entries m = [] \<longleftrightarrow> dom m = {}"
  by (auto simp: entries_def)

lemma sorted_fst_Cons:
  "sorted_wrt (<) (map fst (p # ps)) \<longleftrightarrow> (\<forall>q \<in> set ps. fst p < fst q) \<and> sorted_wrt (<) (map fst ps)"
  by simp

lemma entries_Cons_iff:
  assumes "finite (dom m)"
  shows "entries m = (k, v) # r \<longleftrightarrow>
    m k = Some v \<and> (\<forall>k' \<in> dom m. k \<le> k') \<and> r = entries (m(k := None))"
proof
  assume e: "entries m = (k, v) # r"
  have st: "set ((k, v) # r) = {(k, v). m k = Some v}" using set_entries [OF assms] e by simp
  have so: "sorted_wrt (<) (map fst ((k, v) # r))" using sorted_wrt_entries [of m] e by simp
  have mk: "m k = Some v" using st by auto
  have rk: "k < k'" if "(k', v') \<in> set r" for k' v'
    using so that unfolding sorted_fst_Cons by auto
  have mem: "(k', v') \<in> set r \<longleftrightarrow> m k' = Some v' \<and> k' \<noteq> k" for k' v'
  proof -
    have "(k', v') \<in> set ((k, v) # r) \<longleftrightarrow> m k' = Some v'" unfolding st by simp
    then show ?thesis using rk [of k' v'] mk by auto
  qed
  have le: "k \<le> k'" if "k' \<in> dom m" for k'
    using that mem rk by (cases "k' = k") (auto simp: less_imp_le)
  have "entries (m(k := None)) = r"
  proof (rule entries_eqI)
    show "finite (dom (m(k := None)))" using assms by simp
    show "sorted_wrt (<) (map fst r)" using so by simp
    show "set r = {(k', v). (m(k := None)) k' = Some v}" using mem by (auto split: if_splits)
  qed
  with mk le show "m k = Some v \<and> (\<forall>k' \<in> dom m. k \<le> k') \<and> r = entries (m(k := None))" by blast
next
  assume a: "m k = Some v \<and> (\<forall>k' \<in> dom m. k \<le> k') \<and> r = entries (m(k := None))"
  have "k < k'" if "(k', v') \<in> set r" for k' v'
    using that a assms by (auto simp: set_entries less_le split: if_splits)
  then show "entries m = (k, v) # r"
    using a assms
    by (intro entries_eqI) (auto simp: sorted_wrt_entries set_entries split: if_splits)
qed

lemma entries_upd_None:
  "finite (dom m) \<Longrightarrow> entries m = (k, v) # r \<Longrightarrow> entries (m(k := None)) = r"
  by (simp add: entries_Cons_iff)

text \<open>Seeking: dropping the entries below a key leaves the entries from that key on.\<close>

definition from_key :: "('k::linorder) \<Rightarrow> ('k \<rightharpoonup> 'v) \<Rightarrow> ('k \<rightharpoonup> 'v)" where
  "from_key k m = m |` {k..}"

lemma from_key_apply: "from_key k m x = (if k \<le> x then m x else None)"
  by (simp add: from_key_def restrict_map_def)

lemma finite_from_key [simp]: "finite (dom m) \<Longrightarrow> finite (dom (from_key k m))"
  by (simp add: from_key_def)

lemma sorted_dropWhile_eq_filter:
  "sorted_wrt (<) (map f xs) \<Longrightarrow>
   dropWhile (\<lambda>p. f p < k) xs = filter (\<lambda>p. (k::'k::linorder) \<le> f p) xs"
proof (induction xs)
  case Nil
  then show ?case by simp
next
  case (Cons x xs)
  then show ?case
    by (cases "f x < k") (auto intro!: filter_True [symmetric] simp: less_imp_le)
qed

lemma dropWhile_entries:
  assumes "finite (dom m)"
  shows "dropWhile (\<lambda>p. fst p < k) (entries m) = entries (from_key k m)"
proof -
  let ?xs = "filter (\<lambda>p. k \<le> fst p) (entries m)"
  have "entries (from_key k m) = ?xs"
  proof (rule entries_eqI)
    show "finite (dom (from_key k m))" using assms by simp
    show "sorted_wrt (<) (map fst ?xs)"
      using sorted_wrt_filter [of "\<lambda>p q. fst p < fst q" "entries m"] sorted_wrt_entries [of m]
      by (simp add: sorted_wrt_map)
    show "set ?xs = {(k', v). from_key k m k' = Some v}"
      using assms by (auto simp: set_entries from_key_apply split: if_splits)
  qed
  then show ?thesis by (simp add: sorted_dropWhile_eq_filter sorted_wrt_entries)
qed

end
