(* ===== verification/HLC.thy ===== *)
theory HLC
  imports Prelude
begin

text \<open>
  Hybrid logical clock (\<open>internal/util/hlc\<close>): timestamps with their order, the
  clock's \<open>Now\<close> and \<open>Update\<close>, and the manual wall clock of the tests.
  Go's \<open>int64\<close> and \<open>int32\<close> are 64- and 32-bit words read with \<open>sint\<close>, so the
  wrap-around of \<open>Logical++\<close> is part of the model.
\<close>

type_synonym i64 = "64 word"
type_synonym i32 = "32 word"
type_synonym u64 = "64 word"
type_synonym u32 = "32 word"

section \<open>Signed words\<close>

lemma sint_inc:
  fixes w :: "'a::len word"
  assumes "sint w < 2 ^ (LENGTH('a) - 1) - 1"
  shows "sint (w + 1) = sint w + 1"
proof -
  have "sint (w + 1) = signed_take_bit (LENGTH('a) - 1) (sint w + 1)"
    by (simp add: sint_word_ariths) presburger
  moreover have "- (2 ^ (LENGTH('a) - 1)) \<le> sint w"
    using sint_greater_eq [of w] by simp
  ultimately show ?thesis
    using assms by (simp add: signed_take_bit_int_eq_self)
qed

lemma sint_dec:
  fixes w :: "'a::len word"
  assumes "- (2 ^ (LENGTH('a) - 1)) < sint w"
  shows "sint (w - 1) = sint w - 1"
proof -
  have "sint (w - 1) = signed_take_bit (LENGTH('a) - 1) (sint w - 1)"
    by (simp add: sint_word_ariths) presburger
  moreover have "sint w < 2 ^ (LENGTH('a) - 1)"
    using sint_less [of w] by simp
  ultimately show ?thesis
    using assms by (simp add: signed_take_bit_int_eq_self)
qed

lemma sint_eq_iff: "sint (a :: 'a::len word) = sint b \<longleftrightarrow> a = b"
  by (auto intro: signed_word_eqI)

lemma unat_u32_less: "unat (w :: u32) < 4294967296"
proof -
  have "unat w < 2 ^ LENGTH(32)" by (rule unsigned_less)
  then show ?thesis by simp
qed

lemma unat_u64_less: "unat (w :: u64) < 18446744073709551616"
proof -
  have "unat w < 2 ^ LENGTH(64)" by (rule unsigned_less)
  then show ?thesis by simp
qed

lemma unat_u32_of_nat: "unat (of_nat n :: u32) = n mod 4294967296"
  by (simp add: unat_of_nat)

lemma unat_u64_of_nat: "unat (of_nat n :: u64) = n mod 18446744073709551616"
  by (simp add: unat_of_nat)

abbreviation max_i32 :: i32 where "max_i32 \<equiv> 0x7fffffff"
abbreviation max_i64 :: i64 where "max_i64 \<equiv> 0x7fffffffffffffff"

lemma sint_i32_bounds: "- 0x80000000 \<le> sint (w :: i32)" "sint w \<le> 0x7fffffff"
  using sint_greater_eq [of w] sint_less [of w] by simp_all

lemma sint_i64_bounds: "- 0x8000000000000000 \<le> sint (w :: i64)" "sint w \<le> 0x7fffffffffffffff"
  using sint_greater_eq [of w] sint_less [of w] by simp_all

lemma sint_i32_inc: "(w :: i32) \<noteq> max_i32 \<Longrightarrow> sint (w + 1) = sint w + 1"
  using sint_i32_bounds(2) [of w] sint_eq_iff [of w max_i32] by (intro sint_inc) simp

lemma sint_i64_inc: "(w :: i64) \<noteq> max_i64 \<Longrightarrow> sint (w + 1) = sint w + 1"
  using sint_i64_bounds(2) [of w] sint_eq_iff [of w max_i64] by (intro sint_inc) simp

section \<open>Timestamps\<close>

datatype timestamp = Timestamp (WallTime: i64) (Logical: i32)

definition ts_IsEmpty :: "timestamp \<Rightarrow> bool" where
  "ts_IsEmpty t \<longleftrightarrow> WallTime t = 0 \<and> Logical t = 0"

definition ts_Less :: "timestamp \<Rightarrow> timestamp \<Rightarrow> bool" where
  "ts_Less t other =
     (if WallTime t \<noteq> WallTime other then sint (WallTime t) < sint (WallTime other)
      else sint (Logical t) < sint (Logical other))"

definition ts_LessEq :: "timestamp \<Rightarrow> timestamp \<Rightarrow> bool" where
  "ts_LessEq t other \<longleftrightarrow> t = other \<or> ts_Less t other"

definition ts_Equal :: "timestamp \<Rightarrow> timestamp \<Rightarrow> bool" where
  "ts_Equal t other \<longleftrightarrow> t = other"

definition ts_Next :: "timestamp \<Rightarrow> timestamp" where
  "ts_Next t =
     (if Logical t = max_i32 then Timestamp (WallTime t + 1) 0
      else Timestamp (WallTime t) (Logical t + 1))"

definition ts_Prev :: "timestamp \<Rightarrow> timestamp" where
  "ts_Prev t =
     (if Logical t = 0 then Timestamp (WallTime t - 1) max_i32
      else Timestamp (WallTime t) (Logical t - 1))"

abbreviation ts_zero :: timestamp where "ts_zero \<equiv> Timestamp 0 0"

lemma ts_IsEmpty_iff [simp]: "ts_IsEmpty t \<longleftrightarrow> t = ts_zero"
  by (cases t) (simp add: ts_IsEmpty_def)

text \<open>\<open>Less\<close> is the signed lexicographic order, and makes timestamps a linear order.\<close>

lemma ts_Less_iff:
  "ts_Less t u \<longleftrightarrow> sint (WallTime t) < sint (WallTime u) \<or>
     sint (WallTime t) = sint (WallTime u) \<and> sint (Logical t) < sint (Logical u)"
  using sint_eq_iff [of "WallTime t" "WallTime u"] by (auto simp: ts_Less_def)

lemma ts_eq_iff:
  "t = u \<longleftrightarrow> sint (WallTime t) = sint (WallTime u) \<and> sint (Logical t) = sint (Logical u)"
  by (cases t; cases u) (simp add: sint_eq_iff)

lemma ts_LessEq_iff:
  "ts_LessEq t u \<longleftrightarrow> sint (WallTime t) < sint (WallTime u) \<or>
     sint (WallTime t) = sint (WallTime u) \<and> sint (Logical t) \<le> sint (Logical u)"
  unfolding ts_LessEq_def ts_eq_iff [of t u] ts_Less_iff by linarith

instantiation timestamp :: linorder
begin

definition less_timestamp :: "timestamp \<Rightarrow> timestamp \<Rightarrow> bool" where
  "less_timestamp = ts_Less"

definition less_eq_timestamp :: "timestamp \<Rightarrow> timestamp \<Rightarrow> bool" where
  "less_eq_timestamp = ts_LessEq"

instance
proof
  fix x y z :: timestamp
  show "(x < y) = (x \<le> y \<and> \<not> y \<le> x)"
    unfolding less_timestamp_def less_eq_timestamp_def ts_LessEq_iff ts_Less_iff by linarith
  show "x \<le> x"
    by (simp add: less_eq_timestamp_def ts_LessEq_def)
  show "x \<le> y \<Longrightarrow> y \<le> z \<Longrightarrow> x \<le> z"
    unfolding less_eq_timestamp_def ts_LessEq_iff by linarith
  show "x \<le> y \<Longrightarrow> y \<le> x \<Longrightarrow> x = y"
    unfolding less_eq_timestamp_def ts_LessEq_iff ts_eq_iff by linarith
  show "x \<le> y \<or> y \<le> x"
    unfolding less_eq_timestamp_def ts_LessEq_iff by linarith
qed

end

lemma ts_Less_eq_less [simp]: "ts_Less t u \<longleftrightarrow> t < u"
  by (simp add: less_timestamp_def)

lemma ts_LessEq_eq_le [simp]: "ts_LessEq t u \<longleftrightarrow> t \<le> u"
  by (simp add: less_eq_timestamp_def)

lemma ts_Equal_eq [simp]: "ts_Equal t u \<longleftrightarrow> t = u"
  by (simp add: ts_Equal_def)

lemmas ts_less_alt [ts_simps] = ts_Less_iff [unfolded ts_Less_eq_less]
lemmas ts_le_alt [ts_simps] = ts_LessEq_iff [unfolded ts_LessEq_eq_le]

definition ts_max :: timestamp where
  "ts_max = Timestamp max_i64 max_i32"

text \<open>Timestamps as the clock hands them out: no negative component.\<close>

definition ts_ok :: "timestamp \<Rightarrow> bool" where
  "ts_ok t \<longleftrightarrow> 0 \<le> sint (WallTime t) \<and> 0 \<le> sint (Logical t)"

lemma ts_zero_ok [simp]: "ts_ok ts_zero"
  by (simp add: ts_ok_def)

lemma ts_ok_ge_zero: "ts_ok t \<Longrightarrow> ts_zero \<le> t"
  by (auto simp: ts_ok_def ts_le_alt)

text \<open>\<open>Next\<close> is the successor in the order, except at the very last timestamp.\<close>

lemma ts_less_Next: "t \<noteq> ts_max \<Longrightarrow> t < ts_Next t"
  by (cases t) (auto simp: ts_Next_def ts_less_alt ts_max_def sint_i32_inc sint_i64_inc)

lemma ts_ok_Next: "ts_ok t \<Longrightarrow> t \<noteq> ts_max \<Longrightarrow> ts_ok (ts_Next t)"
  by (cases t) (auto simp: ts_Next_def ts_ok_def ts_max_def sint_i32_inc sint_i64_inc)

lemma ts_Next_least:
  assumes "ts_ok u" and "t < u"
  shows "ts_Next t \<le> u"
proof (cases "Logical t = max_i32")
  case True
  with assms(2) sint_i32_bounds(2) [of "Logical u"]
  have lt: "sint (WallTime t) < sint (WallTime u)"
    by (auto simp: ts_less_alt)
  then have "WallTime t \<noteq> max_i64"
    using sint_i64_bounds(2) [of "WallTime u"] by auto
  with lt True assms(1) show ?thesis
    by (auto simp: ts_Next_def ts_le_alt ts_ok_def sint_i64_inc sint_eq_iff [symmetric])
next
  case False
  with assms(2) show ?thesis
    by (auto simp: ts_Next_def ts_le_alt ts_less_alt sint_i32_inc)
qed

lemma ts_Prev_less: "ts_ok t \<Longrightarrow> t \<noteq> ts_zero \<Longrightarrow> ts_Prev t < t"
proof (cases t)
  case (Timestamp w l)
  assume ok: "ts_ok t" and nz: "t \<noteq> ts_zero"
  have "- (2 ^ (LENGTH(64) - 1)) < sint w" and "- (2 ^ (LENGTH(32) - 1)) < sint l"
    using ok Timestamp by (simp_all add: ts_ok_def)
  then have "sint (w - 1) = sint w - 1" and "sint (l - 1) = sint l - 1"
    by (simp_all only: sint_dec)
  with Timestamp show ?thesis
    by (auto simp: ts_Prev_def ts_less_alt)
qed

section \<open>The clock\<close>

text \<open>
  \<open>wall\<close> gives the successive readings of the physical clock (\<open>WallClock.Now\<close>), in
  the order they are taken; nothing is assumed of them, so a wall clock that stands
  still or runs backward is included. The mutex makes each call atomic.
\<close>

record clock =
  wall :: "nat \<Rightarrow> i64"
  wall_reads :: nat
  maxOffset :: i64
  clock_state :: timestamp

definition NewClock :: "(nat \<Rightarrow> i64) \<Rightarrow> i64 \<Rightarrow> clock" where
  "NewClock w mo = \<lparr>wall = w, wall_reads = 0, maxOffset = mo, clock_state = ts_zero\<rparr>"

definition wall_Now :: "clock \<Rightarrow> i64 \<times> clock" where
  "wall_Now c = (wall c (wall_reads c), c\<lparr>wall_reads := Suc (wall_reads c)\<rparr>)"

definition clock_Now :: "clock \<Rightarrow> timestamp \<times> clock" where
  "clock_Now c =
     (let (physical, c1) = wall_Now c;
          st = clock_state c;
          st' = (if sint physical > sint (WallTime st) then Timestamp physical 0
                 else Timestamp (WallTime st) (Logical st + 1))
      in (st', c1\<lparr>clock_state := st'\<rparr>))"

definition update_candidate :: "i64 \<Rightarrow> timestamp \<Rightarrow> timestamp \<Rightarrow> timestamp" where
  "update_candidate physical st remote =
     (if sint physical > sint (WallTime st) \<and> sint physical > sint (WallTime remote)
      then Timestamp physical 0
      else if sint (WallTime st) > sint (WallTime remote) \<and> sint (WallTime st) > sint physical
      then Timestamp (WallTime st) (Logical st + 1)
      else if sint (WallTime remote) > sint (WallTime st) \<and> sint (WallTime remote) > sint physical
      then Timestamp (WallTime remote) (Logical remote + 1)
      else
        let maxWall = (if sint (WallTime st) > sint physical then WallTime st else physical);
            maxWall = (if sint (WallTime remote) > sint maxWall then WallTime remote else maxWall);
            maxLogical = (if WallTime st = maxWall \<and> sint (Logical st) > 0 then Logical st else 0);
            maxLogical = (if WallTime remote = maxWall \<and> sint (Logical remote) > sint maxLogical
                          then Logical remote else maxLogical)
        in Timestamp maxWall (maxLogical + 1))"

definition clock_Update :: "clock \<Rightarrow> timestamp \<Rightarrow> timestamp \<times> clock" where
  "clock_Update c remote =
     (let (physical, c1) = wall_Now c;
          st = clock_state c;
          nxt = update_candidate physical st remote;
          nxt = (if \<not> ts_Less st nxt then ts_Next st else nxt)
      in (nxt, c1\<lparr>clock_state := nxt\<rparr>))"

section \<open>The manual clock\<close>

record manual_clock =
  nanos :: i64

definition NewManualClock :: "i64 \<Rightarrow> manual_clock" where
  "NewManualClock n = \<lparr>nanos = n\<rparr>"

definition manual_Now :: "manual_clock \<Rightarrow> i64" where
  "manual_Now m = nanos m"

definition manual_Set :: "manual_clock \<Rightarrow> i64 \<Rightarrow> manual_clock" where
  "manual_Set m n = m\<lparr>nanos := n\<rparr>"

definition manual_Increment :: "manual_clock \<Rightarrow> i64 \<Rightarrow> manual_clock" where
  "manual_Increment m delta = m\<lparr>nanos := nanos m + delta\<rparr>"

section \<open>Properties of the clock\<close>

lemma clock_state_Now [simp]: "clock_state (snd (clock_Now c)) = fst (clock_Now c)"
  by (simp add: clock_Now_def wall_Now_def Let_def)

lemma clock_state_Update [simp]: "clock_state (snd (clock_Update c r)) = fst (clock_Update c r)"
  by (simp add: clock_Update_def wall_Now_def Let_def)

lemma fst_clock_Now:
  "fst (clock_Now c) =
     (if sint (wall c (wall_reads c)) > sint (WallTime (clock_state c))
      then Timestamp (wall c (wall_reads c)) 0
      else Timestamp (WallTime (clock_state c)) (Logical (clock_state c) + 1))"
  by (simp add: clock_Now_def wall_Now_def Let_def)

lemma fst_clock_Update:
  "fst (clock_Update c r) =
     (let nxt = update_candidate (wall c (wall_reads c)) (clock_state c) r
      in if clock_state c < nxt then nxt else ts_Next (clock_state c))"
  by (simp add: clock_Update_def wall_Now_def Let_def)

lemma clock_Now_less_iff:
  "clock_state c < fst (clock_Now c) \<longleftrightarrow>
     sint (wall c (wall_reads c)) > sint (WallTime (clock_state c)) \<or>
     Logical (clock_state c) \<noteq> max_i32"
  by (auto simp: fst_clock_Now ts_less_alt sint_i32_inc)

lemma clock_Now_Logical:
  "sint (Logical (fst (clock_Now c))) \<le> max 0 (sint (Logical (clock_state c)) + 1)"
  by (cases "Logical (clock_state c) = max_i32")
    (auto simp: fst_clock_Now sint_i32_inc)

lemma clock_Now_ok:
  "ts_ok (clock_state c) \<Longrightarrow> Logical (clock_state c) \<noteq> max_i32 \<Longrightarrow> ts_ok (fst (clock_Now c))"
  by (auto simp: fst_clock_Now ts_ok_def sint_i32_inc)

lemma clock_Now_ge_physical:
  "sint (wall c (wall_reads c)) \<le> sint (WallTime (fst (clock_Now c)))"
  by (simp add: fst_clock_Now)

fun now_seq :: "nat \<Rightarrow> clock \<Rightarrow> timestamp list" where
  "now_seq 0 c = []"
| "now_seq (Suc n) c = (let (t, c') = clock_Now c in t # now_seq n c')"

lemma now_seq_above:
  "sint (Logical (clock_state c)) + int n \<le> 0x7fffffff \<Longrightarrow> int n \<le> 0x7fffffff \<Longrightarrow>
   sorted_wrt (<) (clock_state c # now_seq n c)"
proof (induction n arbitrary: c)
  case 0
  then show ?case by simp
next
  case (Suc n)
  obtain t c' where now: "clock_Now c = (t, c')" by fastforce
  have st: "clock_state c' = t" using clock_state_Now [of c] now by simp
  have "Logical (clock_state c) \<noteq> max_i32" using Suc.prems(1) by auto
  then have lt: "clock_state c < t" using clock_Now_less_iff [of c] now by simp
  have "sint (Logical t) \<le> max 0 (sint (Logical (clock_state c)) + 1)"
    using clock_Now_Logical [of c] now by simp
  then have "sorted_wrt (<) (t # now_seq n c')"
    using Suc.IH [of c'] Suc.prems st by auto
  then show ?case using lt now by auto
qed

lemma update_candidate_wall:
  "sint (WallTime (update_candidate p st r)) = max (sint p) (max (sint (WallTime st)) (sint (WallTime r)))"
  by (auto simp: update_candidate_def Let_def max_def)

lemma update_candidate_above:
  assumes "Logical st \<noteq> max_i32" and "Logical r \<noteq> max_i32"
  shows "st < update_candidate p st r \<and> r < update_candidate p st r"
proof -
  have w: "(a = b) = (sint a = sint b)" for a b :: i64
    by (simp add: sint_eq_iff)
  show ?thesis
    using sint_i32_inc [OF assms(1)] sint_i32_inc [OF assms(2)]
    unfolding update_candidate_def Let_def ts_less_alt w
    by (simp split: if_split)
qed

section \<open>What the clock guarantees\<close>

text \<open>(C15) Successive calls of \<open>Now\<close> give strictly increasing timestamps, all above the clock's
  state, whatever the physical clock reads, for any run of calls that cannot use up the
  32-bit logical counter.\<close>

theorem hlc_now_strictly_monotone:
  assumes "sint (Logical (clock_state c)) + int n \<le> 0x7fffffff" and "int n \<le> 0x7fffffff"
  shows "sorted_wrt (<) (clock_state c # now_seq n c)"
  using assms by (rule now_seq_above)

theorem hlc_now_strictly_monotone_witness:
  "sorted_wrt (<) (now_seq 3 (NewClock (\<lambda>n. if n = 1 then 7 else 5) 0)) \<and>
   now_seq 3 (NewClock (\<lambda>n. if n = 1 then 7 else 5) 0) = [Timestamp 5 0, Timestamp 7 0, Timestamp 7 1]"
proof
  show "sorted_wrt (<) (now_seq 3 (NewClock (\<lambda>n. if n = 1 then 7 else 5) 0))"
    using hlc_now_strictly_monotone [of "NewClock (\<lambda>n. if n = 1 then 7 else 5) 0" 3]
    by (simp add: NewClock_def)
  show "now_seq 3 (NewClock (\<lambda>n. if n = 1 then 7 else 5) 0) = [Timestamp 5 0, Timestamp 7 0, Timestamp 7 1]"
    by code_simp
qed

text \<open>(C16) \<open>Update\<close> moves the clock strictly past both its own state and the remote timestamp it
  was given, and never behind the physical clock, as long as neither logical counter is at
  its maximum: a timestamp taken after receiving a message is above the message's.\<close>

theorem hlc_update_causal:
  assumes "Logical (clock_state c) \<noteq> max_i32" and "Logical remote \<noteq> max_i32"
  shows "clock_state c < fst (clock_Update c remote) \<and> remote < fst (clock_Update c remote) \<and>
    clock_state (snd (clock_Update c remote)) = fst (clock_Update c remote) \<and>
    sint (wall c (wall_reads c)) \<le> sint (WallTime (fst (clock_Update c remote)))"
  using update_candidate_above [OF assms] update_candidate_wall [of "wall c (wall_reads c)" "clock_state c" remote]
  by (simp add: fst_clock_Update Let_def)

theorem hlc_update_causal_witness:
  "Timestamp 9 4 < fst (clock_Update (NewClock (\<lambda>n. 5) 0) (Timestamp 9 4)) \<and>
   fst (clock_Update (NewClock (\<lambda>n. 5) 0) (Timestamp 9 4)) = Timestamp 9 5"
  using hlc_update_causal [of "NewClock (\<lambda>n. 5) 0" "Timestamp 9 4"]
  by (simp add: NewClock_def clock_Update_def wall_Now_def update_candidate_def ts_less_alt Let_def)

text \<open>(C31) \<open>Next\<close> is the least timestamp above the given one, among those with no negative
  component.\<close>

theorem timestamp_next_successor:
  assumes "ts_ok t" and "t \<noteq> ts_max"
  shows "t < ts_Next t \<and> ts_ok (ts_Next t) \<and> (\<forall>u. ts_ok u \<longrightarrow> t < u \<longrightarrow> ts_Next t \<le> u)"
  using assms ts_less_Next ts_ok_Next ts_Next_least by blast

theorem timestamp_next_successor_witness:
  "Timestamp 4 0x7fffffff < ts_Next (Timestamp 4 0x7fffffff) \<and>
   ts_Next (Timestamp 4 0x7fffffff) = Timestamp 5 0"
  using timestamp_next_successor [of "Timestamp 4 0x7fffffff"]
  by (simp add: ts_ok_def ts_max_def ts_Next_def)

text \<open>(C32) Where the monotonicity of \<open>Now\<close> stops: with the logical counter at its maximum and a
  physical clock that has not advanced, the returned timestamp is below the previous one.\<close>

theorem hlc_now_wraps_at_max_logical:
  assumes "Logical (clock_state c) = max_i32"
    and "sint (wall c (wall_reads c)) \<le> sint (WallTime (clock_state c))"
  shows "fst (clock_Now c) < clock_state c \<and> sint (Logical (fst (clock_Now c))) < 0"
  using assms by (simp add: fst_clock_Now ts_less_alt)

theorem hlc_now_wraps_at_max_logical_witness:
  "fst (clock_Now ((NewClock (\<lambda>n. 5) 0)\<lparr>clock_state := Timestamp 5 0x7fffffff\<rparr>))
     < Timestamp 5 0x7fffffff"
  using hlc_now_wraps_at_max_logical [of "(NewClock (\<lambda>n. 5) 0)\<lparr>clock_state := Timestamp 5 0x7fffffff\<rparr>"]
  by (simp add: NewClock_def)

end
