(* ===== verification/Json.thy ===== *)
theory Json
  imports Prelude
begin

text \<open>
  The fragment of \<open>encoding/json\<close> the program stores its records with: objects,
  arrays, booleans, \<open>null\<close>, integers and ASCII strings, in the compact form that
  \<open>json.Marshal\<close> prints, and a parser for \<open>json.Unmarshal\<close> (white space, escapes,
  first error stops). \<open>[]byte\<close> fields travel as standard base64 strings.
  The main results are the two round trips \<open>json_parse_print\<close> and
  \<open>base64_decode_encode\<close>, on which the codecs of the other theories rest.
\<close>

datatype json =
    JNull
  | JBool bool
  | JNum int
  | JStr bytes
  | JArr "json list"
  | JObj "(bytes \<times> json) list"

section \<open>Printing\<close>

definition digit :: "nat \<Rightarrow> byte" where
  "digit d = of_nat (48 + d)"

fun print_nat :: "nat \<Rightarrow> bytes" where
  "print_nat n = (if n < 10 then [digit n] else print_nat (n div 10) @ [digit (n mod 10)])"

declare print_nat.simps [simp del]

definition print_int :: "int \<Rightarrow> bytes" where
  "print_int i = (if i < 0 then 0x2D # print_nat (nat (- i)) else print_nat (nat i))"

definition hex_digit :: "nat \<Rightarrow> byte" where
  "hex_digit d = of_nat (if d < 10 then 48 + d else 87 + d)"

text \<open>String escapes of \<open>json.Marshal\<close>: quotes, backslashes, control characters, and
  the three HTML characters.\<close>

definition escape_byte :: "byte \<Rightarrow> bytes" where
  "escape_byte b =
     (if b = 0x22 then [0x5C, 0x22]
      else if b = 0x5C then [0x5C, 0x5C]
      else if b = 0x08 then [0x5C, 0x62]
      else if b = 0x0C then [0x5C, 0x66]
      else if b = 0x0A then [0x5C, 0x6E]
      else if b = 0x0D then [0x5C, 0x72]
      else if b = 0x09 then [0x5C, 0x74]
      else if b < 0x20 \<or> b = 0x3C \<or> b = 0x3E \<or> b = 0x26
      then [0x5C, 0x75, 0x30, 0x30, hex_digit (unat b div 16), hex_digit (unat b mod 16)]
      else [b])"

definition print_str :: "bytes \<Rightarrow> bytes" where
  "print_str s = 0x22 # concat (map escape_byte s) @ [0x22]"

fun join :: "bytes list \<Rightarrow> bytes" where
  "join [] = []"
| "join [x] = x"
| "join (x # y # ys) = x @ 0x2C # join (y # ys)"

fun json_print :: "json \<Rightarrow> bytes" where
  "json_print JNull = [0x6E, 0x75, 0x6C, 0x6C]"
| "json_print (JBool b) = (if b then [0x74, 0x72, 0x75, 0x65] else [0x66, 0x61, 0x6C, 0x73, 0x65])"
| "json_print (JNum i) = print_int i"
| "json_print (JStr s) = print_str s"
| "json_print (JArr xs) = 0x5B # join (map json_print xs) @ [0x5D]"
| "json_print (JObj ms) = 0x7B # join (map (\<lambda>(k, v). print_str k @ 0x3A # json_print v) ms) @ [0x7D]"

section \<open>Parsing\<close>

definition is_ws :: "byte \<Rightarrow> bool" where
  "is_ws b \<longleftrightarrow> b = 0x20 \<or> b = 0x09 \<or> b = 0x0A \<or> b = 0x0D"

definition skip_ws :: "bytes \<Rightarrow> bytes" where
  "skip_ws = dropWhile is_ws"

definition is_digit :: "byte \<Rightarrow> bool" where
  "is_digit b \<longleftrightarrow> 0x30 \<le> b \<and> b \<le> 0x39"

definition digits_val :: "bytes \<Rightarrow> nat" where
  "digits_val ds = foldl (\<lambda>a d. a * 10 + (unat d - 48)) 0 ds"

text \<open>Digits without a leading zero, not followed by a fraction or an exponent.\<close>

definition parse_nat :: "bytes \<Rightarrow> (nat \<times> bytes) option" where
  "parse_nat bs =
     (let ds = takeWhile is_digit bs; r = dropWhile is_digit bs
      in if ds = [] then None
         else if hd ds = 0x30 \<and> tl ds \<noteq> [] then None
         else if r \<noteq> [] \<and> (hd r = 0x2E \<or> hd r = 0x65 \<or> hd r = 0x45) then None
         else Some (digits_val ds, r))"

definition hex_val :: "byte \<Rightarrow> nat option" where
  "hex_val b =
     (if is_digit b then Some (unat b - 48)
      else if 0x61 \<le> b \<and> b \<le> 0x66 then Some (unat b - 87)
      else if 0x41 \<le> b \<and> b \<le> 0x46 then Some (unat b - 55)
      else None)"

text \<open>The body of a string after its opening quote, up to and past the closing one.
  Code points from \<open>0x80\<close> on are outside the fragment.\<close>

fun parse_str :: "bytes \<Rightarrow> (bytes \<times> bytes) option" where
  "parse_str [] = None"
| "parse_str (b # bs) =
     (if b = 0x22 then Some ([], bs)
      else if b = 0x5C then
        (case bs of
           [] \<Rightarrow> None
         | e # bs1 \<Rightarrow>
             if e = 0x75 then
               (case bs1 of
                  h1 # h2 # h3 # h4 # bs2 \<Rightarrow>
                    (case (hex_val h1, hex_val h2, hex_val h3, hex_val h4) of
                       (Some 0, Some 0, Some d1, Some d2) \<Rightarrow>
                         if d1 < 8
                         then map_option (\<lambda>(s, r). (of_nat (d1 * 16 + d2) # s, r)) (parse_str bs2)
                         else None
                     | _ \<Rightarrow> None)
                | _ \<Rightarrow> None)
             else
               (let c = (if e = 0x22 \<or> e = 0x5C \<or> e = 0x2F then Some e
                         else if e = 0x62 then Some 0x08
                         else if e = 0x66 then Some 0x0C
                         else if e = 0x6E then Some 0x0A
                         else if e = 0x72 then Some 0x0D
                         else if e = 0x74 then Some 0x09
                         else None)
                in case c of
                     None \<Rightarrow> None
                   | Some c' \<Rightarrow> map_option (\<lambda>(s, r). (c' # s, r)) (parse_str bs1)))
      else if b < 0x20 then None
      else map_option (\<lambda>(s, r). (b # s, r)) (parse_str bs))"

fun match_lit :: "bytes \<Rightarrow> bytes \<Rightarrow> bytes option" where
  "match_lit [] bs = Some bs"
| "match_lit (x # xs) [] = None"
| "match_lit (x # xs) (b # bs) = (if x = b then match_lit xs bs else None)"

text \<open>Recursive descent; the fuel bounds the nesting and the number of elements, and the
  length of the text is always enough (\<open>json_parse\<close>).\<close>

fun parse_value :: "nat \<Rightarrow> bytes \<Rightarrow> (json \<times> bytes) option"
  and parse_elems :: "nat \<Rightarrow> bytes \<Rightarrow> (json list \<times> bytes) option"
  and parse_members :: "nat \<Rightarrow> bytes \<Rightarrow> ((bytes \<times> json) list \<times> bytes) option"
where
  "parse_value 0 bs = None"
| "parse_value (Suc f) bs =
     (case skip_ws bs of
        [] \<Rightarrow> None
      | c # cs \<Rightarrow>
          if c = 0x7B then
            (case skip_ws cs of
               [] \<Rightarrow> None
             | d # ds \<Rightarrow>
                 if d = 0x7D then Some (JObj [], ds)
                 else map_option (\<lambda>(ms, r). (JObj ms, r)) (parse_members f cs))
          else if c = 0x5B then
            (case skip_ws cs of
               [] \<Rightarrow> None
             | d # ds \<Rightarrow>
                 if d = 0x5D then Some (JArr [], ds)
                 else map_option (\<lambda>(xs, r). (JArr xs, r)) (parse_elems f cs))
          else if c = 0x22 then map_option (\<lambda>(s, r). (JStr s, r)) (parse_str cs)
          else if c = 0x6E then map_option (\<lambda>r. (JNull, r)) (match_lit [0x75, 0x6C, 0x6C] cs)
          else if c = 0x74 then map_option (\<lambda>r. (JBool True, r)) (match_lit [0x72, 0x75, 0x65] cs)
          else if c = 0x66 then map_option (\<lambda>r. (JBool False, r)) (match_lit [0x61, 0x6C, 0x73, 0x65] cs)
          else if c = 0x2D then map_option (\<lambda>(n, r). (JNum (- int n), r)) (parse_nat cs)
          else map_option (\<lambda>(n, r). (JNum (int n), r)) (parse_nat (c # cs)))"
| "parse_elems 0 bs = None"
| "parse_elems (Suc f) bs =
     (case parse_value f bs of
        None \<Rightarrow> None
      | Some (v, r) \<Rightarrow>
          (case skip_ws r of
             [] \<Rightarrow> None
           | c # cs \<Rightarrow>
               if c = 0x2C then map_option (\<lambda>(vs, r'). (v # vs, r')) (parse_elems f cs)
               else if c = 0x5D then Some ([v], cs)
               else None))"
| "parse_members 0 bs = None"
| "parse_members (Suc f) bs =
     (case skip_ws bs of
        [] \<Rightarrow> None
      | q # qs \<Rightarrow>
          if q \<noteq> 0x22 then None
          else (case parse_str qs of
                  None \<Rightarrow> None
                | Some (k, r) \<Rightarrow>
                    (case skip_ws r of
                       [] \<Rightarrow> None
                     | col # r1 \<Rightarrow>
                         if col \<noteq> 0x3A then None
                         else (case parse_value f r1 of
                                 None \<Rightarrow> None
                               | Some (v, r2) \<Rightarrow>
                                   (case skip_ws r2 of
                                      [] \<Rightarrow> None
                                    | c # cs \<Rightarrow>
                                        if c = 0x2C
                                        then map_option (\<lambda>(ms, r'). ((k, v) # ms, r')) (parse_members f cs)
                                        else if c = 0x7D then Some ([(k, v)], cs)
                                        else None)))))"

definition json_parse :: "bytes \<Rightarrow> json option" where
  "json_parse bs =
     (case parse_value (Suc (length bs)) bs of
        None \<Rightarrow> None
      | Some (j, r) \<Rightarrow> if skip_ws r = [] then Some j else None)"

section \<open>The round trip\<close>

lemma unat_digit: "d < 10 \<Longrightarrow> unat (digit d) = 48 + d"
  unfolding digit_def by (subst unat_of_nat_byte) simp

lemma is_digit_unat: "is_digit b \<longleftrightarrow> 48 \<le> unat b \<and> unat b \<le> 57"
  by (simp add: is_digit_def word_le_nat_alt)

lemma is_digit_digit [simp]: "d < 10 \<Longrightarrow> is_digit (digit d)"
  by (simp add: is_digit_unat unat_digit)

lemma print_nat_digits: "\<forall>b \<in> set (print_nat n). is_digit b"
proof (induction n rule: print_nat.induct)
  case (1 n)
  then show ?case by (cases "n < 10") (auto simp: print_nat.simps [of n])
qed

lemma print_nat_nonempty [simp]: "print_nat n \<noteq> []"
  by (subst print_nat.simps) simp

lemma digits_val_print_nat [codec_simps]: "digits_val (print_nat n) = n"
proof (induction n rule: print_nat.induct)
  case (1 n)
  show ?case
  proof (cases "n < 10")
    case True
    then show ?thesis by (simp add: print_nat.simps [of n] digits_val_def unat_digit)
  next
    case False
    with 1 have "digits_val (print_nat (n div 10)) = n div 10" by simp
    then show ?thesis using False
      by (subst print_nat.simps) (simp add: digits_val_def unat_digit)
  qed
qed

lemma print_nat_no_leading_zero: "hd (print_nat n) = 0x30 \<Longrightarrow> tl (print_nat n) = []"
proof (induction n rule: print_nat.induct)
  case (1 n)
  show ?case
  proof (cases "n < 10")
    case True
    then show ?thesis by (simp add: print_nat.simps [of n])
  next
    case False
    let ?p = "print_nat (n div 10)"
    have pn: "print_nat n = ?p @ [digit (n mod 10)]" using False by (simp add: print_nat.simps [of n])
    then have "hd ?p = 0x30" using "1.prems" by simp
    with "1.IH" False have "tl ?p = []" by simp
    with \<open>hd ?p = 0x30\<close> have "?p = [0x30]"
      by (metis list.collapse print_nat_nonempty)
    then have "n div 10 = 0"
      using digits_val_print_nat [of "n div 10"] by (simp add: digits_val_def)
    with False show ?thesis by simp
  qed
qed

text \<open>What may follow a value inside a document.\<close>

definition ends_value :: "bytes \<Rightarrow> bool" where
  "ends_value r \<longleftrightarrow> r = [] \<or> hd r = 0x2C \<or> hd r = 0x5D \<or> hd r = 0x7D"

lemma ends_value_simps [simp]:
  "ends_value []" "ends_value (0x2C # r)" "ends_value (0x5D # r)" "ends_value (0x7D # r)"
  by (simp_all add: ends_value_def)

lemma ends_value_not_digit: "ends_value r \<Longrightarrow> takeWhile is_digit r = [] \<and> dropWhile is_digit r = r"
  by (cases r) (auto simp: ends_value_def is_digit_def)

lemma parse_nat_print_nat: "ends_value r \<Longrightarrow> parse_nat (print_nat n @ r) = Some (n, r)"
proof -
  assume r: "ends_value r"
  have "takeWhile is_digit (print_nat n @ r) = print_nat n"
    and "dropWhile is_digit (print_nat n @ r) = r"
    using print_nat_digits [of n] ends_value_not_digit [OF r]
    by (simp_all add: takeWhile_append dropWhile_append)
  with r print_nat_no_leading_zero [of n] show ?thesis
    by (auto simp: parse_nat_def Let_def digits_val_print_nat ends_value_def)
qed

lemma hex_val_hex_digit: "d < 16 \<Longrightarrow> hex_val (hex_digit d) = Some d"
  by (auto simp: hex_val_def hex_digit_def is_digit_unat word_le_nat_alt unat_of_nat_byte)

lemma parse_str_escape:
  assumes "b < 0x80"
  shows "parse_str (escape_byte b @ bs) = map_option (\<lambda>(s, r). (b # s, r)) (parse_str bs)"
proof -
  have lt: "unat b < 128" using assms by (simp add: word_less_nat_alt)
  then have lt8: "unat b div 16 < 8" by simp
  have d1: "hex_val (hex_digit (unat b div 16)) = Some (unat b div 16)"
    and d2: "hex_val (hex_digit (unat b mod 16)) = Some (unat b mod 16)"
    using lt by (simp_all add: hex_val_hex_digit)
  have b: "of_nat (unat b div 16 * 16 + unat b mod 16) = b"
    by (simp only: div_mult_mod_eq) simp
  have z: "hex_val 0x30 = Some 0" by (simp add: hex_val_def is_digit_def)
  show ?thesis
    using lt8 b by (simp add: escape_byte_def d1 d2 z)
qed

definition ascii_str :: "bytes \<Rightarrow> bool" where
  "ascii_str s \<longleftrightarrow> (\<forall>b \<in> set s. b < 0x80)"

lemma parse_str_print: "ascii_str s \<Longrightarrow> parse_str (concat (map escape_byte s) @ 0x22 # r) = Some (s, r)"
proof (induction s)
  case (Cons b s)
  then have "b < 0x80" and "ascii_str s" by (simp_all add: ascii_str_def)
  with Cons.IH show ?case
    by (simp add: parse_str_escape del: parse_str.simps)
qed simp

fun json_ok :: "json \<Rightarrow> bool" where
  "json_ok (JStr s) = ascii_str s"
| "json_ok (JArr xs) = (\<forall>x \<in> set xs. json_ok x)"
| "json_ok (JObj ms) = (\<forall>(k, v) \<in> set ms. ascii_str k \<and> json_ok v)"
| "json_ok _ = True"

lemma is_ws_simps [simp]: "\<not> is_ws 0x2C" "\<not> is_ws 0x5D" "\<not> is_ws 0x7D" "\<not> is_ws 0x3A" "\<not> is_ws 0x22" "\<not> is_ws 0x2D"
  by (simp_all add: is_ws_def)

lemma skip_ws_Cons [simp]: "\<not> is_ws c \<Longrightarrow> skip_ws (c # cs) = c # cs"
  by (simp add: skip_ws_def)

lemma skip_ws_Nil [simp]: "skip_ws [] = []"
  by (simp add: skip_ws_def)

lemma print_nat_Cons: obtains c cs where "print_nat n = c # cs" and "is_digit c"
  using print_nat_digits [of n] print_nat_nonempty [of n] by (cases "print_nat n") auto

lemma is_digit_neq:
  assumes "is_digit c"
  shows "\<not> is_ws c" "c \<noteq> 0x5D" "c \<noteq> 0x7D" "c \<noteq> 0x7B" "c \<noteq> 0x5B" "c \<noteq> 0x22" "c \<noteq> 0x6E"
    "c \<noteq> 0x74" "c \<noteq> 0x66" "c \<noteq> 0x2D"
  using assms by (auto simp: is_digit_def is_ws_def)

lemma json_print_Cons:
  obtains c cs where "json_print j = c # cs" and "\<not> is_ws c" and "c \<noteq> 0x5D" and "c \<noteq> 0x7D"
proof (cases j)
  case (JNum i)
  obtain c cs where "print_nat (nat i) = c # cs" and "is_digit c" by (rule print_nat_Cons)
  with JNum that show ?thesis
    by (cases "i < 0") (simp_all add: print_int_def is_digit_neq)
next
  case (JBool b)
  with that show ?thesis by (cases b) (simp_all add: is_ws_def)
qed (use that in \<open>auto simp: print_str_def is_ws_def\<close>)

lemma parse_value_num:
  assumes "ends_value r"
  shows "parse_value (Suc f) (print_int i @ r) = Some (JNum i, r)"
proof (cases "i < 0")
  case True
  then show ?thesis
    using parse_nat_print_nat [OF assms, of "nat (- i)"] by (simp add: print_int_def is_ws_def)
next
  case False
  obtain c cs where p: "print_nat (nat i) = c # cs" and d: "is_digit c" by (rule print_nat_Cons)
  note is_digit_neq [OF d]
  then show ?thesis
    using False parse_nat_print_nat [OF assms, of "nat i"] p by (simp add: print_int_def)
qed

lemma length_join_Cons: "length (join (x # xs)) = length x + (if xs = [] then 0 else Suc (length (join xs)))"
  by (cases xs) auto

lemma parse_elems_join:
  assumes "xs \<noteq> []"
    and "\<And>x f r. x \<in> set xs \<Longrightarrow> length (json_print x) \<le> f \<Longrightarrow> ends_value r \<Longrightarrow>
          parse_value f (json_print x @ r) = Some (x, r)"
    and "length (join (map json_print xs)) < f"
  shows "parse_elems f (join (map json_print xs) @ 0x5D # r) = Some (xs, r)"
  using assms
proof (induction xs arbitrary: f)
  case Nil
  then show ?case by simp
next
  case (Cons x xs)
  from Cons.prems(3) obtain f' where f: "f = Suc f'" by (cases f) auto
  have len: "length (json_print x) \<le> f'" using Cons.prems(3) f by (simp add: length_join_Cons)
  show ?case
  proof (cases "xs = []")
    case True
    then show ?thesis using Cons.prems(2) [of x f' "0x5D # r"] len f by simp
  next
    case False
    then obtain y ys where xs: "xs = y # ys" by (cases xs) auto
    have "parse_elems f' (join (map json_print xs) @ 0x5D # r) = Some (xs, r)"
      using Cons.IH [OF False] Cons.prems(2,3) f False by (simp add: length_join_Cons)
    moreover have "parse_value f' (json_print x @ 0x2C # join (map json_print xs) @ 0x5D # r)
        = Some (x, 0x2C # join (map json_print xs) @ 0x5D # r)"
      using Cons.prems(2) [of x f'] len by simp
    ultimately show ?thesis using f xs by simp
  qed
qed

abbreviation print_member :: "bytes \<times> json \<Rightarrow> bytes" where
  "print_member \<equiv> \<lambda>(k, v). print_str k @ 0x3A # json_print v"

lemma parse_members_join:
  assumes "ms \<noteq> []"
    and "\<And>k v f r. (k, v) \<in> set ms \<Longrightarrow> length (json_print v) \<le> f \<Longrightarrow> ends_value r \<Longrightarrow>
          ascii_str k \<and> parse_value f (json_print v @ r) = Some (v, r)"
    and "length (join (map print_member ms)) < f"
  shows "parse_members f (join (map print_member ms) @ 0x7D # r) = Some (ms, r)"
  using assms
proof (induction ms arbitrary: f)
  case Nil
  then show ?case by simp
next
  case (Cons m ms)
  obtain k v where m: "m = (k, v)" by (cases m)
  from Cons.prems(3) obtain f' where f: "f = Suc f'" by (cases f) auto
  have len: "length (json_print v) \<le> f'" using Cons.prems(3) f m by (simp add: length_join_Cons)
  have k: "ascii_str k" using Cons.prems(2) [of k v "length (json_print v)" "[]"] m by simp
  have val: "parse_value f' (json_print v @ rr) = Some (v, rr)" if "ends_value rr" for rr
    using Cons.prems(2) [of k v f' rr] m len that by simp
  show ?case
  proof (cases "ms = []")
    case True
    then show ?thesis
      using f m k val [of "0x7D # r"] by (simp add: print_str_def parse_str_print)
  next
    case False
    then obtain y ys where ms: "ms = y # ys" by (cases ms) auto
    have "parse_members f' (join (map print_member ms) @ 0x7D # r) = Some (ms, r)"
    proof (rule Cons.IH [OF False])
      show "length (join (map print_member ms)) < f'"
        using Cons.prems(3) f m False by (simp add: length_join_Cons)
    qed (rule Cons.prems(2), simp_all)
    then show ?thesis
      using f m ms k val [of "0x2C # join (map print_member ms) @ 0x7D # r"]
      by (simp add: print_str_def parse_str_print)
  qed
qed

lemma json_print_length [simp]: "0 < length (json_print j)"
  by (metis json_print_Cons length_greater_0_conv list.discI)

lemma parse_value_print:
  "json_ok j \<Longrightarrow> length (json_print j) \<le> f \<Longrightarrow> ends_value r \<Longrightarrow>
   parse_value f (json_print j @ r) = Some (j, r)"
proof (induction j arbitrary: f r)
  case JNull
  then show ?case by (cases f) (simp_all add: is_ws_def)
next
  case (JBool b)
  then show ?case by (cases f) (auto simp: is_ws_def split: if_splits)
next
  case (JNum i)
  then obtain f' where "f = Suc f'"
    using json_print_length [of "JNum i"] by (cases f) auto
  with JNum show ?case by (simp add: parse_value_num del: parse_value.simps)
next
  case (JStr s)
  then show ?case by (cases f) (auto simp: print_str_def parse_str_print)
next
  case (JArr xs)
  then obtain f' where f: "f = Suc f'" by (cases f) auto
  show ?case
  proof (cases xs)
    case Nil
    with f show ?thesis by (simp add: is_ws_def)
  next
    case (Cons y ys)
    obtain c cs where c: "json_print y = c # cs" "\<not> is_ws c" "c \<noteq> 0x5D" by (rule json_print_Cons)
    have "parse_elems f' (join (map json_print xs) @ 0x5D # r) = Some (xs, r)"
      using JArr f Cons by (intro parse_elems_join) auto
    moreover obtain ds where "join (map json_print xs) = c # ds"
      using Cons c by (cases ys) auto
    ultimately show ?thesis using f c by (simp add: is_ws_def)
  qed
next
  case (JObj ms)
  then obtain f' where f: "f = Suc f'" by (cases f) auto
  show ?case
  proof (cases ms)
    case Nil
    with f show ?thesis by (simp add: is_ws_def)
  next
    case (Cons m ms')
    have ih: "ascii_str k \<and> parse_value g (json_print v @ q) = Some (v, q)"
      if "(k, v) \<in> set ms" "length (json_print v) \<le> g" "ends_value q" for k v g q
    proof -
      have "ascii_str k" and "json_ok v" using JObj.prems(1) that(1) by auto
      then show ?thesis using JObj.IH [OF that(1), of v g q] that by simp
    qed
    have len: "length (join (map print_member ms)) < f'"
      using JObj.prems(2) unfolding f json_print.simps by (simp only: length_Cons length_append list.size)
    have ne: "ms \<noteq> []" using Cons by simp
    have "parse_members f' (join (map print_member ms) @ 0x7D # r) = Some (ms, r)"
      by (rule parse_members_join [OF ne ih len])
    moreover obtain ds where "join (map print_member ms) = 0x22 # ds"
      using Cons by (cases m; cases ms') (auto simp: print_str_def)
    ultimately show ?thesis using f by (simp add: is_ws_def)
  qed
qed

lemma json_parse_print [codec_simps]: "json_ok j \<Longrightarrow> json_parse (json_print j) = Some j"
  using parse_value_print [of j "Suc (length (json_print j))" "[]"]
  by (simp add: json_parse_def del: parse_value.simps)

section \<open>Base64\<close>

definition b64_char :: "nat \<Rightarrow> byte" where
  "b64_char n =
     (if n < 26 then of_nat (65 + n) else if n < 52 then of_nat (71 + n)
      else if n < 62 then of_nat (n - 4) else if n = 62 then 0x2B else 0x2F)"

definition b64_val :: "byte \<Rightarrow> nat option" where
  "b64_val b =
     (let n = unat b
      in if 65 \<le> n \<and> n \<le> 90 then Some (n - 65)
         else if 97 \<le> n \<and> n \<le> 122 then Some (n - 71)
         else if 48 \<le> n \<and> n \<le> 57 then Some (n + 4)
         else if n = 43 then Some 62
         else if n = 47 then Some 63
         else None)"

fun base64_encode :: "bytes \<Rightarrow> bytes" where
  "base64_encode [] = []"
| "base64_encode [a] = [b64_char (unat a div 4), b64_char (unat a mod 4 * 16), 0x3D, 0x3D]"
| "base64_encode [a, b] =
     [b64_char (unat a div 4), b64_char (unat a mod 4 * 16 + unat b div 16),
      b64_char (unat b mod 16 * 4), 0x3D]"
| "base64_encode (a # b # c # r) =
     b64_char (unat a div 4) # b64_char (unat a mod 4 * 16 + unat b div 16)
     # b64_char (unat b mod 16 * 4 + unat c div 64) # b64_char (unat c mod 64) # base64_encode r"

fun base64_decode :: "bytes \<Rightarrow> bytes option" where
  "base64_decode [] = Some []"
| "base64_decode (p # q # r # s # rest) =
     (case (b64_val p, b64_val q) of
        (Some v1, Some v2) \<Rightarrow>
          if r = 0x3D then
            (if s = 0x3D \<and> rest = [] then Some [of_nat (v1 * 4 + v2 div 16)] else None)
          else (case b64_val r of
                  None \<Rightarrow> None
                | Some v3 \<Rightarrow>
                    if s = 0x3D then
                      (if rest = []
                       then Some [of_nat (v1 * 4 + v2 div 16), of_nat (v2 mod 16 * 16 + v3 div 4)]
                       else None)
                    else (case b64_val s of
                            None \<Rightarrow> None
                          | Some v4 \<Rightarrow>
                              map_option (\<lambda>t. of_nat (v1 * 4 + v2 div 16) # of_nat (v2 mod 16 * 16 + v3 div 4)
                                            # of_nat (v3 mod 4 * 64 + v4) # t) (base64_decode rest)))
      | _ \<Rightarrow> None)"
| "base64_decode _ = None"

lemma unat_b64_char:
  "n < 64 \<Longrightarrow> unat (b64_char n) =
     (if n < 26 then 65 + n else if n < 52 then 71 + n
      else if n < 62 then n - 4 else if n = 62 then 43 else 47)"
  unfolding b64_char_def by (auto simp: unat_of_nat_byte simp del: of_nat_add of_nat_diff)

lemma b64_val_char [simp]: "n < 64 \<Longrightarrow> b64_val (b64_char n) = Some n"
  unfolding b64_val_def Let_def by (simp add: unat_b64_char) linarith

lemma b64_char_not_pad [simp]: "n < 64 \<Longrightarrow> b64_char n \<noteq> 0x3D"
  using unat_b64_char [of n] by (auto split: if_splits)

lemma b64_char_ascii: "n < 64 \<Longrightarrow> b64_char n < 0x80"
  using unat_b64_char [of n] by (simp add: word_less_nat_alt split: if_splits)

lemma div_byte_less: "unat (b :: byte) div 16 < 16" "unat b div 64 < 4" "unat b div 4 < 64"
  using unat_byte_le [of b] by simp_all

lemma b64_bounds:
  "unat (a :: byte) div 4 < 64" "unat a mod 4 * 16 < 64" "unat a mod 4 * 16 + unat (b :: byte) div 16 < 64"
  "unat a mod 16 * 4 < 64" "unat a mod 16 * 4 + unat b div 64 < 64" "unat a mod 64 < 64"
  using div_byte_less [of a] div_byte_less [of b] mod_less_divisor [of 4 "unat a"]
    mod_less_divisor [of 16 "unat a"] mod_less_divisor [of 64 "unat a"]
  by linarith+

lemma div_join: "y < m \<Longrightarrow> (x * m + y) div m = (x :: nat)"
  by simp

lemma mod_join: "y < m \<Longrightarrow> (x * m + y) mod m = (y :: nat)"
  by simp

lemmas b64_simps = base64_encode.simps base64_decode.simps b64_val_char b64_char_not_pad b64_bounds
  option.case prod.case if_False div_join mod_join div_byte_less div_mult_mod_eq

lemma base64_decode_encode [codec_simps]: "base64_decode (base64_encode bs) = Some bs"
proof (induction bs rule: base64_encode.induct)
  case (2 a)
  show ?case by (simp only: b64_simps) (simp add: div_mult_mod_eq del: of_nat_add of_nat_mult)
next
  case (3 a b)
  show ?case by (simp only: b64_simps) (simp add: div_mult_mod_eq del: of_nat_add of_nat_mult)
next
  case (4 a b c r)
  then show ?case by (simp only: b64_simps) (simp add: div_mult_mod_eq del: of_nat_add of_nat_mult)
qed simp

lemma base64_ascii [simp]: "ascii_str (base64_encode bs)"
  by (induction bs rule: base64_encode.induct) (auto simp: ascii_str_def b64_char_ascii b64_bounds)

section \<open>Decoding into structs\<close>

text \<open>\<open>json.Unmarshal\<close> into a struct: object members are matched to fields without regard to
  case, unknown members are skipped, a later member overwrites an earlier one, and \<open>null\<close>
  leaves the struct as it is. \<open>f\<close> decodes one member; \<open>None\<close> is an error.\<close>

definition lower :: "byte \<Rightarrow> byte" where
  "lower b = (if 0x41 \<le> b \<and> b \<le> 0x5A then b + 0x20 else b)"

definition field_is :: "string \<Rightarrow> bytes \<Rightarrow> bool" where
  "field_is name k \<longleftrightarrow> map lower k = map lower (ascii name)"

fun decode_members :: "(bytes \<Rightarrow> json \<Rightarrow> 'a \<Rightarrow> 'a option) \<Rightarrow> (bytes \<times> json) list \<Rightarrow> 'a \<Rightarrow> 'a option" where
  "decode_members f [] x = Some x"
| "decode_members f ((k, j) # ms) x =
     (case f k j x of None \<Rightarrow> None | Some x' \<Rightarrow> decode_members f ms x')"

definition decode_struct :: "(bytes \<Rightarrow> json \<Rightarrow> 'a \<Rightarrow> 'a option) \<Rightarrow> json \<Rightarrow> 'a \<Rightarrow> 'a option" where
  "decode_struct f j x =
     (case j of JNull \<Rightarrow> Some x | JObj ms \<Rightarrow> decode_members f ms x | _ \<Rightarrow> None)"

text \<open>Decoding a value into a field: \<open>null\<close> leaves a number as it is and makes a slice nil.\<close>

fun json_u64 :: "64 word \<Rightarrow> json \<Rightarrow> 64 word option" where
  "json_u64 old JNull = Some old"
| "json_u64 old (JNum n) = (if 0 \<le> n \<and> n < 2 ^ 64 then Some (of_int n) else None)"
| "json_u64 old _ = None"

fun json_u8 :: "json \<Rightarrow> byte option" where
  "json_u8 JNull = Some 0"
| "json_u8 (JNum n) = (if 0 \<le> n \<and> n < 256 then Some (of_int n) else None)"
| "json_u8 _ = None"

fun json_bytes :: "json \<Rightarrow> bytes option option" where
  "json_bytes JNull = Some None"
| "json_bytes (JStr s) = map_option Some (base64_decode s)"
| "json_bytes (JArr js) = map_option Some (those (map json_u8 js))"
| "json_bytes _ = None"

lemma json_u64_uint [simp]: "json_u64 old (JNum (uint n)) = Some n"
  using uint_lt2p [of n] by simp

declare json_u64.simps(2) [simp del]

lemma ascii_simps [simp]: "ascii [] = []" "ascii (c # s) = of_char c # ascii s"
  by (simp_all add: ascii_def)

lemma ascii_str_simps [simp]:
  "ascii_str []" "ascii_str (b # bs) \<longleftrightarrow> b < 0x80 \<and> ascii_str bs"
  "ascii_str (xs @ ys) \<longleftrightarrow> ascii_str xs \<and> ascii_str ys"
  by (auto simp: ascii_str_def)

end
