(* ===== verification/Storage.thy ===== *)
theory Storage
  imports HLC
begin

text \<open>
  The storage interface (\<open>internal/storage/engine.go\<close>) and the error values that
  travel through it. Go's \<open>error\<close> interface is one datatype: the sentinels and error
  structs of the modelled packages, \<open>Msg\<close> for \<open>errors.New\<close> and \<open>fmt.Errorf\<close> without
  \<open>%w\<close>, \<open>Wrap\<close> and \<open>Wrap2\<close> for \<open>fmt.Errorf\<close> with one and two \<open>%w\<close> verbs (the message is
  the constant part of the format). \<open>engine_ops\<close> is the method table of a
  \<open>storage.Engine\<close> with its iterators; the locale \<open>storage_engine\<close> states the contract
  written in the comments of the interface.
\<close>

section \<open>Errors\<close>

type_synonym txnid = "128 word"

datatype error =
    ErrKeyNotFound
  | ErrWriteIntent
  | ErrWriteTooOld
  | ErrReadUncertainty
  | ErrTxnFinalized
  | ErrTooManyRetries
  | ErrUnavailable
  | ErrCompacted
  | ErrNotLeader
  | ErrChecksumMismatch
  | EOF
  | ErrUnexpectedEOF
  | WriteIntentError bytes txnid timestamp
  | WriteTooOldError bytes timestamp timestamp
  | UncertaintyError bytes timestamp timestamp timestamp
  | TxnRetryError txnid string i32
  | Msg string
  | Wrap string error
  | Wrap2 string error error

type_synonym 'a result = "error + 'a"

text \<open>\<open>errors.Is\<close> against a sentinel: the error itself, its \<open>Is\<close> method, then what it wraps.\<close>

fun errors_Is :: "error \<Rightarrow> error \<Rightarrow> bool" where
  "errors_Is (WriteIntentError k i t) target \<longleftrightarrow> target = ErrWriteIntent"
| "errors_Is (WriteTooOldError k r x) target \<longleftrightarrow> target = ErrWriteTooOld"
| "errors_Is (UncertaintyError k r m x) target \<longleftrightarrow> target = ErrReadUncertainty"
| "errors_Is (Wrap s e) target \<longleftrightarrow> errors_Is e target"
| "errors_Is (Wrap2 s e e') target \<longleftrightarrow> errors_Is e target \<or> errors_Is e' target"
| "errors_Is e target \<longleftrightarrow> e = target"

text \<open>\<open>errors.As\<close> at the error structs, as the \<open>extract\<close> functions of the callers use it.\<close>

fun extractWriteIntent :: "error \<Rightarrow> (bytes \<times> txnid \<times> timestamp) option" where
  "extractWriteIntent (WriteIntentError k i t) = Some (k, i, t)"
| "extractWriteIntent (Wrap s e) = extractWriteIntent e"
| "extractWriteIntent (Wrap2 s e e') =
     (case extractWriteIntent e of None \<Rightarrow> extractWriteIntent e' | Some x \<Rightarrow> Some x)"
| "extractWriteIntent _ = None"

fun extractWriteTooOld :: "error \<Rightarrow> (bytes \<times> timestamp \<times> timestamp) option" where
  "extractWriteTooOld (WriteTooOldError k r x) = Some (k, r, x)"
| "extractWriteTooOld (Wrap s e) = extractWriteTooOld e"
| "extractWriteTooOld (Wrap2 s e e') =
     (case extractWriteTooOld e of None \<Rightarrow> extractWriteTooOld e' | Some x \<Rightarrow> Some x)"
| "extractWriteTooOld _ = None"

fun extractUncertaintyError :: "error \<Rightarrow> (bytes \<times> timestamp \<times> timestamp \<times> timestamp) option" where
  "extractUncertaintyError (UncertaintyError k r m x) = Some (k, r, m, x)"
| "extractUncertaintyError (Wrap s e) = extractUncertaintyError e"
| "extractUncertaintyError (Wrap2 s e e') =
     (case extractUncertaintyError e of None \<Rightarrow> extractUncertaintyError e' | Some x \<Rightarrow> Some x)"
| "extractUncertaintyError _ = None"

fun extractRetryError :: "error \<Rightarrow> (txnid \<times> string \<times> i32) option" where
  "extractRetryError (TxnRetryError i r p) = Some (i, r, p)"
| "extractRetryError (Wrap s e) = extractRetryError e"
| "extractRetryError (Wrap2 s e e') =
     (case extractRetryError e of None \<Rightarrow> extractRetryError e' | Some x \<Rightarrow> Some x)"
| "extractRetryError _ = None"

section \<open>The engine interface\<close>

datatype batch_op = BatchPut bytes bytes | BatchDelete bytes

text \<open>
  One field per method. An engine operation returns the engine after the call; an
  iterator operation returns the iterator after it. A \<open>Batch\<close> is the list of its
  operations, in the order they were added, and \<open>eng_Commit\<close> its \<open>Commit\<close>.
\<close>

record ('e, 'i) engine_ops =
  eng_Put :: "'e \<Rightarrow> bytes \<Rightarrow> bytes \<Rightarrow> 'e \<times> error option"
  eng_Get :: "'e \<Rightarrow> bytes \<Rightarrow> bytes result"
  eng_Delete :: "'e \<Rightarrow> bytes \<Rightarrow> 'e \<times> error option"
  eng_NewIterator :: "'e \<Rightarrow> 'i result"
  eng_Commit :: "'e \<Rightarrow> batch_op list \<Rightarrow> 'e \<times> error option"
  it_Seek :: "'i \<Rightarrow> bytes \<Rightarrow> bool \<times> 'i"
  it_Next :: "'i \<Rightarrow> bool \<times> 'i"
  it_Valid :: "'i \<Rightarrow> bool"
  it_Key :: "'i \<Rightarrow> bytes"
  it_Value :: "'i \<Rightarrow> bytes"
  it_IsTombstone :: "'i \<Rightarrow> bool"

fun apply_batch_op :: "batch_op \<Rightarrow> (bytes \<rightharpoonup> bytes) \<Rightarrow> (bytes \<rightharpoonup> bytes)" where
  "apply_batch_op (BatchPut k v) m = m(k \<mapsto> v)"
| "apply_batch_op (BatchDelete k) m = m(k := None)"

definition apply_batch :: "batch_op list \<Rightarrow> (bytes \<rightharpoonup> bytes) \<Rightarrow> (bytes \<rightharpoonup> bytes)" where
  "apply_batch bs m = fold apply_batch_op bs m"

lemma apply_batch_simps [simp]:
  "apply_batch [] m = m"
  "apply_batch (b # bs) m = apply_batch bs (apply_batch_op b m)"
  by (simp_all add: apply_batch_def)

lemma finite_apply_batch [simp]: "finite (dom m) \<Longrightarrow> finite (dom (apply_batch bs m))"
proof (induction bs arbitrary: m)
  case (Cons b bs)
  have "finite (dom (apply_batch_op b m))" using Cons.prems by (cases b) (simp_all add: dom_fun_upd)
  then show ?case using Cons.IH by simp
qed simp

text \<open>
  The contract. \<open>view\<close> is the ordered map an engine stands for. An iterator observes the
  view of the engine at its creation (\<open>whole\<close>), whatever happens to the engine later;
  \<open>rest\<close> is what lies at and after its position.
\<close>

locale storage_engine =
  fixes ops :: "('e, 'i) engine_ops"
    and inv :: "'e \<Rightarrow> bool"
    and view :: "'e \<Rightarrow> bytes \<rightharpoonup> bytes"
    and iok :: "'i \<Rightarrow> bool"
    and whole :: "'i \<Rightarrow> (bytes \<times> bytes) list"
    and rest :: "'i \<Rightarrow> (bytes \<times> bytes) list"
  assumes view_finite: "inv e \<Longrightarrow> finite (dom (view e))"
    and Get: "inv e \<Longrightarrow>
      eng_Get ops e k = (case view e k of None \<Rightarrow> Inl ErrKeyNotFound | Some v \<Rightarrow> Inr v)"
    and Put: "inv e \<Longrightarrow>
      \<exists>e'. eng_Put ops e k v = (e', None) \<and> inv e' \<and> view e' = (view e)(k \<mapsto> v)"
    and Delete: "inv e \<Longrightarrow>
      \<exists>e'. eng_Delete ops e k = (e', None) \<and> inv e' \<and> view e' = (view e)(k := None)"
    and Commit: "inv e \<Longrightarrow>
      \<exists>e'. eng_Commit ops e bs = (e', None) \<and> inv e' \<and> view e' = apply_batch bs (view e)"
    and NewIterator: "inv e \<Longrightarrow>
      \<exists>i. eng_NewIterator ops e = Inr i \<and> iok i \<and> whole i = entries (view e)"
    and Seek: "iok i \<Longrightarrow>
      \<exists>i'. it_Seek ops i k = (rest i' \<noteq> [], i') \<and> iok i' \<and> whole i' = whole i \<and>
        rest i' = dropWhile (\<lambda>p. fst p < k) (whole i)"
    and Next: "iok i \<Longrightarrow> rest i \<noteq> [] \<Longrightarrow>
      \<exists>i'. it_Next ops i = (rest i' \<noteq> [], i') \<and> iok i' \<and> whole i' = whole i \<and>
        rest i' = tl (rest i)"
    and Valid: "iok i \<Longrightarrow> it_Valid ops i \<longleftrightarrow> rest i \<noteq> []"
    and Key: "iok i \<Longrightarrow> rest i = (k, v) # r \<Longrightarrow> it_Key ops i = k"
    and Value: "iok i \<Longrightarrow> rest i = (k, v) # r \<Longrightarrow> it_Value ops i = v"
    and IsTombstone: "iok i \<Longrightarrow> rest i \<noteq> [] \<Longrightarrow> \<not> it_IsTombstone ops i"

end
