(* ===== verification/Mvcc_Key.thy ===== *)
theory Mvcc_Key
  imports HLC Json Storage
begin

text \<open>
  MVCC keys (\<open>internal/storage/mvcc/key.go\<close>), the per-key metadata record
  (\<open>metadata.go\<close>) and the tag on stored values (\<open>mvcc.go\<close>). The results: versions of
  one key sort newest first, keys and metadata read back from their encoding, and the
  entries of one raw key form a contiguous run as long as no other stored key
  continues it behind a zero byte.
\<close>

unbundle bit_operations_syntax

section \<open>Keys\<close>

record mvccKey =
  mk_Key :: bytes
  mk_Timestamp :: timestamp

definition encodeTimestampDesc :: "timestamp \<Rightarrow> bytes" where
  "encodeTimestampDesc ts =
     map (\<lambda>b. NOT b) (be_bytes 8 (unat (WallTime ts))) @ map (\<lambda>b. NOT b) (be_bytes 4 (unat (Logical ts)))"

definition decodeTimestampDesc :: "bytes \<Rightarrow> timestamp" where
  "decodeTimestampDesc src =
     (let wall = map (\<lambda>b. NOT b) (take 8 src); logical = map (\<lambda>b. NOT b) (take 4 (drop 8 src))
      in Timestamp (of_nat (be_val wall)) (of_nat (be_val logical)))"

definition EncodeMeta :: "bytes \<Rightarrow> bytes" where
  "EncodeMeta key = key @ [0]"

definition mvcc_Encode :: "mvccKey \<Rightarrow> bytes" where
  "mvcc_Encode k =
     (if ts_IsEmpty (mk_Timestamp k) then EncodeMeta (mk_Key k)
      else mk_Key k @ [0] @ encodeTimestampDesc (mk_Timestamp k))"

abbreviation enc :: "bytes \<Rightarrow> timestamp \<Rightarrow> bytes" where
  "enc key ts \<equiv> mvcc_Encode \<lparr>mk_Key = key, mk_Timestamp = ts\<rparr>"

definition mvcc_Decode :: "bytes \<Rightarrow> (mvccKey \<times> bool) result" where
  "mvcc_Decode encoded =
     (if encoded = [] then Inl (Msg ''mvcc: decode empty key'')
      else
        (let sepIdx = length encoded - 12 - 1
         in if length encoded > 12 \<and> encoded ! sepIdx = 0
            then Inr (\<lparr>mk_Key = take sepIdx encoded,
                       mk_Timestamp = decodeTimestampDesc (drop (sepIdx + 1) encoded)\<rparr>, True)
            else if last encoded = 0
            then Inr (\<lparr>mk_Key = butlast encoded, mk_Timestamp = ts_zero\<rparr>, False)
            else Inl (Msg ''mvcc: malformed key (no separator)'')))"

definition nextKeyPrefix :: "bytes \<Rightarrow> bytes" where
  "nextKeyPrefix key = key @ [0]"

fun bytesLess :: "bytes \<Rightarrow> bytes \<Rightarrow> bool" where
  "bytesLess (a # as) (b # bs) = (if a \<noteq> b then a < b else bytesLess as bs)"
| "bytesLess [] bs \<longleftrightarrow> bs \<noteq> []"
| "bytesLess as [] \<longleftrightarrow> False"

lemma bytesLess_less [simp]: "bytesLess as bs \<longleftrightarrow> as < bs"
proof (induction as bs rule: bytesLess.induct)
  case (2 bs)
  then show ?case by (cases bs) auto
qed auto

section \<open>Stored values\<close>

definition encodeMVCCValue :: "bytes \<Rightarrow> bytes" where
  "encodeMVCCValue v = 0x01 # v"

definition encodeMVCCTombstone :: bytes where
  "encodeMVCCTombstone = [0x00]"

definition decodeMVCCValue :: "bytes \<Rightarrow> bytes \<times> bool" where
  "decodeMVCCValue raw = (if raw = [] \<or> hd raw = 0x00 then ([], True) else (tl raw, False))"

lemma decodeMVCCValue_simps [simp]:
  "decodeMVCCValue (encodeMVCCValue v) = (v, False)" "decodeMVCCValue encodeMVCCTombstone = ([], True)"
  by (simp_all add: decodeMVCCValue_def encodeMVCCValue_def encodeMVCCTombstone_def)

section \<open>Metadata\<close>

record mvccMetadata =
  m_Timestamp :: timestamp
  m_Deleted :: bool
  m_Txn :: "txnid option"
  m_TxnTimestamp :: timestamp
  m_KeyBytes :: i64
  m_ValBytes :: i64
  m_InlineValue :: "bytes option"

definition zeroMetadata :: mvccMetadata where
  "zeroMetadata = \<lparr>m_Timestamp = ts_zero, m_Deleted = False, m_Txn = None, m_TxnTimestamp = ts_zero,
     m_KeyBytes = 0, m_ValBytes = 0, m_InlineValue = None\<rparr>"

definition IsInline :: "mvccMetadata \<Rightarrow> bool" where
  "IsInline m \<longleftrightarrow> m_InlineValue m \<noteq> None"

definition TxnID_IsZero :: "txnid \<Rightarrow> bool" where
  "TxnID_IsZero t \<longleftrightarrow> t = 0"

definition HasIntent :: "mvccMetadata \<Rightarrow> bool" where
  "HasIntent m \<longleftrightarrow> (case m_Txn m of None \<Rightarrow> False | Some t \<Rightarrow> \<not> TxnID_IsZero t)"

text \<open>A transaction id is sixteen bytes; it prints as an array of sixteen numbers.\<close>

definition txn_bytes :: "txnid \<Rightarrow> bytes" where
  "txn_bytes t = be_bytes 16 (unat t)"

definition txn_of_bytes :: "bytes \<Rightarrow> txnid" where
  "txn_of_bytes bs = of_nat (be_val bs)"

definition int_json :: "i64 \<Rightarrow> json" where
  "int_json n = JNum (sint n)"

definition ts_json :: "timestamp \<Rightarrow> json" where
  "ts_json ts = JObj [(ascii ''WallTime'', JNum (sint (WallTime ts))), (ascii ''Logical'', JNum (sint (Logical ts)))]"

definition metadata_json :: "mvccMetadata \<Rightarrow> json" where
  "metadata_json m =
     JObj ([(ascii ''ts'', ts_json (m_Timestamp m))] @
       (if m_Deleted m then [(ascii ''del'', JBool True)] else []) @
       (case m_Txn m of None \<Rightarrow> []
        | Some t \<Rightarrow> [(ascii ''txn'', JArr (map (\<lambda>b. JNum (uint b)) (txn_bytes t)))]) @
       [(ascii ''txn_ts'', ts_json (m_TxnTimestamp m))] @
       (if m_KeyBytes m \<noteq> 0 then [(ascii ''kb'', int_json (m_KeyBytes m))] else []) @
       (if m_ValBytes m \<noteq> 0 then [(ascii ''vb'', int_json (m_ValBytes m))] else []) @
       (case m_InlineValue m of None \<Rightarrow> []
        | Some v \<Rightarrow> if v = [] then [] else [(ascii ''inline'', JStr (base64_encode v))]))"

definition metadata_Encode :: "mvccMetadata \<Rightarrow> bytes" where
  "metadata_Encode m = json_print (metadata_json m)"

fun json_i64 :: "i64 \<Rightarrow> json \<Rightarrow> i64 option" where
  "json_i64 old JNull = Some old"
| "json_i64 old (JNum n) = (if - (2 ^ 63) \<le> n \<and> n < 2 ^ 63 then Some (of_int n) else None)"
| "json_i64 old _ = None"

fun json_i32 :: "i32 \<Rightarrow> json \<Rightarrow> i32 option" where
  "json_i32 old JNull = Some old"
| "json_i32 old (JNum n) = (if - (2 ^ 31) \<le> n \<and> n < 2 ^ 31 then Some (of_int n) else None)"
| "json_i32 old _ = None"

fun json_bool :: "bool \<Rightarrow> json \<Rightarrow> bool option" where
  "json_bool old JNull = Some old"
| "json_bool old (JBool b) = Some b"
| "json_bool old _ = None"

definition ts_field :: "bytes \<Rightarrow> json \<Rightarrow> timestamp \<Rightarrow> timestamp option" where
  "ts_field k j ts =
     (if field_is ''WallTime'' k then map_option (\<lambda>w. Timestamp w (Logical ts)) (json_i64 (WallTime ts) j)
      else if field_is ''Logical'' k then map_option (\<lambda>l. Timestamp (WallTime ts) l) (json_i32 (Logical ts) j)
      else Some ts)"

text \<open>An array of sixteen bytes: extra elements are dropped, missing ones are zero.\<close>

fun json_txn :: "json \<Rightarrow> txnid option option" where
  "json_txn JNull = Some None"
| "json_txn (JArr js) =
     map_option (\<lambda>bs. Some (txn_of_bytes (bs @ replicate (16 - length bs) 0))) (those (map json_u8 (take 16 js)))"
| "json_txn _ = None"

definition metadata_field :: "bytes \<Rightarrow> json \<Rightarrow> mvccMetadata \<Rightarrow> mvccMetadata option" where
  "metadata_field k j m =
     (if field_is ''ts'' k then
        map_option (\<lambda>t. m\<lparr>m_Timestamp := t\<rparr>) (decode_struct ts_field j (m_Timestamp m))
      else if field_is ''del'' k then map_option (\<lambda>b. m\<lparr>m_Deleted := b\<rparr>) (json_bool (m_Deleted m) j)
      else if field_is ''txn'' k then map_option (\<lambda>t. m\<lparr>m_Txn := t\<rparr>) (json_txn j)
      else if field_is ''txn_ts'' k then
        map_option (\<lambda>t. m\<lparr>m_TxnTimestamp := t\<rparr>) (decode_struct ts_field j (m_TxnTimestamp m))
      else if field_is ''kb'' k then map_option (\<lambda>n. m\<lparr>m_KeyBytes := n\<rparr>) (json_i64 (m_KeyBytes m) j)
      else if field_is ''vb'' k then map_option (\<lambda>n. m\<lparr>m_ValBytes := n\<rparr>) (json_i64 (m_ValBytes m) j)
      else if field_is ''inline'' k then map_option (\<lambda>v. m\<lparr>m_InlineValue := v\<rparr>) (json_bytes j)
      else Some m)"

definition DecodeMetadata :: "bytes \<Rightarrow> mvccMetadata result" where
  "DecodeMetadata data =
     (case json_parse data of
        None \<Rightarrow> Inl (Msg ''mvcc metadata unmarshal'')
      | Some j \<Rightarrow>
          (case decode_struct metadata_field j zeroMetadata of
             None \<Rightarrow> Inl (Msg ''mvcc metadata unmarshal'')
           | Some m \<Rightarrow> Inr m))"

section \<open>The metadata round trip\<close>

lemma those_Some: "(\<And>x. x \<in> set xs \<Longrightarrow> f x = Some (g x)) \<Longrightarrow> those (map f xs) = Some (map g xs)"
  by (induction xs) auto

lemma json_i64_sint [simp]: "json_i64 old (JNum (sint n)) = Some n"
  using sint_i64_bounds [of n] by simp

lemma json_i32_sint [simp]: "json_i32 old (JNum (sint n)) = Some n"
  using sint_i32_bounds [of n] by simp

declare json_i64.simps(2) [simp del] json_i32.simps(2) [simp del]

lemma decode_ts_json [simp]: "decode_struct ts_field (ts_json t) u = Some t"
  by (simp add: decode_struct_def ts_json_def ts_field_def field_is_def lower_def)

lemma txn_of_bytes_txn_bytes [simp]: "txn_of_bytes (txn_bytes t) = t"
proof -
  have "unat t < 256 ^ 16" using unsigned_less [of t] by simp
  then show ?thesis by (simp add: txn_of_bytes_def txn_bytes_def be_val_be_bytes)
qed

lemma length_txn_bytes [simp]: "length (txn_bytes t) = 16"
  by (simp add: txn_bytes_def)

lemma json_txn_bytes [simp]: "json_txn (JArr (map (\<lambda>b. JNum (uint b)) (txn_bytes t))) = Some (Some t)"
proof -
  have "json_u8 (JNum (uint b)) = Some b" for b
    using uint_lt2p [of b] by simp
  then have "those (map json_u8 (map (\<lambda>b. JNum (uint b)) (txn_bytes t))) = Some (txn_bytes t)"
    using those_Some [of "txn_bytes t" "\<lambda>b. json_u8 (JNum (uint b))" id] by (simp add: comp_def)
  then show ?thesis by (simp del: map_map)
qed

declare json_txn.simps(2) [simp del]

definition norm_inline :: "mvccMetadata \<Rightarrow> mvccMetadata" where
  "norm_inline m = (if m_InlineValue m = Some [] then m\<lparr>m_InlineValue := None\<rparr> else m)"

lemma decode_members_append:
  "decode_members f (xs @ ys) m = (case decode_members f xs m of None \<Rightarrow> None | Some m' \<Rightarrow> decode_members f ys m')"
  by (induction f xs m rule: decode_members.induct) (auto split: option.split)

lemma metadata_field_simps [simp]:
  "metadata_field (ascii ''ts'') (ts_json t) m = Some (m\<lparr>m_Timestamp := t\<rparr>)"
  "metadata_field (ascii ''del'') (JBool b) m = Some (m\<lparr>m_Deleted := b\<rparr>)"
  "metadata_field (ascii ''txn'') j m = map_option (\<lambda>t. m\<lparr>m_Txn := t\<rparr>) (json_txn j)"
  "metadata_field (ascii ''txn_ts'') (ts_json t) m = Some (m\<lparr>m_TxnTimestamp := t\<rparr>)"
  "metadata_field (ascii ''kb'') (int_json n) m = Some (m\<lparr>m_KeyBytes := n\<rparr>)"
  "metadata_field (ascii ''vb'') (int_json n) m = Some (m\<lparr>m_ValBytes := n\<rparr>)"
  "metadata_field (ascii ''inline'') (JStr s) m = map_option (\<lambda>v. m\<lparr>m_InlineValue := Some v\<rparr>) (base64_decode s)"
  by (simp_all add: metadata_field_def field_is_def lower_def int_json_def option.map_comp comp_def)

lemma decode_metadata_json: "decode_struct metadata_field (metadata_json m) zeroMetadata = Some (norm_inline m)"
proof -
  obtain ts d x tt kb vb inl where m: "m = \<lparr>m_Timestamp = ts, m_Deleted = d, m_Txn = x, m_TxnTimestamp = tt,
    m_KeyBytes = kb, m_ValBytes = vb, m_InlineValue = inl\<rparr>" by (cases m)
  show ?thesis
    unfolding m metadata_json_def decode_struct_def json.case decode_members_append
    by (cases x; cases inl)
      (simp_all add: zeroMetadata_def norm_inline_def base64_decode_encode del: ascii_simps)
qed

lemma metadata_json_ok: "json_ok (metadata_json m)"
  by (auto simp: metadata_json_def ts_json_def int_json_def split: option.split)

lemma DecodeMetadata_Encode [codec_simps]: "DecodeMetadata (metadata_Encode m) = Inr (norm_inline m)"
  by (simp add: DecodeMetadata_def metadata_Encode_def json_parse_print metadata_json_ok decode_metadata_json)

section \<open>Newer versions sort first\<close>

lemma unat_not_byte: "unat (NOT a :: byte) = 255 - unat a"
proof -
  have "NOT a = - 1 - a" by (simp add: not_eq_complement)
  moreover have "unat (- 1 - a) = unat (- 1 :: byte) - unat a" by (rule unat_sub) simp
  moreover have "unat (- 1 :: byte) = 255" by (simp add: unsigned_minus_1_eq_mask mask_eq_exp_minus_1)
  ultimately show ?thesis by simp
qed

lemma not_byte_less: "(NOT a :: byte) < NOT b \<longleftrightarrow> b < a"
  using unat_byte_le [of a] unat_byte_le [of b] by (auto simp: word_less_nat_alt unat_not_byte)

lemma map_not_less:
  "length xs = length ys \<Longrightarrow> map (\<lambda>b. NOT b :: byte) xs < map (\<lambda>b. NOT b) ys \<longleftrightarrow> ys < xs"
  by (induction xs ys rule: list_induct2) (auto simp: not_byte_less)

lemma length_encodeTimestampDesc [simp]: "length (encodeTimestampDesc ts) = 12"
  by (simp add: encodeTimestampDesc_def)

lemma decode_encodeTimestampDesc [simp]: "decodeTimestampDesc (encodeTimestampDesc ts) = ts"
proof -
  have "(of_nat (be_val (be_bytes 8 (unat (WallTime ts)))) :: i64) = WallTime ts"
    using unat_u64_less [of "WallTime ts"] by (simp add: be_val_be_bytes)
  moreover have "(of_nat (be_val (be_bytes 4 (unat (Logical ts)))) :: i32) = Logical ts"
    using unat_u32_less [of "Logical ts"] by (simp add: be_val_be_bytes)
  ultimately show ?thesis
    by (simp add: encodeTimestampDesc_def decodeTimestampDesc_def Let_def comp_def bit.double_compl)
qed

lemma be_bytes_less:
  assumes "x < 256 ^ n" and "y < 256 ^ n"
  shows "be_bytes n x < be_bytes n y \<longleftrightarrow> x < y"
  using assms by (simp add: be_val_less_iff be_val_be_bytes)

lemma unat_nonneg:
  assumes "0 \<le> sint (w :: 'a::len word)"
  shows "int (unat w) = sint w"
proof -
  have "(2 :: int) ^ (LENGTH('a) - Suc 0) \<le> 2 ^ LENGTH('a)" by (rule power_increasing) simp_all
  then have "sint w < 2 ^ LENGTH('a)" using sint_less [of w] by linarith
  then have "uint w = sint w" using assms by (simp add: uint_sint take_bit_int_eq_self)
  then show ?thesis by simp
qed

lemma encodeTimestampDesc_less:
  assumes "ts_ok t" and "ts_ok u"
  shows "encodeTimestampDesc t < encodeTimestampDesc u \<longleftrightarrow> u < t"
proof -
  have w: "be_bytes 8 (unat (WallTime a)) < be_bytes 8 (unat (WallTime b)) \<longleftrightarrow> sint (WallTime a) < sint (WallTime b)"
    if "ts_ok a" "ts_ok b" for a b
    using that unat_u64_less [of "WallTime a"] unat_u64_less [of "WallTime b"] unat_nonneg [of "WallTime a"]
      unat_nonneg [of "WallTime b"] by (simp add: be_bytes_less ts_ok_def flip: of_nat_less_iff [where ?'a = int])
  have l: "be_bytes 4 (unat (Logical a)) < be_bytes 4 (unat (Logical b)) \<longleftrightarrow> sint (Logical a) < sint (Logical b)"
    if "ts_ok a" "ts_ok b" for a b
    using that unat_u32_less [of "Logical a"] unat_u32_less [of "Logical b"] unat_nonneg [of "Logical a"]
      unat_nonneg [of "Logical b"] by (simp add: be_bytes_less ts_ok_def flip: of_nat_less_iff [where ?'a = int])
  have eq: "map (\<lambda>b. NOT b) (be_bytes 8 (unat (WallTime t))) = map (\<lambda>b. NOT b) (be_bytes 8 (unat (WallTime u)))
      \<longleftrightarrow> sint (WallTime t) = sint (WallTime u)"
    using map_not_less [of "be_bytes 8 (unat (WallTime t))" "be_bytes 8 (unat (WallTime u))"]
      map_not_less [of "be_bytes 8 (unat (WallTime u))" "be_bytes 8 (unat (WallTime t))"] w assms
    by (metis length_be_bytes less_irrefl not_less_iff_gr_or_eq)
  show ?thesis
    unfolding encodeTimestampDesc_def ts_less_alt using w l assms eq
    by (subst list_less_append_iff) (auto simp: map_not_less)
qed

section \<open>Decoding\<close>

text \<open>A raw key whose metadata entry is not mistaken for a version.\<close>

definition key_ok :: "bytes \<Rightarrow> bool" where
  "key_ok k \<longleftrightarrow> \<not> (12 \<le> length k \<and> k ! (length k - 12) = 0)"

lemma enc_zero [simp]: "enc k ts_zero = EncodeMeta k"
  by (simp add: mvcc_Encode_def)

lemma enc_version: "ts \<noteq> ts_zero \<Longrightarrow> enc k ts = EncodeMeta k @ encodeTimestampDesc ts"
  by (simp add: mvcc_Encode_def EncodeMeta_def)

lemma Decode_enc [codec_simps]:
  "ts \<noteq> ts_zero \<Longrightarrow> mvcc_Decode (enc k ts) = Inr (\<lparr>mk_Key = k, mk_Timestamp = ts\<rparr>, True)"
  by (simp add: enc_version EncodeMeta_def mvcc_Decode_def Let_def nth_append)

lemma Decode_meta [codec_simps]:
  "key_ok k \<Longrightarrow> mvcc_Decode (EncodeMeta k) = Inr (\<lparr>mk_Key = k, mk_Timestamp = ts_zero\<rparr>, False)"
  by (auto simp: EncodeMeta_def mvcc_Decode_def Let_def key_ok_def nth_append)

lemma Decode_version_prefix:
  assumes "mvcc_Decode x = Inr (mk, True)"
  shows "\<exists>s. x = EncodeMeta (mk_Key mk) @ s \<and> length s = 12 \<and> mk_Timestamp mk = decodeTimestampDesc s"
proof -
  let ?i = "length x - 12 - 1"
  have x: "length x > 12" "x ! ?i = 0" "mk = \<lparr>mk_Key = take ?i x, mk_Timestamp = decodeTimestampDesc (drop (?i + 1) x)\<rparr>"
    using assms by (auto simp: mvcc_Decode_def Let_def split: if_splits)
  then have "x = take ?i x @ x ! ?i # drop (Suc ?i) x" by (intro id_take_nth_drop) simp
  then show ?thesis using x by (intro exI [of _ "drop (?i + 1) x"]) (simp add: EncodeMeta_def)
qed

lemma encodeTimestampDesc_inj: "encodeTimestampDesc t = encodeTimestampDesc u \<Longrightarrow> t = u"
  by (metis decode_encodeTimestampDesc)

lemma enc_inj: "enc k t = enc k u \<longleftrightarrow> t = u"
proof (cases "t = ts_zero \<or> u = ts_zero")
  case True
  then show ?thesis by (cases "t = ts_zero"; cases "u = ts_zero") (auto simp: enc_version dest: arg_cong [of _ _ length])
next
  case False
  then show ?thesis using encodeTimestampDesc_inj by (auto simp: enc_version)
qed

lemma enc_neq_meta [simp]: "ts \<noteq> ts_zero \<Longrightarrow> enc k ts \<noteq> EncodeMeta k"
  using enc_inj [of k ts ts_zero] by simp

lemma enc_less:
  assumes "ts_ok t" "ts_ok u" "t \<noteq> ts_zero" "u \<noteq> ts_zero"
  shows "enc k t < enc k u \<longleftrightarrow> u < t"
  using assms by (simp add: enc_version encodeTimestampDesc_less)

lemma less_append: "ys \<noteq> [] \<Longrightarrow> (xs :: 'a::linorder list) < xs @ ys"
  by (induction xs) (cases ys, auto)

section \<open>Properties\<close>

text \<open>(C26) Encoded keys decode to the key and timestamp they were made from, and among the
  entries of one raw key the metadata sorts first and newer versions sort before older ones.
\<close>

theorem mvcc_key_codec:
  assumes "key_ok k" "ts_ok t" "ts_ok u" "t \<noteq> ts_zero" "u \<noteq> ts_zero"
  shows "mvcc_Decode (EncodeMeta k) = Inr (\<lparr>mk_Key = k, mk_Timestamp = ts_zero\<rparr>, False) \<and>
    mvcc_Decode (enc k t) = Inr (\<lparr>mk_Key = k, mk_Timestamp = t\<rparr>, True) \<and>
    EncodeMeta k < enc k t \<and> (enc k t < enc k u \<longleftrightarrow> u < t)"
proof -
  have "encodeTimestampDesc t \<noteq> []" using length_encodeTimestampDesc [of t] by force
  then have "EncodeMeta k < enc k t" using assms by (simp add: enc_version less_append)
  then show ?thesis using assms by (simp add: Decode_meta Decode_enc enc_less)
qed

theorem mvcc_key_codec_witness:
  "mvcc_Decode (EncodeMeta [1]) = Inr (\<lparr>mk_Key = [1], mk_Timestamp = ts_zero\<rparr>, False) \<and>
   \<not> enc [1] (Timestamp 1 0) < enc [1] (Timestamp 2 0)"
  using mvcc_key_codec [of "[1]" "Timestamp 1 0" "Timestamp 2 0"]
  by (simp add: key_ok_def ts_ok_def) (simp add: less_timestamp_def ts_Less_def del: ts_Less_eq_less)

text \<open>(C37) The metadata entry of a raw key whose twelfth byte from the end is zero decodes as a
  version of a shorter key, so a scan takes it for a version and skips the key.
\<close>

theorem metadata_of_key_with_zero_is_misread:
  assumes "length q = 11"
  shows "mvcc_Decode (EncodeMeta (p @ [0] @ q)) = Inr (\<lparr>mk_Key = p, mk_Timestamp = decodeTimestampDesc (q @ [0])\<rparr>, True)"
  using assms by (simp add: EncodeMeta_def mvcc_Decode_def Let_def nth_append)

theorem metadata_of_key_with_zero_is_misread_witness:
  "\<exists>t. mvcc_Decode (EncodeMeta ([7] @ [0] @ replicate 11 5)) = Inr (\<lparr>mk_Key = [7], mk_Timestamp = t\<rparr>, True)"
  using metadata_of_key_with_zero_is_misread [of "replicate 11 5" "[7]"] by simp

text \<open>(C29) Metadata read back from its JSON form is the metadata written, except that an empty
  inline value comes back as no inline value.
\<close>

theorem metadata_round_trip:
  "DecodeMetadata (metadata_Encode m) =
     Inr (if m_InlineValue m = Some [] then m\<lparr>m_InlineValue := None\<rparr> else m)"
  by (simp add: DecodeMetadata_Encode norm_inline_def)

end
