(* ===== verification/Lsm_MemTable.thy ===== *)
theory Lsm_MemTable
  imports Storage
begin

text \<open>
  The skip list behind the write path (\<open>internal/storage/lsm/memtable.go\<close>). Nodes live
  in an explicit store (a list indexed by address, the head at address 0), and the
  operations follow and rewire the forward pointers of every level as the code does.
  A result \<open>None\<close> stands for a panic or a loop that never returns; the coin flips of
  \<open>randomLevel\<close> are an argument. \<open>mt_rel m xs\<close> says that the level-0 chain of \<open>m\<close> visits the
  addresses \<open>xs\<close>, in strictly increasing key order, and that every other level is the
  sublist of the nodes tall enough for it. The main results: \<open>Put\<close>, \<open>Delete\<close> and
  \<open>Get\<close> return, keep that invariant, and act as update and lookup of a finite map.
\<close>

abbreviation maxMemTableLevel :: nat where "maxMemTableLevel \<equiv> 16"

section \<open>The data structure\<close>

record memNode =
  mn_key :: bytes
  mn_value :: bytes
  mn_tombstone :: bool
  mn_backward :: "nat option"
  mn_levels :: "nat option list"

record memTable =
  mt_nodes :: "memNode list"
  mt_tail :: "nat option"
  mt_level :: nat
  mt_length :: nat
  mt_size :: int
  mt_frozen :: bool

definition newMemNode :: "nat \<Rightarrow> bytes \<Rightarrow> bytes \<Rightarrow> bool \<Rightarrow> memNode" where
  "newMemNode level key value tombstone =
     \<lparr>mn_key = key, mn_value = value, mn_tombstone = tombstone, mn_backward = None,
      mn_levels = replicate level None\<rparr>"

definition NewMemTable :: memTable where
  "NewMemTable =
     \<lparr>mt_nodes = [newMemNode maxMemTableLevel [] [] False], mt_tail = None, mt_level = 1,
      mt_length = 0, mt_size = 0, mt_frozen = False\<rparr>"

text \<open>\<open>randomLevel\<close> on the list of its coin flips.\<close>

fun randomLevel_from :: "nat \<Rightarrow> bool list \<Rightarrow> nat" where
  "randomLevel_from level (True # coins) =
     (if level < maxMemTableLevel then randomLevel_from (Suc level) coins else level)"
| "randomLevel_from level _ = level"

definition randomLevel :: "bool list \<Rightarrow> nat" where
  "randomLevel coins = randomLevel_from 1 coins"

definition fwd :: "memNode list \<Rightarrow> nat \<Rightarrow> nat \<Rightarrow> nat option" where
  "fwd h a l = mn_levels (h ! a) ! l"

definition set_fwd :: "memNode list \<Rightarrow> nat \<Rightarrow> nat \<Rightarrow> nat option \<Rightarrow> memNode list" where
  "set_fwd h a l v = h[a := (h ! a)\<lparr>mn_levels := (mn_levels (h ! a))[l := v]\<rparr>]"

text \<open>The inner loop of \<open>findPath\<close> and \<open>seekNode\<close>: along one level while the next key is below.\<close>

partial_function (option) mt_walk :: "memNode list \<Rightarrow> bytes \<Rightarrow> nat \<Rightarrow> nat \<Rightarrow> nat option" where
  "mt_walk h key l x =
     (case fwd h x l of
        None \<Rightarrow> Some x
      | Some y \<Rightarrow> if mn_key (h ! y) < key then mt_walk h key l y else Some x)"

fun mt_descend :: "memNode list \<Rightarrow> bytes \<Rightarrow> nat \<Rightarrow> nat \<Rightarrow> nat option list \<Rightarrow> (nat \<times> nat option list) option" where
  "mt_descend h key 0 x update = Some (x, update)"
| "mt_descend h key (Suc l) x update =
     (case mt_walk h key l x of
        None \<Rightarrow> None
      | Some x' \<Rightarrow> mt_descend h key l x' (update[l := Some x']))"

definition findPath :: "memTable \<Rightarrow> bytes \<Rightarrow> (nat option list \<times> nat option) option" where
  "findPath m key =
     (case mt_descend (mt_nodes m) key (mt_level m) 0 (replicate maxMemTableLevel None) of
        None \<Rightarrow> None
      | Some (x, update) \<Rightarrow>
          (case fwd (mt_nodes m) x 0 of
             None \<Rightarrow> Some (update, None)
           | Some nxt \<Rightarrow>
               if mn_key (mt_nodes m ! nxt) = key then Some (update, Some nxt)
               else Some (update, None)))"

text \<open>\<open>insertNode\<close>: the forward pointers level by level, then the backward pointers and the tail.\<close>

fun mt_wire :: "nat \<Rightarrow> nat option list \<Rightarrow> nat list \<Rightarrow> memNode list \<Rightarrow> memNode list option" where
  "mt_wire n update [] h = Some h"
| "mt_wire n update (l # ls) h =
     (case update ! l of
        None \<Rightarrow> None
      | Some p \<Rightarrow> mt_wire n update ls (set_fwd (set_fwd h n l (fwd h p l)) p l (Some n)))"

definition extend_update :: "nat \<Rightarrow> nat \<Rightarrow> nat option list \<Rightarrow> nat option list" where
  "extend_update level nodeLevel update =
     fold (\<lambda>l u. u[l := Some 0]) [level..<nodeLevel] update"

definition insertNode :: "memTable \<Rightarrow> memNode \<Rightarrow> nat option list \<Rightarrow> memTable option" where
  "insertNode m node update =
     (let nodeLevel = length (mn_levels node);
          n = length (mt_nodes m);
          update' = (if nodeLevel > mt_level m then extend_update (mt_level m) nodeLevel update else update);
          level' = (if nodeLevel > mt_level m then nodeLevel else mt_level m)
      in case mt_wire n update' [0..<nodeLevel] (mt_nodes m @ [node]) of
           None \<Rightarrow> None
         | Some h \<Rightarrow>
             (let back = (if update' ! 0 = Some 0 then None else update' ! 0);
                  h1 = h[n := (h ! n)\<lparr>mn_backward := back\<rparr>];
                  (h2, tail') = (case fwd h1 n 0 of
                                   Some s \<Rightarrow> (h1[s := (h1 ! s)\<lparr>mn_backward := Some n\<rparr>], mt_tail m)
                                 | None \<Rightarrow> (h1, Some n));
                  tail'' = (if tail' = None then Some n else tail')
              in Some (m\<lparr>mt_nodes := h2, mt_tail := tail'', mt_level := level',
                        mt_length := mt_length m + 1\<rparr>)))"

definition mt_Put :: "memTable \<Rightarrow> nat \<Rightarrow> bytes \<Rightarrow> bytes \<Rightarrow> memTable option" where
  "mt_Put m lvl key value =
     (if mt_frozen m then None
      else case findPath m key of
        None \<Rightarrow> None
      | Some (update, Some found) \<Rightarrow>
          (let nd = mt_nodes m ! found;
               oldValueLen = length (mn_value nd);
               wasTombstone = mn_tombstone nd;
               m1 = m\<lparr>mt_nodes := (mt_nodes m)[found := nd\<lparr>mn_value := value, mn_tombstone := False\<rparr>],
                      mt_size := mt_size m + (int (length value) - int oldValueLen)\<rparr>
           in Some (if wasTombstone then m1\<lparr>mt_size := mt_size m1 + int (length key)\<rparr> else m1))
      | Some (update, None) \<Rightarrow>
          map_option (\<lambda>m1. m1\<lparr>mt_size := mt_size m1 + (int (length key) + int (length value))\<rparr>)
            (insertNode m (newMemNode lvl key value False) update))"

text \<open>\<open>Get\<close> returns the value, whether the key was found, and whether it is a tombstone.\<close>

definition mt_Get :: "memTable \<Rightarrow> bytes \<Rightarrow> (bytes \<times> bool \<times> bool) option" where
  "mt_Get m key =
     (case findPath m key of
        None \<Rightarrow> None
      | Some (update, None) \<Rightarrow> Some ([], False, False)
      | Some (update, Some found) \<Rightarrow>
          if mn_tombstone (mt_nodes m ! found) then Some ([], True, True)
          else Some (mn_value (mt_nodes m ! found), True, False))"

definition mt_Delete :: "memTable \<Rightarrow> nat \<Rightarrow> bytes \<Rightarrow> memTable option" where
  "mt_Delete m lvl key =
     (if mt_frozen m then None
      else case findPath m key of
        None \<Rightarrow> None
      | Some (update, Some found) \<Rightarrow>
          (let nd = mt_nodes m ! found
           in if mn_tombstone nd then Some m
              else Some (m\<lparr>mt_size := mt_size m - int (length (mn_value nd)),
                           mt_nodes := (mt_nodes m)[found := nd\<lparr>mn_value := [], mn_tombstone := True\<rparr>]\<rparr>))
      | Some (update, None) \<Rightarrow>
          map_option (\<lambda>m1. m1\<lparr>mt_size := mt_size m1 + int (length key)\<rparr>)
            (insertNode m (newMemNode lvl key [] True) update))"

definition mt_Freeze :: "memTable \<Rightarrow> memTable" where
  "mt_Freeze m = m\<lparr>mt_frozen := True\<rparr>"

definition mt_seekNode :: "memTable \<Rightarrow> bytes \<Rightarrow> nat option option" where
  "mt_seekNode m key =
     (case mt_descend (mt_nodes m) key (mt_level m) 0 (replicate maxMemTableLevel None) of
        None \<Rightarrow> None
      | Some (x, _) \<Rightarrow> Some (fwd (mt_nodes m) x 0))"

text \<open>\<open>Snapshot\<close>: the level-0 chain copied in order.\<close>

record memEntry =
  me_key :: bytes
  me_value :: bytes
  me_tombstone :: bool

definition node_entry :: "memNode \<Rightarrow> memEntry" where
  "node_entry nd = \<lparr>me_key = mn_key nd, me_value = mn_value nd, me_tombstone = mn_tombstone nd\<rparr>"

partial_function (option) mt_collect :: "memNode list \<Rightarrow> nat option \<Rightarrow> memEntry list \<Rightarrow> memEntry list option" where
  "mt_collect h x es =
     (case x of
        None \<Rightarrow> Some es
      | Some a \<Rightarrow> mt_collect h (fwd h a 0) (es @ [node_entry (h ! a)]))"

definition mt_Snapshot :: "memTable \<Rightarrow> memEntry list option" where
  "mt_Snapshot m = mt_collect (mt_nodes m) (fwd (mt_nodes m) 0 0) []"

section \<open>The invariant\<close>

definition hgt :: "memNode list \<Rightarrow> nat \<Rightarrow> nat" where
  "hgt h a = length (mn_levels (h ! a))"

definition key_at :: "memNode list \<Rightarrow> nat \<Rightarrow> bytes" where
  "key_at h a = mn_key (h ! a)"

definition nxt :: "memNode list \<Rightarrow> nat \<Rightarrow> nat list \<Rightarrow> nat option" where
  "nxt h l zs = find (\<lambda>a. l < hgt h a) zs"

text \<open>The chain part: level \<open>l\<close> links the nodes of \<open>xs\<close> that are taller than \<open>l\<close>.\<close>

definition chain :: "memNode list \<Rightarrow> nat list \<Rightarrow> bool" where
  "chain h xs \<longleftrightarrow>
     h \<noteq> [] \<and> distinct (0 # xs) \<and> (\<forall>a \<in> set xs. a < length h \<and> 0 < hgt h a) \<and>
     hgt h 0 = maxMemTableLevel \<and> sorted_wrt (<) (map (key_at h) xs) \<and>
     (\<forall>ys x zs l. 0 # xs = ys @ x # zs \<longrightarrow> l < hgt h x \<longrightarrow> fwd h x l = nxt h l zs)"

definition mt_rel :: "memTable \<Rightarrow> nat list \<Rightarrow> bool" where
  "mt_rel m xs \<longleftrightarrow>
     chain (mt_nodes m) xs \<and> 1 \<le> mt_level m \<and> mt_level m \<le> maxMemTableLevel \<and>
     (\<forall>a \<in> set xs. hgt (mt_nodes m) a \<le> mt_level m) \<and>
     (\<forall>a \<in> set xs. mn_tombstone (mt_nodes m ! a) \<longrightarrow> mn_value (mt_nodes m ! a) = []) \<and>
     (\<forall>ys x zs. xs = ys @ x # zs \<longrightarrow>
        mn_backward (mt_nodes m ! x) = (if ys = [] then None else Some (last ys))) \<and>
     mt_tail m = (if xs = [] then None else Some (last xs)) \<and>
     mt_length m = length xs"

lemma chain_fwd: "chain h xs \<Longrightarrow> 0 # xs = ys @ x # zs \<Longrightarrow> l < hgt h x \<Longrightarrow> fwd h x l = nxt h l zs"
  unfolding chain_def by blast

section \<open>Searching\<close>

definition pred_at :: "memNode list \<Rightarrow> nat list \<Rightarrow> nat \<Rightarrow> nat" where
  "pred_at h pre l = last (filter (\<lambda>a. l < hgt h a) (0 # pre))"

lemma pred_at_split:
  "0 # pre = ys @ x # zs \<Longrightarrow> l < hgt h x \<Longrightarrow>
   pred_at h pre l = last (x # filter (\<lambda>a. l < hgt h a) zs)"
  unfolding pred_at_def by (simp only: filter_append filter.simps if_True last_append list.simps) simp

lemma find_append: "find P (xs @ ys) = (case find P xs of None \<Rightarrow> find P ys | Some x \<Rightarrow> Some x)"
  by (induction xs) auto

lemma find_none: "\<forall>a \<in> set us. \<not> P a \<Longrightarrow> find P us = None"
  by (simp add: find_None_iff)

lemma mt_walk_pred:
  assumes "chain h (pre @ post)" and "\<forall>a \<in> set pre. key_at h a < k"
    and "\<forall>a \<in> set post. \<not> key_at h a < k"
  shows "0 # pre = ys @ x # zs \<Longrightarrow> l < hgt h x \<Longrightarrow>
    mt_walk h k l x = Some (last (x # filter (\<lambda>a. l < hgt h a) zs))"
proof (induction "length zs" arbitrary: ys x zs rule: less_induct)
  case less
  let ?P = "\<lambda>a. l < hgt h a"
  have f: "fwd h x l = nxt h l (zs @ post)"
    using chain_fwd [OF assms(1), of ys x "zs @ post" l] less.prems by simp
  show ?case
  proof (cases "\<exists>a \<in> set zs. ?P a")
    case False
    then have none: "find ?P zs = None" and nil: "filter ?P zs = []"
      by (simp_all add: find_none)
    have fp: "fwd h x l = find ?P post" using f none by (simp add: nxt_def find_append)
    show ?thesis
    proof (cases "find ?P post")
      case None
      then show ?thesis using fp nil by (subst mt_walk.simps) simp
    next
      case (Some y)
      then have "y \<in> set post" by (auto simp: find_Some_iff)
      then have "\<not> mn_key (h ! y) < k" using assms(3) by (simp add: key_at_def)
      then show ?thesis using fp Some nil by (subst mt_walk.simps) simp
    qed
  next
    case True
    from split_list_first_propE [OF this]
    obtain us y vs where zs: "zs = us @ y # vs" and y: "?P y" and us: "\<forall>a \<in> set us. \<not> ?P a"
      by blast
    have fy: "fwd h x l = Some y" using f zs y us by (simp add: nxt_def find_append find_none)
    have "y \<in> set (0 # pre)" using less.prems(1) zs by simp
    moreover have "y \<noteq> 0"
      using less.prems(1) zs assms(1) unfolding chain_def by (cases ys) auto
    ultimately have "mn_key (h ! y) < k" using assms(2) by (simp add: key_at_def)
    moreover have "mt_walk h k l y = Some (last (y # filter ?P vs))"
      by (rule less.hyps [of vs "ys @ x # us"]) (use less.prems zs y in simp_all)
    ultimately show ?thesis using fy zs us y by (subst mt_walk.simps) simp
  qed
qed

lemma last_filter_in: "x \<in> set xs \<Longrightarrow> P x \<Longrightarrow> last (filter P xs) \<in> set xs \<and> P (last (filter P xs))"
  using last_in_set [of "filter P xs"] by (auto simp: filter_empty_conv)

lemma pred_at_in:
  assumes "hgt h 0 = maxMemTableLevel" and "l < maxMemTableLevel"
  shows "pred_at h pre l \<in> set (0 # pre)" and "l < hgt h (pred_at h pre l)"
  using last_filter_in [of 0 "0 # pre" "\<lambda>a. l < hgt h a"] assms unfolding pred_at_def by auto

lemma mt_descend_pred:
  assumes "chain h (pre @ post)" and "\<forall>a \<in> set pre. key_at h a < k"
    and "\<forall>a \<in> set post. \<not> key_at h a < k"
  shows "x \<in> set (0 # pre) \<Longrightarrow> l \<le> hgt h x \<Longrightarrow> l \<le> maxMemTableLevel \<Longrightarrow> length upd = maxMemTableLevel \<Longrightarrow>
    \<exists>upd'. mt_descend h k l x upd = Some (if l = 0 then x else pred_at h pre 0, upd') \<and>
      length upd' = maxMemTableLevel \<and> (\<forall>j < l. upd' ! j = Some (pred_at h pre j)) \<and>
      (\<forall>j \<ge> l. upd' ! j = upd ! j)"
proof (induction l arbitrary: x upd)
  case 0
  then show ?case by simp
next
  case (Suc l)
  obtain ys zs where sp: "0 # pre = ys @ x # zs" using Suc.prems(1) by (meson split_list)
  have lx: "l < hgt h x" using Suc.prems(2) by simp
  have walk: "mt_walk h k l x = Some (pred_at h pre l)"
    using mt_walk_pred [OF assms sp lx] pred_at_split [OF sp lx] by simp
  have h0: "hgt h 0 = maxMemTableLevel" using assms(1) by (simp add: chain_def)
  have lm: "l < maxMemTableLevel" using Suc.prems(3) by simp
  note p = pred_at_in [OF h0 lm, of pre]
  obtain upd' where u: "mt_descend h k l (pred_at h pre l) (upd[l := Some (pred_at h pre l)]) =
        Some (if l = 0 then pred_at h pre l else pred_at h pre 0, upd')"
      "length upd' = maxMemTableLevel" "\<forall>j < l. upd' ! j = Some (pred_at h pre j)"
      "\<forall>j \<ge> l. upd' ! j = upd[l := Some (pred_at h pre l)] ! j"
    using Suc.IH [of "pred_at h pre l" "upd[l := Some (pred_at h pre l)]"] p lm Suc.prems(4) by auto
  have "upd' ! j = Some (pred_at h pre j)" if "j < Suc l" for j
    using that u(3,4) lm Suc.prems(4) by (cases "j = l") auto
  moreover have "upd' ! j = upd ! j" if "j \<ge> Suc l" for j
    using that u(4) by simp
  ultimately show ?case using walk u(1,2) by auto
qed

lemma pred_at_0:
  assumes "chain h (pre @ post)"
  shows "pred_at h pre 0 = last (0 # pre)"
proof -
  have "filter (\<lambda>a. 0 < hgt h a) (0 # pre) = 0 # pre"
    using assms unfolding chain_def by (intro filter_True) auto
  then show ?thesis by (simp add: pred_at_def)
qed

lemma nxt_0:
  assumes "chain h (pre @ post)"
  shows "nxt h 0 post = (case post of [] \<Rightarrow> None | a # _ \<Rightarrow> Some a)"
  using assms unfolding chain_def nxt_def by (cases post) auto

lemma fwd_last_0:
  assumes "chain h (pre @ post)"
  shows "fwd h (last (0 # pre)) 0 = (case post of [] \<Rightarrow> None | a # _ \<Rightarrow> Some a)"
proof -
  have sp: "0 # pre @ post = butlast (0 # pre) @ last (0 # pre) # post"
    using append_butlast_last_id [of "0 # pre"] by (metis append.assoc append_Cons append_Nil list.discI)
  have "0 < hgt h (last (0 # pre))"
    using assms last_in_set [of "0 # pre"] unfolding chain_def by auto
  then show ?thesis using chain_fwd [OF assms sp] nxt_0 [OF assms] by simp
qed

abbreviation below :: "memNode list \<Rightarrow> bytes \<Rightarrow> nat list \<Rightarrow> bool" where
  "below h k xs \<equiv> \<forall>a \<in> set xs. key_at h a < k"

abbreviation not_below :: "memNode list \<Rightarrow> bytes \<Rightarrow> nat list \<Rightarrow> bool" where
  "not_below h k xs \<equiv> \<forall>a \<in> set xs. \<not> key_at h a < k"

lemma findPath_spec:
  assumes "mt_rel m (pre @ post)" and "below (mt_nodes m) k pre" and "not_below (mt_nodes m) k post"
  shows "\<exists>upd. findPath m k =
      Some (upd, case post of [] \<Rightarrow> None | a # _ \<Rightarrow> if key_at (mt_nodes m) a = k then Some a else None) \<and>
    length upd = maxMemTableLevel \<and> (\<forall>j < mt_level m. upd ! j = Some (pred_at (mt_nodes m) pre j))"
proof -
  have ch: "chain (mt_nodes m) (pre @ post)" and lv: "1 \<le> mt_level m" "mt_level m \<le> maxMemTableLevel"
    using assms(1) by (simp_all add: mt_rel_def)
  have h0: "hgt (mt_nodes m) 0 = maxMemTableLevel" using ch by (simp add: chain_def)
  from mt_descend_pred [OF ch assms(2,3), of 0 "mt_level m" "replicate maxMemTableLevel None"]
  obtain upd where "mt_descend (mt_nodes m) k (mt_level m) 0 (replicate maxMemTableLevel None) =
      Some (pred_at (mt_nodes m) pre 0, upd)" "length upd = maxMemTableLevel"
      "\<forall>j < mt_level m. upd ! j = Some (pred_at (mt_nodes m) pre j)"
    using lv h0 by auto
  then show ?thesis
    using fwd_last_0 [OF ch] pred_at_0 [OF ch]
    by (cases post) (simp_all add: findPath_def key_at_def)
qed

section \<open>Inserting\<close>

definition same_data :: "memNode list \<Rightarrow> memNode list \<Rightarrow> bool" where
  "same_data h h' \<longleftrightarrow> length h' = length h \<and>
     (\<forall>a. mn_key (h' ! a) = mn_key (h ! a) \<and> mn_value (h' ! a) = mn_value (h ! a) \<and>
          mn_tombstone (h' ! a) = mn_tombstone (h ! a) \<and> hgt h' a = hgt h a)"

lemma same_data_refl [simp]: "same_data h h"
  by (simp add: same_data_def)

lemma same_data_trans: "same_data h h1 \<Longrightarrow> same_data h1 h2 \<Longrightarrow> same_data h h2"
  by (simp add: same_data_def)

lemma set_fwd_backward: "mn_backward (set_fwd h a l v ! b) = mn_backward (h ! b)"
  by (cases "a < length h") (auto simp: set_fwd_def nth_list_update list_update_beyond)

lemma set_fwd_same: "same_data h (set_fwd h a l v)"
proof (cases "a < length h")
  case True
  then show ?thesis
    unfolding same_data_def set_fwd_def hgt_def by (auto simp: nth_list_update)
next
  case False
  then show ?thesis by (simp add: set_fwd_def list_update_beyond)
qed

lemma fwd_set_fwd:
  "a < length h \<Longrightarrow> l < hgt h a \<Longrightarrow>
   fwd (set_fwd h a l v) b j = (if b = a \<and> j = l then v else fwd h b j)"
  by (auto simp: fwd_def set_fwd_def hgt_def nth_list_update)

lemma mt_wire_spec:
  assumes "distinct ls" and "n < length h"
    and "\<And>l. l \<in> set ls \<Longrightarrow> upd ! l = Some (pr l) \<and> pr l \<noteq> n \<and> pr l < length h \<and> l < hgt h (pr l) \<and> l < hgt h n"
  shows "\<exists>h'. mt_wire n upd ls h = Some h' \<and> same_data h h' \<and>
    (\<forall>a. mn_backward (h' ! a) = mn_backward (h ! a)) \<and>
    (\<forall>a l. fwd h' a l = (if l \<in> set ls \<and> a = n then fwd h (pr l) l
                       else if l \<in> set ls \<and> a = pr l then Some n else fwd h a l))"
  using assms
proof (induction ls arbitrary: h)
  case Nil
  then show ?case by simp
next
  case (Cons l ls)
  let ?p = "pr l"
  let ?g = "set_fwd h n l (fwd h ?p l)"
  let ?h1 = "set_fwd ?g ?p l (Some n)"
  have l: "upd ! l = Some ?p" "?p \<noteq> n" "?p < length h" "l < hgt h ?p" "l < hgt h n"
    using Cons.prems(3) [of l] by simp_all
  have sd: "same_data h ?h1" and sg: "same_data h ?g"
    using set_fwd_same same_data_trans by blast+
  then have len: "length ?h1 = length h" and hg: "\<And>a. hgt ?h1 a = hgt h a"
    by (simp_all only: same_data_def)
  have f1: "fwd ?h1 b j = (if b = ?p \<and> j = l then Some n else if b = n \<and> j = l then fwd h ?p l else fwd h b j)" for b j
  proof -
    have "fwd ?h1 b j = (if b = ?p \<and> j = l then Some n else fwd ?g b j)"
      by (rule fwd_set_fwd) (use l sg in \<open>simp_all add: same_data_def\<close>)
    then show ?thesis using fwd_set_fwd [OF Cons.prems(2) l(5)] by simp
  qed
  have "\<exists>h'. mt_wire n upd ls ?h1 = Some h' \<and> same_data ?h1 h' \<and>
    (\<forall>a. mn_backward (h' ! a) = mn_backward (?h1 ! a)) \<and>
    (\<forall>a l. fwd h' a l = (if l \<in> set ls \<and> a = n then fwd ?h1 (pr l) l
                       else if l \<in> set ls \<and> a = pr l then Some n else fwd ?h1 a l))"
    by (rule Cons.IH) (use Cons.prems len hg in auto)
  then obtain h' where h': "mt_wire n upd ls ?h1 = Some h'" "same_data ?h1 h'"
      "\<And>a. mn_backward (h' ! a) = mn_backward (?h1 ! a)"
      "\<And>a l. fwd h' a l = (if l \<in> set ls \<and> a = n then fwd ?h1 (pr l) l
                       else if l \<in> set ls \<and> a = pr l then Some n else fwd ?h1 a l)"
    by blast
  have "fwd h' a j = (if j \<in> set (l # ls) \<and> a = n then fwd h (pr j) j
                      else if j \<in> set (l # ls) \<and> a = pr j then Some n else fwd h a j)" for a j
    using Cons.prems(1) l(2) unfolding h'(4) f1 by auto
  moreover have "mt_wire n upd (l # ls) h = Some h'" using l(1) h'(1) by simp
  moreover have "same_data h h'" using sd h'(2) by (rule same_data_trans)
  ultimately show ?case using h'(3) by (auto simp: set_fwd_backward)
qed

lemma append_Cons_eq_split:
  "as @ n # bs = ys @ x # zs \<Longrightarrow>
     (\<exists>us. as = ys @ x # us \<and> zs = us @ n # bs) \<or> (ys = as \<and> x = n \<and> zs = bs) \<or>
     (\<exists>us. ys = as @ n # us \<and> bs = us @ x # zs)"
proof (induction as arbitrary: ys)
  case Nil
  then show ?case by (cases ys) simp_all
next
  case (Cons a as)
  show ?case
  proof (cases ys)
    case Nil
    then show ?thesis using Cons.prems by simp
  next
    case (Cons y ys')
    then show ?thesis using Cons.IH [of ys'] Cons.prems by simp
  qed
qed

lemma nxt_cong: "\<forall>a \<in> set zs. hgt h' a = hgt h a \<Longrightarrow> nxt h' l zs = nxt h l zs"
  unfolding nxt_def by (rule find_cong) simp_all

lemma nxt_append_none: "\<forall>a \<in> set us. \<not> l < hgt h a \<Longrightarrow> nxt h l (us @ zs) = nxt h l zs"
  by (simp add: nxt_def find_append find_none)

lemma nxt_append_some: "\<exists>a \<in> set us. l < hgt h a \<Longrightarrow> nxt h l (us @ zs) = nxt h l us"
  by (auto simp: nxt_def find_append find_None_iff split: option.split)

text \<open>The heap after \<open>insertNode\<close>, as far as the chain is concerned.\<close>

lemma chain_insert:
  assumes ch: "chain h (pre @ post)"
    and h': "length h' = Suc n" "n = length h"
    and hg: "\<And>a. a < n \<Longrightarrow> hgt h' a = hgt h a" "hgt h' n = lvl" "1 \<le> lvl" "lvl \<le> maxMemTableLevel"
    and ky: "\<And>a. a < n \<Longrightarrow> key_at h' a = key_at h a" "key_at h' n = k"
    and lo: "below h k pre" and hi: "\<forall>a \<in> set post. k < key_at h a"
    and fw: "\<And>a l. a < n \<Longrightarrow> fwd h' a l = (if l < lvl \<and> a = pred_at h pre l then Some n else fwd h a l)"
      "\<And>l. l < lvl \<Longrightarrow> fwd h' n l = fwd h (pred_at h pre l) l"
  shows "chain h' (pre @ n # post)"
proof -
  have lt: "a < n" if "a \<in> set (0 # pre @ post)" for a
    using ch that h' unfolding chain_def by auto
  have dist: "distinct (0 # pre @ post)" and h0: "hgt h 0 = maxMemTableLevel"
    using ch by (simp_all add: chain_def)
  have hge: "hgt h' a = hgt h a" if "a \<in> set (0 # pre @ post)" for a using lt [OF that] hg(1) by simp
  have kye: "key_at h' a = key_at h a" if "a \<in> set (0 # pre @ post)" for a using lt [OF that] ky(1) by simp
  have srt: "sorted_wrt (<) (map (key_at h') (pre @ n # post))"
  proof -
    have m: "map (key_at h') pre = map (key_at h) pre" "map (key_at h') post = map (key_at h) post"
      by (rule map_cong [OF refl], rule kye, simp)+
    have "sorted_wrt (<) (map (key_at h) pre @ map (key_at h) post)" using ch by (simp add: chain_def)
    then show ?thesis using lo hi unfolding map_append list.map m ky(2) by (auto simp: sorted_wrt_append)
  qed
  have links: "fwd h' x l = nxt h' l zs"
    if sp: "0 # pre @ n # post = ys @ x # zs" and lx: "l < hgt h' x" for ys x zs l
  proof -
    have "(0 # pre) @ n # post = ys @ x # zs" using sp by simp
    from append_Cons_eq_split [OF this]
    consider (pre) us where "0 # pre = ys @ x # us" "zs = us @ n # post"
      | (mid) "ys = 0 # pre" "x = n" "zs = post"
      | (post) us where "ys = (0 # pre) @ n # us" "post = us @ x # zs"
      by blast
    then show ?thesis
    proof cases
      case pre
      then have xin: "x \<in> set (0 # pre @ post)" by (metis Un_iff append_Cons in_set_conv_decomp set_append)
      have lx': "l < hgt h x" using lx hge [OF xin] by simp
      have old: "fwd h x l = nxt h l (us @ post)"
        by (rule chain_fwd [OF ch _ lx', of ys]) (use pre in simp)
      have us: "set us \<subseteq> set (0 # pre)" using pre(1) by (metis in_set_conv_decomp set_append set_subset_Cons subsetI sup.cobounded2 dual_order.trans)
      have n1: "nxt h' l us = nxt h l us" and n2: "nxt h' l post = nxt h l post"
        using us hge by (auto intro!: nxt_cong)
      have xn: "x \<noteq> n" using lt [OF xin] by simp
      have pd: "pred_at h pre l = last (x # filter (\<lambda>a. l < hgt h a) us)"
        by (rule pred_at_split [OF pre(1) lx'])
      show ?thesis
      proof (cases "\<exists>a \<in> set us. l < hgt h a")
        case True
        then have ne: "filter (\<lambda>a. l < hgt h a) us \<noteq> []" by (simp add: filter_empty_conv)
        then have "pred_at h pre l \<in> set us"
          using pd last_in_set [OF ne] by auto
        then have "x \<noteq> pred_at h pre l" using pre(1) dist by (metis distinct.simps(2) distinct_append append_Cons)
        moreover have "\<exists>a \<in> set us. l < hgt h' a" using True us hge by (metis Un_iff append_Cons set_append subsetD)
        ultimately show ?thesis
          using fw(1) [of x l] lt [OF xin] old pre(2) n1 nxt_append_some [OF True, of post] by (simp add: nxt_append_some)
      next
        case False
        then have pdx: "pred_at h pre l = x" using pd by (simp add: filter_False)
        have F': "\<forall>a \<in> set us. \<not> l < hgt h' a" using False us hge by (metis Un_iff append_Cons set_append subsetD)
        show ?thesis
        proof (cases "l < lvl")
          case True
          then have "nxt h' l zs = Some n" using pre(2) hg(2) nxt_append_none [OF F'] by (simp add: nxt_def)
          then show ?thesis using fw(1) [of x l] lt [OF xin] pdx True by simp
        next
          case ge: False
          have "nxt h' l zs = nxt h' l post" using pre(2) ge hg(2) nxt_append_none [OF F'] by (simp add: nxt_def)
          moreover have "nxt h l (us @ post) = nxt h l post" using False by (simp add: nxt_append_none)
          ultimately show ?thesis using fw(1) [of x l] lt [OF xin] ge old n2 by simp
        qed
      qed
    next
      case mid
      then have ll: "l < lvl" using lx hg(2) by simp
      then have lm: "l < maxMemTableLevel" using hg(4) by simp
      note p = pred_at_in [OF h0 lm, of pre]
      obtain vs us where sp': "0 # pre = vs @ pred_at h pre l # us" using p(1) by (meson split_list)
      have "last (pred_at h pre l # filter (\<lambda>a. l < hgt h a) us) = pred_at h pre l"
        using pred_at_split [OF sp' p(2)] by simp
      moreover have "pred_at h pre l \<notin> set us" using sp' dist by (metis append_Cons distinct.simps(2) distinct_append)
      ultimately have "filter (\<lambda>a. l < hgt h a) us = []"
        using last_in_set [of "filter (\<lambda>a. l < hgt h a) us"] by (auto split: if_splits)
      then have us: "\<forall>a \<in> set us. \<not> l < hgt h a" by (simp add: filter_empty_conv)
      have "fwd h (pred_at h pre l) l = nxt h l (us @ post)"
        by (rule chain_fwd [OF ch _ p(2), of vs]) (use sp' in simp)
      then have "fwd h (pred_at h pre l) l = nxt h l post" using us by (simp add: nxt_append_none)
      moreover have "nxt h' l post = nxt h l post" using hge by (intro nxt_cong) simp
      ultimately show ?thesis using fw(2) [of l] mid ll by simp
    next
      case post
      have xin: "x \<in> set (0 # pre @ post)" using post by simp
      have lx': "l < hgt h x" using lx hge [OF xin] by simp
      have old: "fwd h x l = nxt h l zs"
        by (rule chain_fwd [OF ch _ lx', of "0 # pre @ us"]) (use post in simp)
      have "x \<noteq> pred_at h pre l" if "l < lvl"
        using pred_at_in(1) [OF h0, of l pre] that hg(4) dist post(2) by auto
      moreover have "x \<noteq> n" using lt [OF xin] by simp
      moreover have "nxt h' l zs = nxt h l zs" using hge post(2) by (intro nxt_cong) simp
      ultimately show ?thesis using fw(1) [of x l] lt [OF xin] old by auto
    qed
  qed
  have "hgt h' 0 = maxMemTableLevel" using hge [of 0] h0 by simp
  moreover have "distinct (0 # pre @ n # post)" using dist lt by auto
  moreover have "\<forall>a \<in> set (pre @ n # post). a < length h' \<and> 0 < hgt h' a"
    using ch hge lt h'(1) hg(2,3) unfolding chain_def by (auto simp: less_Suc_eq)
  moreover have "h' \<noteq> []" using h'(1) by auto
  ultimately show ?thesis using srt links unfolding chain_def by blast
qed

lemma extend_update_spec:
  "length upd = maxMemTableLevel \<Longrightarrow> nl \<le> maxMemTableLevel \<Longrightarrow>
   length (extend_update lv nl upd) = maxMemTableLevel \<and>
   (\<forall>j. extend_update lv nl upd ! j = (if lv \<le> j \<and> j < nl then Some 0 else upd ! j))"
proof (induction nl)
  case 0
  then show ?case by (simp add: extend_update_def)
next
  case (Suc nl)
  show ?case
  proof (cases "lv \<le> nl")
    case True
    then have "extend_update lv (Suc nl) upd = (extend_update lv nl upd)[nl := Some 0]"
      by (simp add: extend_update_def)
    then show ?thesis using Suc True by (auto simp: nth_list_update less_Suc_eq)
  next
    case False
    then show ?thesis using Suc by (auto simp: extend_update_def)
  qed
qed

lemma pred_at_above:
  assumes "hgt h 0 = maxMemTableLevel" and "\<forall>a \<in> set pre. hgt h a \<le> j" and "j < maxMemTableLevel"
  shows "pred_at h pre j = 0"
proof -
  have "filter (\<lambda>a. j < hgt h a) pre = []" using assms(2) by (auto simp: filter_empty_conv)
  then show ?thesis using assms(1,3) by (simp add: pred_at_def)
qed

lemma set_backward:
  "a < length h \<Longrightarrow> same_data h (h[a := (h ! a)\<lparr>mn_backward := b\<rparr>])"
  "a < length h \<Longrightarrow> fwd (h[a := (h ! a)\<lparr>mn_backward := b\<rparr>]) c l = fwd h c l"
  "a < length h \<Longrightarrow> mn_backward (h[a := (h ! a)\<lparr>mn_backward := b\<rparr>] ! c) = (if c = a then b else mn_backward (h ! c))"
  by (auto simp: same_data_def hgt_def fwd_def nth_list_update)

text \<open>The whole store after \<open>insertNode\<close>.\<close>

lemma insertNode_heap:
  assumes rel: "mt_rel m (pre @ post)" and node: "node = newMemNode lvl k v t" "1 \<le> lvl" "lvl \<le> maxMemTableLevel"
    and upd: "length upd = maxMemTableLevel" "\<forall>j < mt_level m. upd ! j = Some (pred_at (mt_nodes m) pre j)"
  defines "h \<equiv> mt_nodes m" and "n \<equiv> length (mt_nodes m)"
  shows "\<exists>m'. insertNode m node upd = Some m' \<and> mt_level m' = max lvl (mt_level m) \<and>
    mt_length m' = Suc (mt_length m) \<and> mt_size m' = mt_size m \<and> mt_frozen m' = mt_frozen m \<and>
    mt_tail m' = (if post = [] then Some n else mt_tail m) \<and> same_data (h @ [node]) (mt_nodes m') \<and>
    (\<forall>a. mn_backward (mt_nodes m' ! a) =
      (if a = n then (if pre = [] then None else Some (last pre))
       else if post \<noteq> [] \<and> a = hd post then Some n else mn_backward ((h @ [node]) ! a))) \<and>
    (\<forall>a l. a < n \<longrightarrow> fwd (mt_nodes m') a l = (if l < lvl \<and> a = pred_at h pre l then Some n else fwd h a l)) \<and>
    (\<forall>l < lvl. fwd (mt_nodes m') n l = fwd h (pred_at h pre l) l)"
proof -
  have ch: "chain h (pre @ post)" and lv: "1 \<le> mt_level m" "mt_level m \<le> maxMemTableLevel"
    and hl: "\<forall>a \<in> set (pre @ post). hgt h a \<le> mt_level m"
    and tl: "mt_tail m = (if pre @ post = [] then None else Some (last (pre @ post)))"
    using rel by (simp_all add: mt_rel_def h_def)
  have h0: "hgt h 0 = maxMemTableLevel" and dist: "distinct (0 # pre @ post)"
    and lt: "\<forall>a \<in> set (0 # pre @ post). a < n"
    using ch unfolding chain_def n_def h_def by auto
  let ?u = "if lvl > mt_level m then extend_update (mt_level m) lvl upd else upd"
  have u: "?u ! j = Some (pred_at h pre j)" if "j < lvl" for j
  proof (cases "j < mt_level m")
    case True
    then show ?thesis using upd extend_update_spec [OF upd(1) node(3), of "mt_level m"] by (simp add: h_def)
  next
    case False
    then have "pred_at h pre j = 0"
      using pred_at_above [OF h0, of pre j] hl that node(3) by force
    then show ?thesis using False that extend_update_spec [OF upd(1) node(3), of "mt_level m"] by simp
  qed
  let ?hh = "h @ [node]"
  have hh: "hgt ?hh a = hgt h a" "fwd ?hh a l = fwd h a l" if "a < n" for a l
    using that by (simp_all add: hgt_def fwd_def nth_append n_def h_def)
  have hn: "hgt ?hh n = lvl" using node(1) by (simp add: hgt_def n_def h_def newMemNode_def)
  have prn: "pred_at h pre l < n" if "l < lvl" for l
    using pred_at_in(1) [OF h0, of l pre] that node(3) lt by auto
  have pr: "?u ! l = Some (pred_at h pre l) \<and> pred_at h pre l \<noteq> n \<and> pred_at h pre l < length ?hh \<and>
      l < hgt ?hh (pred_at h pre l) \<and> l < hgt ?hh n" if "l \<in> set [0..<lvl]" for l
  proof -
    have l: "l < lvl" "l < maxMemTableLevel" using that node(3) by auto
    note p = pred_at_in [OF h0 l(2), of pre]
    then show ?thesis using prn [OF l(1)] u [OF l(1)] hh(1) hn l by (simp add: n_def h_def)
  qed
  have "\<exists>h'. mt_wire n ?u [0..<lvl] ?hh = Some h' \<and> same_data ?hh h' \<and>
    (\<forall>a. mn_backward (h' ! a) = mn_backward (?hh ! a)) \<and>
    (\<forall>a l. fwd h' a l = (if l \<in> set [0..<lvl] \<and> a = n then fwd ?hh (pred_at h pre l) l
                       else if l \<in> set [0..<lvl] \<and> a = pred_at h pre l then Some n else fwd ?hh a l))"
    by (rule mt_wire_spec) (use pr in \<open>simp_all add: n_def h_def\<close>)
  then obtain h' where w: "mt_wire n ?u [0..<lvl] ?hh = Some h'" "same_data ?hh h'"
      "\<And>a. mn_backward (h' ! a) = mn_backward (?hh ! a)"
      "\<And>a l. fwd h' a l = (if l < lvl \<and> a = n then fwd ?hh (pred_at h pre l) l
                       else if l < lvl \<and> a = pred_at h pre l then Some n else fwd ?hh a l)"
    by auto
  have len: "length h' = Suc n" using w(2) by (simp add: same_data_def n_def h_def)
  define bk where "bk = (if ?u ! 0 = Some 0 then None else ?u ! 0)"
  have bck: "bk = (if pre = [] then None else Some (last pre))"
  proof -
    have "last pre \<noteq> 0" if "pre \<noteq> []" using dist last_in_set [OF that] by auto
    then show ?thesis unfolding bk_def using u [of 0] node(2) pred_at_0 [OF ch] by (cases "pre = []") simp_all
  qed
  define h1 where "h1 = h'[n := (h' ! n)\<lparr>mn_backward := bk\<rparr>]"
  have nl: "n < length h'" using len by simp
  note h1 = set_backward [OF nl, of bk, folded h1_def]
  have l1: "length h1 = Suc n" using len by (simp add: h1_def)
  have f0: "fwd h1 n 0 = (case post of [] \<Rightarrow> None | a # _ \<Rightarrow> Some a)"
    using h1(2) [of n 0] w(4) [of n 0] node(2) hh(2) prn [of 0] pred_at_0 [OF ch] fwd_last_0 [OF ch] by simp
  define h2 where "h2 = (case post of [] \<Rightarrow> h1 | s # _ \<Rightarrow> h1[s := (h1 ! s)\<lparr>mn_backward := Some n\<rparr>])"
  have h2: "same_data h1 h2 \<and> (\<forall>c l. fwd h2 c l = fwd h1 c l) \<and>
      (\<forall>c. mn_backward (h2 ! c) = (if post \<noteq> [] \<and> c = hd post then Some n else mn_backward (h1 ! c)))"
  proof (cases post)
    case Nil
    then show ?thesis by (simp add: h2_def)
  next
    case (Cons s r)
    then have "s < length h1" using lt l1 by auto
    then show ?thesis using set_backward [of s h1 "Some n"] Cons by (simp add: h2_def)
  qed
  have hdn: "hd post \<noteq> n" if "post \<noteq> []" using lt that by auto
  define m' where "m' = m\<lparr>mt_nodes := h2, mt_tail := (if post = [] then Some n else mt_tail m),
    mt_level := max lvl (mt_level m), mt_length := mt_length m + 1\<rparr>"
  have ins: "insertNode m node upd = Some m'"
  proof -
    have ll: "length (mn_levels node) = lvl" using node(1) by (simp add: newMemNode_def)
    have lm: "(if lvl > mt_level m then lvl else mt_level m) = max lvl (mt_level m)" by simp
    have w1: "mt_wire n ?u [0..<lvl] (mt_nodes m @ [node]) = Some h'"
      using w(1) by (simp only: h_def)
    show ?thesis
      using f0 tl
      unfolding insertNode_def Let_def ll w1 option.case lm bk_def [symmetric] n_def [symmetric]
        h1_def [symmetric] m'_def h2_def
      by (cases post) simp_all
  qed
  have "same_data ?hh h2" using w(2) h1(1) h2 same_data_trans by blast
  moreover have "mn_backward (h2 ! a) = (if a = n then (if pre = [] then None else Some (last pre))
       else if post \<noteq> [] \<and> a = hd post then Some n else mn_backward (?hh ! a))" for a
    using h2 h1(3) [of a] bck w(3) hdn by auto
  moreover have "fwd h2 a l = (if l < lvl \<and> a = pred_at h pre l then Some n else fwd h a l)" if "a < n" for a l
    using that h2 h1(2) w(4) hh(2) by simp
  moreover have "fwd h2 n l = fwd h (pred_at h pre l) l" if "l < lvl" for l
    using that h2 h1(2) w(4) hh(2) prn by simp
  ultimately show ?thesis using ins by (intro exI [of _ m']) (simp add: m'_def)
qed

lemma insertNode_spec:
  assumes rel: "mt_rel m (pre @ post)" and lvl: "1 \<le> lvl" "lvl \<le> maxMemTableLevel"
    and lo: "below (mt_nodes m) k pre" and hi: "\<forall>a \<in> set post. k < key_at (mt_nodes m) a" and t: "t \<longrightarrow> v = []"
    and upd: "length upd = maxMemTableLevel" "\<forall>j < mt_level m. upd ! j = Some (pred_at (mt_nodes m) pre j)"
  shows "\<exists>m'. insertNode m (newMemNode lvl k v t) upd = Some m' \<and>
    mt_rel m' (pre @ length (mt_nodes m) # post) \<and> mt_size m' = mt_size m \<and> mt_frozen m' = mt_frozen m \<and>
    same_data (mt_nodes m @ [newMemNode lvl k v t]) (mt_nodes m')"
proof -
  let ?h = "mt_nodes m" and ?n = "length (mt_nodes m)" and ?nd = "newMemNode lvl k v t"
  from insertNode_heap [OF rel refl lvl upd]
  obtain m' where m': "insertNode m ?nd upd = Some m'" "mt_level m' = max lvl (mt_level m)"
      "mt_length m' = Suc (mt_length m)" "mt_size m' = mt_size m" "mt_frozen m' = mt_frozen m"
      "mt_tail m' = (if post = [] then Some ?n else mt_tail m)" "same_data (?h @ [?nd]) (mt_nodes m')"
      "\<And>a. mn_backward (mt_nodes m' ! a) =
        (if a = ?n then (if pre = [] then None else Some (last pre))
         else if post \<noteq> [] \<and> a = hd post then Some ?n else mn_backward ((?h @ [?nd]) ! a))"
      "\<And>a l. a < ?n \<Longrightarrow> fwd (mt_nodes m') a l = (if l < lvl \<and> a = pred_at ?h pre l then Some ?n else fwd ?h a l)"
      "\<And>l. l < lvl \<Longrightarrow> fwd (mt_nodes m') ?n l = fwd ?h (pred_at ?h pre l) l"
    by blast
  have R: "chain ?h (pre @ post)" "1 \<le> mt_level m" "mt_level m \<le> maxMemTableLevel"
    "\<And>a. a \<in> set (pre @ post) \<Longrightarrow> hgt ?h a \<le> mt_level m"
    "\<And>a. a \<in> set (pre @ post) \<Longrightarrow> mn_tombstone (?h ! a) \<Longrightarrow> mn_value (?h ! a) = []"
    "\<And>ys x zs. pre @ post = ys @ x # zs \<Longrightarrow>
        mn_backward (?h ! x) = (if ys = [] then None else Some (last ys))"
    "mt_tail m = (if pre @ post = [] then None else Some (last (pre @ post)))" "mt_length m = length (pre @ post)"
    using rel unfolding mt_rel_def by blast+
  have lt: "a < ?n" if "a \<in> set (pre @ post)" for a using R(1) that by (simp add: chain_def)
  have dist: "distinct (pre @ post)" using R(1) by (simp add: chain_def)
  have sd: "length (mt_nodes m') = Suc ?n" "mn_key (mt_nodes m' ! a) = mn_key ((?h @ [?nd]) ! a)"
      "mn_value (mt_nodes m' ! a) = mn_value ((?h @ [?nd]) ! a)"
      "mn_tombstone (mt_nodes m' ! a) = mn_tombstone ((?h @ [?nd]) ! a)"
      "hgt (mt_nodes m') a = hgt (?h @ [?nd]) a" for a
    using m'(7) by (simp_all add: same_data_def)
  have old: "(?h @ [?nd]) ! a = ?h ! a" if "a < ?n" for a using that by (simp add: nth_append)
  have hg: "hgt (mt_nodes m') a = hgt ?h a" if "a < ?n" for a
    using sd(5) old [OF that] by (simp add: hgt_def)
  have hn: "hgt (mt_nodes m') ?n = lvl" using sd(5) by (simp add: hgt_def newMemNode_def)
  have ch: "chain (mt_nodes m') (pre @ ?n # post)"
    by (rule chain_insert [OF R(1) sd(1) refl _ hn lvl _ _ lo hi])
      (use hg old m'(9,10) in \<open>simp_all add: key_at_def sd(2) newMemNode_def\<close>)
  have bw: "mn_backward (mt_nodes m' ! x) = (if ys = [] then None else Some (last ys))"
    if sp: "pre @ ?n # post = ys @ x # zs" for ys x zs
  proof -
    from append_Cons_eq_split [OF sp]
    consider (pre) us where "pre = ys @ x # us" "zs = us @ ?n # post"
      | (mid) "ys = pre" "x = ?n" "zs = post"
      | (post) us where "ys = pre @ ?n # us" "post = us @ x # zs"
      by blast
    then show ?thesis
    proof cases
      case pre
      then have "x < ?n" "post = [] \<or> x \<noteq> hd post"
        using lt dist by (auto simp: neq_Nil_conv)
      then show ?thesis using m'(8) [of x] old R(6) [of ys x "us @ post"] pre by auto
    next
      case mid
      then show ?thesis using m'(8) [of x] by simp
    next
      case post
      then have xn: "x < ?n" using lt by simp
      show ?thesis
      proof (cases us)
        case Nil
        then show ?thesis using m'(8) [of x] xn post by simp
      next
        case (Cons u us')
        then have "x \<noteq> hd post" using dist post by auto
        then show ?thesis using m'(8) [of x] old [OF xn] xn R(6) [of "pre @ us" x zs] post Cons by simp
      qed
    qed
  qed
  have "mt_rel m' (pre @ ?n # post)"
    unfolding mt_rel_def
  proof (intro conjI ballI allI impI)
    fix a assume a: "a \<in> set (pre @ ?n # post)"
    show "hgt (mt_nodes m') a \<le> mt_level m'"
      using a R(4) [of a] hg lt hn m'(2) by (cases "a = ?n") auto
    show "mn_value (mt_nodes m' ! a) = []" if "mn_tombstone (mt_nodes m' ! a)"
      using that a t sd(3,4) old lt R(5) [of a]
      by (cases "a = ?n") (auto simp: newMemNode_def)
  next
    show "mt_tail m' = (if pre @ ?n # post = [] then None else Some (last (pre @ ?n # post)))"
      using m'(6) R(7) by auto
    show "mt_length m' = length (pre @ ?n # post)" using m'(3) R(8) by simp
    show "1 \<le> mt_level m'" "mt_level m' \<le> maxMemTableLevel" using m'(2) R(2,3) lvl by auto
  qed (use ch bw in blast)+
  then show ?thesis using m'(1,4,5,7) by blast
qed

section \<open>The memtable as a map\<close>

text \<open>What the skip list stands for: keys bound to a value and a tombstone mark.\<close>

definition mt_entries :: "memTable \<Rightarrow> memEntry list" where
  "mt_entries m = (case mt_Snapshot m of None \<Rightarrow> [] | Some es \<Rightarrow> es)"

definition mt_inv :: "memTable \<Rightarrow> bool" where
  "mt_inv m \<longleftrightarrow> (\<exists>xs. mt_rel m xs)"

abbreviation entry_pair :: "memEntry \<Rightarrow> bytes \<times> (bytes \<times> bool)" where
  "entry_pair e \<equiv> (me_key e, (me_value e, me_tombstone e))"

definition ents_map :: "memEntry list \<Rightarrow> bytes \<rightharpoonup> (bytes \<times> bool)" where
  "ents_map es = map_of (map entry_pair es)"

definition mt_view :: "memTable \<Rightarrow> bytes \<rightharpoonup> (bytes \<times> bool)" where
  "mt_view m = ents_map (mt_entries m)"

abbreviation node_at :: "memTable \<Rightarrow> nat \<Rightarrow> memEntry" where
  "node_at m a \<equiv> node_entry (mt_nodes m ! a)"

lemma mt_collect_suffix:
  assumes "chain h xs"
  shows "xs = ys @ zs \<Longrightarrow>
    mt_collect h (case zs of [] \<Rightarrow> None | a # _ \<Rightarrow> Some a) es = Some (es @ map (\<lambda>a. node_entry (h ! a)) zs)"
proof (induction zs arbitrary: ys es)
  case Nil
  then show ?case by (subst mt_collect.simps) simp
next
  case (Cons z zs)
  have "0 < hgt h z" using assms Cons.prems by (simp add: chain_def)
  then have "fwd h z 0 = nxt h 0 zs"
    by (intro chain_fwd [OF assms, of "0 # ys"]) (use Cons.prems in simp_all)
  then have "fwd h z 0 = (case zs of [] \<Rightarrow> None | a # _ \<Rightarrow> Some a)"
    using nxt_0 [of h "ys @ [z]" zs] assms Cons.prems by simp
  then show ?case using Cons.IH [of "ys @ [z]"] Cons.prems by (subst mt_collect.simps) simp
qed

lemma mt_Snapshot_rel:
  assumes "mt_rel m xs"
  shows "mt_Snapshot m = Some (map (node_at m) xs)"
proof -
  have ch: "chain (mt_nodes m) xs" using assms by (simp add: mt_rel_def)
  have "fwd (mt_nodes m) 0 0 = (case xs of [] \<Rightarrow> None | a # _ \<Rightarrow> Some a)"
    using fwd_last_0 [of "mt_nodes m" "[]" xs] ch by simp
  then show ?thesis
    using mt_collect_suffix [OF ch, of "[]" xs "[]"] by (simp add: mt_Snapshot_def)
qed

lemma mt_entries_rel: "mt_rel m xs \<Longrightarrow> mt_entries m = map (node_at m) xs"
  by (simp add: mt_entries_def mt_Snapshot_rel)

lemma mt_entries_sorted:
  assumes "mt_inv m"
  shows "sorted_wrt (<) (map me_key (mt_entries m))"
proof -
  obtain xs where r: "mt_rel m xs" using assms by (auto simp: mt_inv_def)
  have "map me_key (mt_entries m) = map (key_at (mt_nodes m)) xs"
    by (simp add: mt_entries_rel [OF r] node_entry_def key_at_def)
  then show ?thesis using r by (simp add: mt_rel_def chain_def)
qed

lemma mt_length_rel: "mt_inv m \<Longrightarrow> mt_length m = length (mt_entries m)"
  by (auto simp: mt_inv_def mt_entries_rel mt_rel_def)

text \<open>Any key splits the chain into the nodes below it and the rest.\<close>

lemma mt_split:
  assumes "mt_inv m"
  obtains pre post where "mt_rel m (pre @ post)" and "below (mt_nodes m) k pre"
    and "not_below (mt_nodes m) k post" and "sorted_wrt (<) (map (key_at (mt_nodes m)) (pre @ post))"
proof -
  obtain xs where r: "mt_rel m xs" using assms by (auto simp: mt_inv_def)
  let ?P = "\<lambda>a. key_at (mt_nodes m) a < k"
  have srt: "sorted_wrt (<) (map (key_at (mt_nodes m)) xs)" using r by (simp add: mt_rel_def chain_def)
  have hi: "not_below (mt_nodes m) k (dropWhile ?P xs)"
    unfolding sorted_dropWhile_eq_filter [OF srt] by auto
  have lo: "below (mt_nodes m) k (takeWhile ?P xs)" by (auto dest: set_takeWhileD)
  show thesis
    by (rule that [OF _ lo hi]) (simp_all only: takeWhile_dropWhile_id r srt)
qed

lemma ents_map_None: "\<forall>e \<in> set es. me_key e \<noteq> k \<Longrightarrow> ents_map es k = None"
  by (auto simp: ents_map_def map_of_eq_None_iff)

lemma ents_map_append: "ents_map (es @ es') = ents_map es' ++ ents_map es"
  by (simp add: ents_map_def)

lemma ents_map_Cons: "ents_map (e # es) = (ents_map es)(me_key e \<mapsto> (me_value e, me_tombstone e))"
  by (simp add: ents_map_def)

lemma ents_map_insert:
  assumes "\<forall>e \<in> set es. me_key e \<noteq> me_key x"
  shows "ents_map (es @ x # es') = (ents_map (es @ es'))(me_key x \<mapsto> (me_value x, me_tombstone x))"
  using ents_map_None [OF assms] by (auto simp: ents_map_append ents_map_Cons map_add_def fun_eq_iff split: option.split)

text \<open>\<open>findPath\<close> finds the node of a key, or the place for it.\<close>

lemma findPath_cases:
  assumes "mt_inv m"
  obtains (found) a upd pre post where "findPath m k = Some (upd, Some a)" and "mt_rel m (pre @ a # post)"
      and "key_at (mt_nodes m) a = k" and "mt_view m k = Some (mn_value (mt_nodes m ! a), mn_tombstone (mt_nodes m ! a))"
  | (absent) upd pre post where "findPath m k = Some (upd, None)" and "mt_rel m (pre @ post)"
      and "below (mt_nodes m) k pre" and "\<forall>a \<in> set post. k < key_at (mt_nodes m) a"
      and "length upd = maxMemTableLevel" and "\<forall>j < mt_level m. upd ! j = Some (pred_at (mt_nodes m) pre j)"
      and "mt_view m k = None"
proof -
  obtain pre post where r: "mt_rel m (pre @ post)" and lo: "below (mt_nodes m) k pre"
    and hi: "not_below (mt_nodes m) k post" and srt: "sorted_wrt (<) (map (key_at (mt_nodes m)) (pre @ post))"
    using mt_split [OF assms] by blast
  obtain upd where f: "findPath m k =
      Some (upd, case post of [] \<Rightarrow> None | a # _ \<Rightarrow> if key_at (mt_nodes m) a = k then Some a else None)"
    and u: "length upd = maxMemTableLevel" "\<forall>j < mt_level m. upd ! j = Some (pred_at (mt_nodes m) pre j)"
    using findPath_spec [OF r lo hi] by blast
  have v: "mt_view m = ents_map (map (node_at m) (pre @ post))"
    by (simp add: mt_view_def mt_entries_rel [OF r])
  have pk: "\<forall>e \<in> set (map (node_at m) pre). me_key e \<noteq> k"
    using lo by (auto simp: node_entry_def key_at_def)
  show thesis
  proof (cases "post \<noteq> [] \<and> key_at (mt_nodes m) (hd post) = k")
    case True
    then obtain a post' where p: "post = a # post'" and a: "key_at (mt_nodes m) a = k" by (cases post) auto
    have "mt_view m k = Some (mn_value (mt_nodes m ! a), mn_tombstone (mt_nodes m ! a))"
      unfolding v p map_append list.map using pk a
      by (subst ents_map_insert) (simp_all add: node_entry_def key_at_def)
    then show thesis using found [of upd a pre post'] f r p a by simp
  next
    case False
    have gt: "\<forall>a \<in> set post. k < key_at (mt_nodes m) a"
    proof (cases post)
      case (Cons b bs)
      then have "k < key_at (mt_nodes m) b" using False hi by auto
      moreover have "\<forall>a \<in> set bs. key_at (mt_nodes m) b < key_at (mt_nodes m) a"
        using srt Cons by (simp add: sorted_wrt_append)
      ultimately show ?thesis using Cons by auto
    qed simp
    then have "mt_view m k = None"
      unfolding v using pk by (intro ents_map_None) (auto simp: node_entry_def key_at_def)
    moreover have "findPath m k = Some (upd, None)" using f False by (cases post) auto
    ultimately show thesis using absent r lo gt u by blast
  qed
qed

lemma mt_rel_frame [simp]:
  "mt_rel (m\<lparr>mt_size := z\<rparr>) xs = mt_rel m xs" "mt_rel (m\<lparr>mt_frozen := f\<rparr>) xs = mt_rel m xs"
  by (simp_all add: mt_rel_def)

lemma mt_view_frame [simp]:
  "mt_view (m\<lparr>mt_size := z\<rparr>) = mt_view m" "mt_view (m\<lparr>mt_frozen := f\<rparr>) = mt_view m"
  "mt_entries (m\<lparr>mt_size := z\<rparr>) = mt_entries m" "mt_entries (m\<lparr>mt_frozen := f\<rparr>) = mt_entries m"
  "mt_inv (m\<lparr>mt_size := z\<rparr>) = mt_inv m" "mt_inv (m\<lparr>mt_frozen := f\<rparr>) = mt_inv m"
  by (simp_all add: mt_view_def mt_entries_def mt_Snapshot_def mt_inv_def)

definition set_node :: "memTable \<Rightarrow> nat \<Rightarrow> bytes \<Rightarrow> bool \<Rightarrow> memTable" where
  "set_node m a v t =
     m\<lparr>mt_nodes := (mt_nodes m)[a := (mt_nodes m ! a)\<lparr>mn_value := v, mn_tombstone := t\<rparr>]\<rparr>"

lemma set_node_rel:
  assumes r: "mt_rel m (pre @ a # post)" and t: "t \<longrightarrow> v = []"
  shows "mt_rel (set_node m a v t) (pre @ a # post)"
    and "mt_view (set_node m a v t) = (mt_view m)(key_at (mt_nodes m) a \<mapsto> (v, t))"
proof -
  let ?h = "mt_nodes m"
  let ?h' = "mt_nodes (set_node m a v t)"
  have h': "?h' = ?h[a := (?h ! a)\<lparr>mn_value := v, mn_tombstone := t\<rparr>]" by (simp add: set_node_def)
  have al: "a < length ?h" and ch: "chain ?h (pre @ a # post)"
    using r by (simp_all add: mt_rel_def chain_def)
  have same: "hgt ?h' = hgt ?h" "key_at ?h' = key_at ?h" "fwd ?h' = fwd ?h" "\<And>l zs. nxt ?h' l zs = nxt ?h l zs"
    using al by (auto simp: h' hgt_def key_at_def fwd_def nxt_def fun_eq_iff nth_list_update)
  have bw: "mn_backward (?h' ! b) = mn_backward (?h ! b)" for b
    using al by (simp add: h' nth_list_update)
  have "chain ?h' (pre @ a # post)" using ch unfolding chain_def same by (simp add: h')
  moreover have "mn_tombstone (?h' ! b) \<longrightarrow> mn_value (?h' ! b) = []" if "b \<in> set (pre @ a # post)" for b
  proof (cases "b = a")
    case True
    then have b: "?h' ! b = (?h ! a)\<lparr>mn_value := v, mn_tombstone := t\<rparr>" using al by (simp add: h')
    show ?thesis unfolding b using t by simp
  next
    case False
    then have "?h' ! b = ?h ! b" by (simp add: h')
    moreover have "mn_tombstone (?h ! b) \<longrightarrow> mn_value (?h ! b) = []"
      using r that unfolding mt_rel_def by blast
    ultimately show ?thesis by simp
  qed
  ultimately show r': "mt_rel (set_node m a v t) (pre @ a # post)"
    using r unfolding mt_rel_def same bw by (simp add: set_node_def)
  have dist: "a \<notin> set pre" "a \<notin> set post" using ch by (auto simp: chain_def)
  have np: "map (node_at (set_node m a v t)) pre = map (node_at m) pre"
    "map (node_at (set_node m a v t)) post = map (node_at m) post"
    using dist by (metis (mono_tags, lifting) h' map_eq_conv nth_list_update_neq)+
  have na: "node_at (set_node m a v t) a = \<lparr>me_key = key_at ?h a, me_value = v, me_tombstone = t\<rparr>"
    using al by (simp add: h' node_entry_def key_at_def)
  have "\<forall>b \<in> set pre. key_at ?h b \<noteq> key_at ?h a"
    using ch by (auto simp: chain_def sorted_wrt_append)
  then have k: "\<forall>e \<in> set (map (node_at m) pre). me_key e \<noteq> key_at ?h a"
    by (simp add: node_entry_def key_at_def)
  show "mt_view (set_node m a v t) = (mt_view m)(key_at (mt_nodes m) a \<mapsto> (v, t))"
    unfolding mt_view_def mt_entries_rel [OF r] mt_entries_rel [OF r'] map_append list.map np na
    using k by (subst (1 2) ents_map_insert) (simp_all add: node_entry_def key_at_def)
qed

lemma insert_view:
  assumes r: "mt_rel m (pre @ post)" and lo: "below (mt_nodes m) k pre"
    and r': "mt_rel m' (pre @ length (mt_nodes m) # post)"
    and sd: "same_data (mt_nodes m @ [newMemNode lvl k v t]) (mt_nodes m')"
  shows "mt_view m' = (mt_view m)(k \<mapsto> (v, t))"
proof -
  have lt: "a < length (mt_nodes m)" if "a \<in> set (pre @ post)" for a
    using r that by (simp add: mt_rel_def chain_def)
  have old: "node_at m' a = node_at m a" if "a \<in> set (pre @ post)" for a
    using sd lt [OF that] by (simp add: same_data_def node_entry_def nth_append)
  have new: "node_at m' (length (mt_nodes m)) = \<lparr>me_key = k, me_value = v, me_tombstone = t\<rparr>"
    using sd by (simp add: same_data_def node_entry_def newMemNode_def)
  have np: "map (node_at m') pre = map (node_at m) pre" "map (node_at m') post = map (node_at m) post"
    using old by simp_all
  have k: "\<forall>e \<in> set (map (node_at m) pre). me_key e \<noteq> k"
    using lo by (auto simp: node_entry_def key_at_def)
  show ?thesis
    unfolding mt_view_def mt_entries_rel [OF r] mt_entries_rel [OF r'] map_append list.map np new
    using k by (subst ents_map_insert) simp_all
qed

section \<open>What the operations do\<close>

lemma mt_inv_New: "mt_inv NewMemTable" "mt_entries NewMemTable = []" "mt_view NewMemTable = Map.empty"
proof -
  have "chain (mt_nodes NewMemTable) []"
    unfolding chain_def
    by (auto simp: NewMemTable_def newMemNode_def hgt_def fwd_def nxt_def Cons_eq_append_conv)
  then have r: "mt_rel NewMemTable []" by (simp add: mt_rel_def) (simp add: NewMemTable_def)
  then show "mt_inv NewMemTable" "mt_entries NewMemTable = []" "mt_view NewMemTable = Map.empty"
    by (auto simp: mt_inv_def mt_view_def mt_entries_rel [OF r] ents_map_def)
qed

lemma mt_Put_ok:
  assumes inv: "mt_inv m" and nf: "\<not> mt_frozen m" and lvl: "1 \<le> lvl" "lvl \<le> maxMemTableLevel"
  shows "\<exists>m'. mt_Put m lvl k v = Some m' \<and> mt_inv m' \<and> \<not> mt_frozen m' \<and>
    mt_view m' = (mt_view m)(k \<mapsto> (v, False))"
  using inv
proof (cases rule: findPath_cases [where k = k])
  case (found a upd pre post)
  have r: "mt_rel (set_node m a v False) (pre @ a # post)"
    and w: "mt_view (set_node m a v False) = (mt_view m)(k \<mapsto> (v, False))"
    using set_node_rel [OF found(2), of False v] found(3) by simp_all
  have "\<exists>z. mt_Put m lvl k v = Some ((set_node m a v False)\<lparr>mt_size := z\<rparr>)"
    using found(1) nf by (auto simp: mt_Put_def set_node_def Let_def)
  then obtain z where "mt_Put m lvl k v = Some ((set_node m a v False)\<lparr>mt_size := z\<rparr>)" by blast
  moreover have "mt_inv (set_node m a v False)" using r by (auto simp: mt_inv_def)
  ultimately show ?thesis using w nf by (simp add: set_node_def)
next
  case (absent upd pre post)
  from insertNode_spec [OF absent(2) lvl absent(3,4) _ absent(5,6), of False v]
  obtain m1 where m1: "insertNode m (newMemNode lvl k v False) upd = Some m1"
      "mt_rel m1 (pre @ length (mt_nodes m) # post)" "mt_frozen m1 = mt_frozen m"
      "same_data (mt_nodes m @ [newMemNode lvl k v False]) (mt_nodes m1)" by auto
  have "mt_view m1 = (mt_view m)(k \<mapsto> (v, False))" by (rule insert_view [OF absent(2,3) m1(2,4)])
  moreover have "mt_inv m1" using m1(2) by (auto simp: mt_inv_def)
  ultimately show ?thesis using m1(1,3) absent(1) nf by (simp add: mt_Put_def)
qed

lemma mt_Delete_ok:
  assumes inv: "mt_inv m" and nf: "\<not> mt_frozen m" and lvl: "1 \<le> lvl" "lvl \<le> maxMemTableLevel"
  shows "\<exists>m'. mt_Delete m lvl k = Some m' \<and> mt_inv m' \<and> \<not> mt_frozen m' \<and>
    mt_view m' = (mt_view m)(k \<mapsto> ([], True))"
  using inv
proof (cases rule: findPath_cases [where k = k])
  case (found a upd pre post)
  show ?thesis
  proof (cases "mn_tombstone (mt_nodes m ! a)")
    case True
    then have "mn_value (mt_nodes m ! a) = []" using found(2) by (simp add: mt_rel_def)
    then have "mt_view m k = Some ([], True)" using found(4) True by simp
    then have "(mt_view m)(k \<mapsto> ([], True)) = mt_view m" by (simp add: fun_upd_idem)
    then show ?thesis using found(1) True nf inv by (simp add: mt_Delete_def Let_def)
  next
    case False
    have r: "mt_rel (set_node m a [] True) (pre @ a # post)"
      and w: "mt_view (set_node m a [] True) = (mt_view m)(k \<mapsto> ([], True))"
      using set_node_rel [OF found(2), of True "[]"] found(3) by simp_all
    have "mt_Delete m lvl k = Some ((set_node m a [] True)
        \<lparr>mt_size := mt_size m - int (length (mn_value (mt_nodes m ! a)))\<rparr>)"
      using found(1) nf False by (simp add: mt_Delete_def set_node_def Let_def)
    moreover have "mt_inv (set_node m a [] True)" using r by (auto simp: mt_inv_def)
    ultimately show ?thesis using w nf by (simp add: set_node_def)
  qed
next
  case (absent upd pre post)
  from insertNode_spec [OF absent(2) lvl absent(3,4) _ absent(5,6), of True "[]"]
  obtain m1 where m1: "insertNode m (newMemNode lvl k [] True) upd = Some m1"
      "mt_rel m1 (pre @ length (mt_nodes m) # post)" "mt_frozen m1 = mt_frozen m"
      "same_data (mt_nodes m @ [newMemNode lvl k [] True]) (mt_nodes m1)" by auto
  have "mt_view m1 = (mt_view m)(k \<mapsto> ([], True))" by (rule insert_view [OF absent(2,3) m1(2,4)])
  moreover have "mt_inv m1" using m1(2) by (auto simp: mt_inv_def)
  ultimately show ?thesis using m1(1,3) absent(1) nf by (simp add: mt_Delete_def)
qed

lemma mt_Get_ok:
  assumes "mt_inv m"
  shows "mt_Get m k = Some (case mt_view m k of None \<Rightarrow> ([], False, False)
    | Some (v, t) \<Rightarrow> if t then ([], True, True) else (v, True, False))"
  using assms by (cases rule: findPath_cases [where k = k]) (simp_all add: mt_Get_def)

lemma mt_Snapshot_ok: "mt_inv m \<Longrightarrow> mt_Snapshot m = Some (mt_entries m)"
  by (auto simp: mt_inv_def mt_Snapshot_rel mt_entries_rel)

lemma randomLevel_bounds: "1 \<le> randomLevel coins \<and> randomLevel coins \<le> maxMemTableLevel"
proof -
  have "l \<le> maxMemTableLevel \<Longrightarrow> l \<le> randomLevel_from l coins \<and> randomLevel_from l coins \<le> maxMemTableLevel" for l
    by (induction l coins rule: randomLevel_from.induct) auto
  then show ?thesis by (force simp: randomLevel_def)
qed

section \<open>Properties\<close>

text \<open>(C11) On any well-formed memtable that is not frozen, \<open>Put\<close> and \<open>Delete\<close> return, keep the
  skip list well-formed for every tower height the coin flips give, and act on \<open>Get\<close> as a
  map update: the key reads the new value, or a tombstone, and every other key reads as
  before.\<close>

theorem memtable_refines_map:
  assumes "mt_inv m" and "\<not> mt_frozen m"
  shows "(\<exists>m'. mt_Put m (randomLevel coins) k v = Some m' \<and> mt_inv m' \<and>
      (\<forall>k'. mt_Get m' k' = (if k' = k then Some (v, True, False) else mt_Get m k'))) \<and>
    (\<exists>m'. mt_Delete m (randomLevel coins) k = Some m' \<and> mt_inv m' \<and>
      (\<forall>k'. mt_Get m' k' = (if k' = k then Some ([], True, True) else mt_Get m k')))"
proof
  note b = randomLevel_bounds [of coins]
  obtain m' where "mt_Put m (randomLevel coins) k v = Some m'" "mt_inv m'" "mt_view m' = (mt_view m)(k \<mapsto> (v, False))"
    using mt_Put_ok [OF assms, of "randomLevel coins"] b by blast
  then show "\<exists>m'. mt_Put m (randomLevel coins) k v = Some m' \<and> mt_inv m' \<and>
      (\<forall>k'. mt_Get m' k' = (if k' = k then Some (v, True, False) else mt_Get m k'))"
    using assms(1) by (auto simp: mt_Get_ok)
  obtain m' where "mt_Delete m (randomLevel coins) k = Some m'" "mt_inv m'" "mt_view m' = (mt_view m)(k \<mapsto> ([], True))"
    using mt_Delete_ok [OF assms, of "randomLevel coins"] b by blast
  then show "\<exists>m'. mt_Delete m (randomLevel coins) k = Some m' \<and> mt_inv m' \<and>
      (\<forall>k'. mt_Get m' k' = (if k' = k then Some ([], True, True) else mt_Get m k'))"
    using assms(1) by (auto simp: mt_Get_ok)
qed

theorem memtable_refines_map_witness:
  "\<exists>m'. mt_Put NewMemTable (randomLevel [True, False]) [1] [2] = Some m' \<and> mt_Get m' [1] = Some ([2], True, False)"
proof -
  have "\<not> mt_frozen NewMemTable" by (simp add: NewMemTable_def)
  from memtable_refines_map [OF mt_inv_New(1) this, of "[True, False]" "[1]" "[2]"] show ?thesis by auto
qed

text \<open>A table with one key, at one level.\<close>

definition one_key :: "bytes \<Rightarrow> bool \<Rightarrow> int \<Rightarrow> memTable" where
  "one_key v t n = \<lparr>mt_nodes =
     [\<lparr>mn_key = [], mn_value = [], mn_tombstone = False, mn_backward = None, mn_levels = Some 1 # replicate 15 None\<rparr>,
      \<lparr>mn_key = [1], mn_value = v, mn_tombstone = t, mn_backward = None, mn_levels = [None]\<rparr>],
     mt_tail = Some 1, mt_level = 1, mt_length = 1, mt_size = n, mt_frozen = False\<rparr>"

lemmas memtable_eval = mt_Put_def mt_Delete_def findPath_def newMemNode_def fwd_def mt_walk.simps
  insertNode_def Let_def extend_update_def set_fwd_def numeral_eq_Suc NewMemTable_def one_key_def

text \<open>The byte counter of a key that is written, deleted and written again counts the key
  twice, although the table holds it once: \<open>Delete\<close> gives back the value only, and \<open>Put\<close> over a
  tombstone adds the key again.\<close>

theorem memtable_size_double_counts:
  "mt_Put NewMemTable 1 [1] [2] = Some (one_key [2] False 2) \<and>
   mt_Delete (one_key [2] False 2) 1 [1] = Some (one_key [] True 1) \<and>
   mt_Put (one_key [] True 1) 1 [1] [2] = Some (one_key [2] False 3)"
  by (simp add: memtable_eval)

end
