(* ===== verification/Lsm_Bloom.thy ===== *)
theory Lsm_Bloom
  imports HLC
begin

text \<open>
  The Bloom filter of an SSTable (\<open>internal/storage/lsm/bloom.go\<close>) with FNV-64a as in
  \<open>hash/fnv\<close>. The two sizes that \<open>NewBloomFilter\<close> computes in floating point, the bits
  before rounding and the number of hash functions, are arguments. The main results: no
  false negatives, and the byte encoding round trips.
\<close>

unbundle bit_operations_syntax

definition fnv_offset64 :: u64 where "fnv_offset64 = 14695981039346656037"

definition fnv_prime64 :: u64 where "fnv_prime64 = 1099511628211"

definition fnv64a_Write :: "u64 \<Rightarrow> bytes \<Rightarrow> u64" where
  "fnv64a_Write h data = foldl (\<lambda>h c. (h XOR ucast c) * fnv_prime64) h data"

record bloomFilter =
  bf_bits :: bytes
  bf_numBits :: u32
  bf_numHashes :: u32

text \<open>\<open>rawBits\<close> is \<open>uint32(math.Ceil(float64(numKeys) * bitsPerKey))\<close> and \<open>rawHashes\<close> is
  \<open>uint32(math.Ceil(bitsPerKey * ln2))\<close>.\<close>

definition NewBloomFilter :: "u32 \<Rightarrow> u32 \<Rightarrow> bloomFilter" where
  "NewBloomFilter rawBits rawHashes =
     (let numBits = (if rawBits mod 8 \<noteq> 0 then (rawBits div 8 + 1) * 8 else rawBits);
          numBits = (if numBits < 8 then 8 else numBits);
          numHashes = (if rawHashes < 1 then 1 else rawHashes)
      in \<lparr>bf_bits = replicate (unat (numBits div 8)) 0, bf_numBits = numBits, bf_numHashes = numHashes\<rparr>)"

definition bloomHash :: "bytes \<Rightarrow> u64 \<times> u64" where
  "bloomHash key =
     (fnv64a_Write (fnv64a_Write fnv_offset64 [0x01]) key,
      fnv64a_Write (fnv64a_Write fnv_offset64 [0x02]) key)"

definition bloom_pos :: "bloomFilter \<Rightarrow> bytes \<Rightarrow> nat \<Rightarrow> nat" where
  "bloom_pos bf key i =
     (let (a, b) = bloomHash key; m = (ucast (bf_numBits bf) :: u64)
      in unat ((a + b * of_nat i) mod m))"

definition set_pos :: "nat \<Rightarrow> bytes \<Rightarrow> bytes" where
  "set_pos pos bits = bits[pos div 8 := bits ! (pos div 8) OR push_bit (pos mod 8) 1]"

definition bloom_Add :: "bloomFilter \<Rightarrow> bytes \<Rightarrow> bloomFilter" where
  "bloom_Add bf key =
     bf\<lparr>bf_bits := fold (\<lambda>i. set_pos (bloom_pos bf key i)) [0..<unat (bf_numHashes bf)] (bf_bits bf)\<rparr>"

definition bloom_MayContain :: "bloomFilter \<Rightarrow> bytes \<Rightarrow> bool" where
  "bloom_MayContain bf key =
     list_all (\<lambda>i. let pos = bloom_pos bf key i
                   in bf_bits bf ! (pos div 8) AND push_bit (pos mod 8) 1 \<noteq> 0)
       [0..<unat (bf_numHashes bf)]"

definition bloom_Encode :: "bloomFilter \<Rightarrow> bytes" where
  "bloom_Encode bf = le_bytes 4 (unat (bf_numBits bf)) @ le_bytes 4 (unat (bf_numHashes bf)) @ bf_bits bf"

definition DecodeBloomFilter :: "bytes \<Rightarrow> bloomFilter" where
  "DecodeBloomFilter data =
     \<lparr>bf_bits = drop 8 data, bf_numBits = of_nat (le_val (take 4 data)),
      bf_numHashes = of_nat (le_val (take 4 (drop 4 data)))\<rparr>"

section \<open>No false negatives\<close>

definition bloom_ok :: "bloomFilter \<Rightarrow> bool" where
  "bloom_ok bf \<longleftrightarrow> 0 < bf_numBits bf \<and> unat (bf_numBits bf) = 8 * length (bf_bits bf)"

definition has_pos :: "bytes \<Rightarrow> nat \<Rightarrow> bool" where
  "has_pos bits pos \<longleftrightarrow> bit (bits ! (pos div 8)) (pos mod 8)"

lemma has_pos_iff: "bits ! (pos div 8) AND push_bit (pos mod 8) 1 \<noteq> 0 \<longleftrightarrow> has_pos bits pos"
  by (simp add: has_pos_def and_exp_eq_0_iff_not_bit)

lemma MayContain_iff:
  "bloom_MayContain bf key \<longleftrightarrow> (\<forall>i < unat (bf_numHashes bf). has_pos (bf_bits bf) (bloom_pos bf key i))"
  by (auto simp: bloom_MayContain_def Let_def has_pos_iff list_all_iff simp del: push_bit_of_1)

lemma set_pos_length [simp]: "length (set_pos p bits) = length bits"
  by (simp add: set_pos_def)

lemma set_pos_sets: "p div 8 < length bits \<Longrightarrow> has_pos (set_pos p bits) p"
  by (simp add: has_pos_def set_pos_def bit_simps)

lemma set_pos_mono: "has_pos bits q \<Longrightarrow> has_pos (set_pos p bits) q"
  by (cases "p div 8 < length bits"; cases "p div 8 = q div 8")
    (auto simp: has_pos_def set_pos_def bit_or_iff list_update_beyond)

lemma fold_set_pos_length [simp]: "length (fold (\<lambda>i. set_pos (f i)) is bits) = length bits"
  by (induction "is" arbitrary: bits) simp_all

lemma fold_set_pos_mono: "has_pos bits q \<Longrightarrow> has_pos (fold (\<lambda>i. set_pos (f i)) is bits) q"
  by (induction "is" arbitrary: bits) (simp_all add: set_pos_mono)

lemma fold_set_pos_sets:
  "i \<in> set is \<Longrightarrow> f i div 8 < length bits \<Longrightarrow> has_pos (fold (\<lambda>i. set_pos (f i)) is bits) (f i)"
  by (induction "is" arbitrary: bits) (auto simp: fold_set_pos_mono set_pos_sets)

lemma bloom_pos_bound:
  assumes "bloom_ok bf"
  shows "bloom_pos bf key i div 8 < length (bf_bits bf)"
proof -
  let ?m = "ucast (bf_numBits bf) :: u64"
  have m: "unat ?m = unat (bf_numBits bf)" 
    using unat_u32_less [of "bf_numBits bf"] by (simp add: unsigned_ucast_eq take_bit_nat_eq_self)
  have "0 < unat (bf_numBits bf)" using assms by (auto simp: bloom_ok_def word_less_nat_alt)
  then have "unat ((a :: u64) mod ?m) < unat (bf_numBits bf)" for a
    using m by (simp add: unat_mod)
  then have "bloom_pos bf key i < 8 * length (bf_bits bf)"
    using assms by (simp add: bloom_pos_def bloom_ok_def Let_def split: prod.split)
  then show ?thesis by simp
qed

lemma bloom_Add_frame:
  "bf_numBits (bloom_Add bf key) = bf_numBits bf" "bf_numHashes (bloom_Add bf key) = bf_numHashes bf"
  "bloom_pos (bloom_Add bf key) = bloom_pos bf" "bloom_ok (bloom_Add bf key) = bloom_ok bf"
  by (auto simp: bloom_Add_def bloom_pos_def bloom_ok_def fun_eq_iff)

lemma bloom_Add_contains: "bloom_ok bf \<Longrightarrow> bloom_MayContain (bloom_Add bf key) key"
  unfolding MayContain_iff bloom_Add_frame
  by (auto simp: bloom_Add_def intro!: fold_set_pos_sets bloom_pos_bound)

lemma bloom_Add_mono: "bloom_MayContain bf key \<Longrightarrow> bloom_MayContain (bloom_Add bf key') key"
  unfolding MayContain_iff bloom_Add_frame
  by (auto simp: bloom_Add_def intro!: fold_set_pos_mono)

definition bloom_of :: "bloomFilter \<Rightarrow> bytes list \<Rightarrow> bloomFilter" where
  "bloom_of bf keys = foldl bloom_Add bf keys"

lemma bloom_of_mono: "bloom_MayContain bf key \<Longrightarrow> bloom_MayContain (bloom_of bf keys) key"
  unfolding bloom_of_def by (induction keys arbitrary: bf) (simp_all add: bloom_Add_mono)

lemma bloom_of_contains: "bloom_ok bf \<Longrightarrow> key \<in> set keys \<Longrightarrow> bloom_MayContain (bloom_of bf keys) key"
proof (induction keys arbitrary: bf)
  case (Cons x keys)
  then show ?case
    using bloom_of_mono [OF bloom_Add_contains [of bf x], of keys]
    by (auto simp: bloom_of_def bloom_Add_frame)
qed simp

lemma bloom_of_frame:
  "bf_numBits (bloom_of bf keys) = bf_numBits bf" "bf_numHashes (bloom_of bf keys) = bf_numHashes bf"
  "bloom_ok (bloom_of bf keys) = bloom_ok bf"
  unfolding bloom_of_def by (induction keys arbitrary: bf) (simp_all add: bloom_Add_frame)

lemma NewBloomFilter_ok:
  assumes "rawBits \<le> 0xfffffff8"
  shows "bloom_ok (NewBloomFilter rawBits rawHashes)"
proof -
  define n where "n = unat rawBits"
  have n: "n \<le> 4294967288" using assms by (simp add: n_def word_le_nat_alt)
  have r: "rawBits = of_nat n" by (simp add: n_def)
  have "unat (rawBits mod 8) = n mod 8" by (simp add: n_def unat_mod)
  then have md: "rawBits mod 8 \<noteq> 0 \<longleftrightarrow> n mod 8 \<noteq> 0" by (metis unsigned_eq_0_iff)
  have "rawBits div 8 = of_nat (unat (rawBits div 8))" by simp
  also have "unat (rawBits div 8) = n div 8" by (simp add: n_def unat_div)
  finally have eq: "(rawBits div 8 + 1) * 8 = of_nat ((n div 8 + 1) * 8)" by simp
  have up: "unat ((rawBits div 8 + 1) * 8) = (n div 8 + 1) * 8" if "n mod 8 \<noteq> 0"
  proof -
    have "n \<noteq> 4294967288" using that by auto
    then have "n < 536870911 * 8" using n by simp
    then have "n div 8 < 536870911" by (rule less_mult_imp_div_less)
    then have "(n div 8 + 1) * 8 < 4294967296" by simp
    then show ?thesis unfolding eq by (simp only: unat_u32_of_nat mod_less)
  qed
  define nb where "nb = (if rawBits mod 8 \<noteq> 0 then (rawBits div 8 + 1) * 8 else rawBits)"
  define nb' where "nb' = (if nb < 8 then 8 else nb)"
  have "unat nb mod 8 = 0" using md up by (auto simp: nb_def n_def)
  then have m: "unat nb' mod 8 = 0" by (simp add: nb'_def)
  have "0 < nb'" by (auto simp: nb'_def word_less_nat_alt)
  moreover have "8 * unat (nb' div 8) = unat nb'"
    using m by (simp add: unat_div) (metis mod_eq_0_iff_dvd dvd_mult_div_cancel)
  moreover have "NewBloomFilter rawBits rawHashes =
      \<lparr>bf_bits = replicate (unat (nb' div 8)) 0, bf_numBits = nb',
       bf_numHashes = (if rawHashes < 1 then 1 else rawHashes)\<rparr>"
    unfolding NewBloomFilter_def Let_def nb'_def nb_def by (rule refl)
  ultimately show ?thesis by (simp add: bloom_ok_def)
qed

lemma DecodeBloomFilter_Encode: "DecodeBloomFilter (bloom_Encode bf) = bf"
proof -
  have "unat (w :: u32) mod 256 ^ 4 = unat w" for w
    using unat_u32_less [of w] by simp
  then show ?thesis
    by (simp add: DecodeBloomFilter_def bloom_Encode_def codec_simps)
qed

section \<open>Properties\<close>

text \<open>(C25) A Bloom filter never denies a key that was added, however it was sized below the
  \<open>uint32\<close> limit, and neither does the filter read back from its encoding.\<close>

theorem bloom_no_false_negatives:
  fixes rawHashes :: u32
  assumes "rawBits \<le> 0xfffffff8" and "key \<in> set keys"
  defines "bf \<equiv> foldl bloom_Add (NewBloomFilter rawBits rawHashes) keys"
  shows "bloom_MayContain bf key \<and> bloom_MayContain (DecodeBloomFilter (bloom_Encode bf)) key"
  using bloom_of_contains [OF NewBloomFilter_ok [OF assms(1)] assms(2)]
  by (simp add: bf_def bloom_of_def DecodeBloomFilter_Encode)

theorem bloom_no_false_negatives_witness:
  "bloom_MayContain (foldl bloom_Add (NewBloomFilter 20 3) [[7], [1, 2]]) [1, 2]"
  using bloom_no_false_negatives [of 20 "[1, 2]" "[[7], [1, 2]]" 3] by simp

end
