(* ===== verification/Lsm_Iterator.thy ===== *)
theory Lsm_Iterator
  imports Storage
begin

text \<open>
  The iterators of the LSM tree (\<open>internal/storage/lsm/iterator.go\<close>) over the method table
  of a \<open>storage.Iterator\<close>. \<open>merge_ops\<close> is \<open>MergeIterator\<close> over a list of iterators, the
  newest source first, and \<open>filter_ops\<close> is \<open>DeletedFilterIterator\<close>; \<open>None\<close> stands for a call
  that never returns. The locale \<open>raw_iterator\<close> is the contract of an ordered
  iterator that shows tombstones; the sublocale shows that merging keeps it, with the
  newest source winning on every key, and the filter lemmas that filtering leaves
  exactly the live keys.
\<close>

record 'i iterator_ops =
  ri_Seek :: "'i \<Rightarrow> bytes \<Rightarrow> (bool \<times> 'i) option"
  ri_Next :: "'i \<Rightarrow> (bool \<times> 'i) option"
  ri_Prev :: "'i \<Rightarrow> (bool \<times> 'i) option"
  ri_Valid :: "'i \<Rightarrow> bool"
  ri_Key :: "'i \<Rightarrow> bytes"
  ri_Value :: "'i \<Rightarrow> bytes"
  ri_IsTombstone :: "'i \<Rightarrow> bool"

section \<open>Merging\<close>

record 'i merge_iter =
  mi_iters :: "'i list"
  mi_winner :: "nat option"

definition pick_step :: "'i iterator_ops \<Rightarrow> 'i list \<Rightarrow> nat \<Rightarrow> nat option \<Rightarrow> nat option" where
  "pick_step ops iters idx winner =
     (let iter = iters ! idx
      in if \<not> ri_Valid ops iter then winner
         else case winner of
           None \<Rightarrow> Some idx
         | Some w \<Rightarrow>
             if ri_Key ops iter < ri_Key ops (iters ! w) \<or>
                ri_Key ops iter = ri_Key ops (iters ! w) \<and> idx < w
             then Some idx else Some w)"

definition pickWinner :: "'i iterator_ops \<Rightarrow> 'i list \<Rightarrow> nat option" where
  "pickWinner ops iters = fold (pick_step ops iters) [0..<length iters] None"

definition with_winner :: "'i iterator_ops \<Rightarrow> 'i list \<Rightarrow> 'i merge_iter" where
  "with_winner ops iters = \<lparr>mi_iters = iters, mi_winner = pickWinner ops iters\<rparr>"

definition NewMergeIterator :: "'i iterator_ops \<Rightarrow> 'i list \<Rightarrow> 'i merge_iter" where
  "NewMergeIterator ops iters = with_winner ops iters"

definition merge_Valid :: "'i merge_iter \<Rightarrow> bool" where
  "merge_Valid it \<longleftrightarrow> mi_winner it \<noteq> None"

definition winner_iter :: "'i merge_iter \<Rightarrow> 'i" where
  "winner_iter it = mi_iters it ! (case mi_winner it of None \<Rightarrow> 0 | Some w \<Rightarrow> w)"

definition merge_Key :: "'i iterator_ops \<Rightarrow> 'i merge_iter \<Rightarrow> bytes" where
  "merge_Key ops it = ri_Key ops (winner_iter it)"

definition merge_Value :: "'i iterator_ops \<Rightarrow> 'i merge_iter \<Rightarrow> bytes" where
  "merge_Value ops it = ri_Value ops (winner_iter it)"

definition merge_IsTombstone :: "'i iterator_ops \<Rightarrow> 'i merge_iter \<Rightarrow> bool" where
  "merge_IsTombstone ops it = ri_IsTombstone ops (winner_iter it)"

text \<open>A call on every iterator of the list, in order.\<close>

fun for_each :: "('i \<Rightarrow> 'i option) \<Rightarrow> 'i list \<Rightarrow> 'i list option" where
  "for_each f [] = Some []"
| "for_each f (i # is) =
     (case f i of
        None \<Rightarrow> None
      | Some i' \<Rightarrow> map_option (\<lambda>is'. i' # is') (for_each f is))"

definition repick :: "'i iterator_ops \<Rightarrow> 'i list option \<Rightarrow> (bool \<times> 'i merge_iter) option" where
  "repick ops r = map_option (\<lambda>iters. let it = with_winner ops iters in (merge_Valid it, it)) r"

definition merge_Seek :: "'i iterator_ops \<Rightarrow> 'i merge_iter \<Rightarrow> bytes \<Rightarrow> (bool \<times> 'i merge_iter) option" where
  "merge_Seek ops it key =
     repick ops (for_each (\<lambda>i. map_option snd (ri_Seek ops i key)) (mi_iters it))"

definition step_if_at ::
  "'i iterator_ops \<Rightarrow> ('i \<Rightarrow> (bool \<times> 'i) option) \<Rightarrow> bytes \<Rightarrow> 'i \<Rightarrow> 'i option" where
  "step_if_at ops step currentKey i =
     (if ri_Valid ops i \<and> ri_Key ops i = currentKey then map_option snd (step i) else Some i)"

definition merge_Next :: "'i iterator_ops \<Rightarrow> 'i merge_iter \<Rightarrow> (bool \<times> 'i merge_iter) option" where
  "merge_Next ops it =
     (if \<not> merge_Valid it then Some (False, it)
      else repick ops (for_each (step_if_at ops (ri_Next ops) (merge_Key ops it)) (mi_iters it)))"

definition merge_Prev :: "'i iterator_ops \<Rightarrow> 'i merge_iter \<Rightarrow> (bool \<times> 'i merge_iter) option" where
  "merge_Prev ops it =
     (if \<not> merge_Valid it then Some (False, it)
      else repick ops (for_each (step_if_at ops (ri_Prev ops) (merge_Key ops it)) (mi_iters it)))"

definition merge_ops :: "'i iterator_ops \<Rightarrow> 'i merge_iter iterator_ops" where
  "merge_ops ops =
     \<lparr>ri_Seek = merge_Seek ops, ri_Next = merge_Next ops, ri_Prev = merge_Prev ops,
      ri_Valid = merge_Valid, ri_Key = merge_Key ops, ri_Value = merge_Value ops,
      ri_IsTombstone = merge_IsTombstone ops\<rparr>"

section \<open>Filtering tombstones\<close>

partial_function (option) filter_skip :: "'i iterator_ops \<Rightarrow> 'i \<Rightarrow> 'i option" where
  "filter_skip ops i =
     (if ri_Valid ops i \<and> ri_IsTombstone ops i
      then (case ri_Next ops i of None \<Rightarrow> None | Some (_, i') \<Rightarrow> filter_skip ops i')
      else Some i)"

definition filter_Seek :: "'i iterator_ops \<Rightarrow> 'i \<Rightarrow> bytes \<Rightarrow> (bool \<times> 'i) option" where
  "filter_Seek ops i key =
     (case ri_Seek ops i key of
        None \<Rightarrow> None
      | Some (ok, i') \<Rightarrow>
          if \<not> ok then Some (False, i')
          else map_option (\<lambda>i''. (ri_Valid ops i'', i'')) (filter_skip ops i'))"

partial_function (option) filter_step ::
  "'i iterator_ops \<Rightarrow> ('i \<Rightarrow> (bool \<times> 'i) option) \<Rightarrow> 'i \<Rightarrow> (bool \<times> 'i) option" where
  "filter_step ops step i =
     (case step i of
        None \<Rightarrow> None
      | Some (ok, i') \<Rightarrow>
          if \<not> ok then Some (False, i')
          else if \<not> ri_IsTombstone ops i' then Some (True, i')
          else filter_step ops step i')"

definition filter_Next :: "'i iterator_ops \<Rightarrow> 'i \<Rightarrow> (bool \<times> 'i) option" where
  "filter_Next ops i = filter_step ops (ri_Next ops) i"

definition filter_Prev :: "'i iterator_ops \<Rightarrow> 'i \<Rightarrow> (bool \<times> 'i) option" where
  "filter_Prev ops i = filter_step ops (ri_Prev ops) i"

definition filter_ops :: "'i iterator_ops \<Rightarrow> 'i iterator_ops" where
  "filter_ops ops =
     ops\<lparr>ri_Seek := filter_Seek ops, ri_Next := filter_Next ops, ri_Prev := filter_Prev ops,
         ri_IsTombstone := (\<lambda>i. False)\<rparr>"

lemma filter_IsTombstone [simp]: "\<not> ri_IsTombstone (filter_ops ops) i"
  by (simp add: filter_ops_def)

section \<open>The contract of an ordered iterator with tombstones\<close>

type_synonym cell = "bytes \<times> (bytes \<times> bool)"

locale raw_iterator =
  fixes ops :: "'i iterator_ops"
    and iok :: "'i \<Rightarrow> bool"
    and all_cells :: "'i \<Rightarrow> cell list"
    and rest_cells :: "'i \<Rightarrow> cell list"
  assumes all_sorted: "iok i \<Longrightarrow> sorted_wrt (<) (map fst (all_cells i))"
    and rest_sorted: "iok i \<Longrightarrow> sorted_wrt (<) (map fst (rest_cells i))"
    and Seek: "iok i \<Longrightarrow>
      \<exists>i'. ri_Seek ops i k = Some (rest_cells i' \<noteq> [], i') \<and> iok i' \<and> all_cells i' = all_cells i \<and>
        rest_cells i' = dropWhile (\<lambda>c. fst c < k) (all_cells i)"
    and Next: "iok i \<Longrightarrow> rest_cells i \<noteq> [] \<Longrightarrow>
      \<exists>i'. ri_Next ops i = Some (rest_cells i' \<noteq> [], i') \<and> iok i' \<and> all_cells i' = all_cells i \<and>
        rest_cells i' = tl (rest_cells i)"
    and Valid: "iok i \<Longrightarrow> ri_Valid ops i \<longleftrightarrow> rest_cells i \<noteq> []"
    and Cell: "iok i \<Longrightarrow> rest_cells i = (k, v, t) # r \<Longrightarrow>
      ri_Key ops i = k \<and> ri_Value ops i = v \<and> ri_IsTombstone ops i = t"

section \<open>Merged maps\<close>

text \<open>What a list of sorted sources stands for: the first source that has a key decides.\<close>

fun merged :: "cell list list \<Rightarrow> bytes \<rightharpoonup> (bytes \<times> bool)" where
  "merged [] = Map.empty"
| "merged (c # cs) = merged cs ++ map_of c"

lemma finite_merged [simp]: "finite (dom (merged cs))"
  by (induction cs) (simp_all add: finite_dom_map_of)

lemma merged_apply: "merged (c # cs) k = (case map_of c k of None \<Rightarrow> merged cs k | Some x \<Rightarrow> Some x)"
  by (simp add: map_add_def)

lemma dom_merged: "dom (merged cs) = (\<Union>c \<in> set cs. fst ` set c)"
  by (induction cs) (auto simp: dom_map_of_conv_image_fst)

lemma map_of_dropWhile:
  assumes "sorted_wrt (<) (map fst c)"
  shows "map_of (dropWhile (\<lambda>p. fst p < k) c) = from_key k (map_of c)"
  unfolding sorted_dropWhile_eq_filter [OF assms]
  by (induction c) (auto simp: from_key_apply fun_eq_iff)

lemma merged_dropWhile:
  "\<forall>c \<in> set cs. sorted_wrt (<) (map fst c) \<Longrightarrow>
   merged (map (dropWhile (\<lambda>p. fst p < k)) cs) = from_key k (merged cs)"
  by (induction cs) (auto simp: map_of_dropWhile merged_apply from_key_apply fun_eq_iff map_add_def split: option.split)

definition drop_key :: "bytes \<Rightarrow> cell list \<Rightarrow> cell list" where
  "drop_key k c = (if c \<noteq> [] \<and> fst (hd c) = k then tl c else c)"

lemma map_of_drop_key:
  assumes "sorted_wrt (<) (map fst c)" and "\<forall>x \<in> set c. k \<le> fst x"
  shows "map_of (drop_key k c) = (map_of c)(k := None)"
proof (cases c)
  case (Cons x xs)
  have "map_of xs k = None" if "fst x = k"
    using assms(1) Cons that by (auto simp: map_of_eq_None_iff)
  moreover have "map_of c k = None" if "fst x \<noteq> k"
  proof -
    have "k < fst x" using assms(2) Cons that by (auto simp: less_le)
    then have "k \<notin> fst ` set c" using assms(1) Cons by auto
    then show ?thesis by (simp add: map_of_eq_None_iff)
  qed
  ultimately show ?thesis using Cons by (cases x) (auto simp: drop_key_def fun_eq_iff)
qed (simp add: drop_key_def)

lemma merged_drop_key:
  "\<forall>c \<in> set cs. sorted_wrt (<) (map fst c) \<and> (\<forall>x \<in> set c. k \<le> fst x) \<Longrightarrow>
   merged (map (drop_key k) cs) = (merged cs)(k := None)"
  by (induction cs) (auto simp: map_of_drop_key merged_apply fun_eq_iff map_add_def split: option.split)

lemma merged_first:
  "w < length cs \<Longrightarrow> map_of (cs ! w) k = Some x \<Longrightarrow> \<forall>j < w. map_of (cs ! j) k = None \<Longrightarrow> merged cs k = Some x"
proof (induction cs arbitrary: w)
  case (Cons c cs)
  show ?case
  proof (cases w)
    case 0
    then show ?thesis using Cons.prems by (simp add: merged_apply)
  next
    case (Suc w')
    have "map_of c k = None" using Cons.prems(3) Suc by auto
    moreover have "\<forall>j < w'. map_of (cs ! j) k = None"
      using Cons.prems(3) Suc by (metis Suc_less_eq nth_Cons_Suc)
    then have "merged cs k = Some x" using Cons.IH [of w'] Cons.prems Suc by simp
    ultimately show ?thesis by (simp add: map_add_Some_iff)
  qed
qed simp

lemma for_each_rel:
  "(\<And>i. i \<in> set is \<Longrightarrow> \<exists>i'. f i = Some i' \<and> P i i') \<Longrightarrow>
   \<exists>is'. for_each f is = Some is' \<and> list_all2 P is is'"
proof (induction "is")
  case (Cons i "is")
  then obtain i' is' where "f i = Some i'" "P i i'" "for_each f is = Some is'" "list_all2 P is is'"
    by (meson list.set_intros)
  then show ?case by simp
qed simp

lemma list_all2_map_eq: "list_all2 P is is' \<Longrightarrow> (\<And>i i'. P i i' \<Longrightarrow> g i' = h i) \<Longrightarrow> map g is' = map h is"
  by (induction rule: list_all2_induct) auto

lemma list_all2_all: "list_all2 P is is' \<Longrightarrow> (\<And>i i'. P i i' \<Longrightarrow> Q i') \<Longrightarrow> \<forall>i \<in> set is'. Q i"
  by (induction rule: list_all2_induct) auto

section \<open>Merging keeps the contract\<close>

locale source_iterator = raw_iterator ops iok all_cells rest_cells
  for ops :: "'i iterator_ops" and iok and all_cells and rest_cells
begin

definition merge_ok :: "'i merge_iter \<Rightarrow> bool" where
  "merge_ok it \<longleftrightarrow> (\<forall>i \<in> set (mi_iters it). iok i) \<and> mi_winner it = pickWinner ops (mi_iters it)"

definition merge_all :: "'i merge_iter \<Rightarrow> cell list" where
  "merge_all it = entries (merged (map all_cells (mi_iters it)))"

definition merge_rest :: "'i merge_iter \<Rightarrow> cell list" where
  "merge_rest it = entries (merged (map rest_cells (mi_iters it)))"

lemma merge_sorted: "sorted_wrt (<) (map fst (merge_all it))" "sorted_wrt (<) (map fst (merge_rest it))"
  by (simp_all add: merge_all_def merge_rest_def sorted_wrt_entries)

lemma key_hd: "iok i \<Longrightarrow> rest_cells i \<noteq> [] \<Longrightarrow> ri_Key ops i = fst (hd (rest_cells i))"
  using Cell by (cases "rest_cells i") (auto split: prod.splits)

lemma hd_least:
  assumes "iok i" and "x \<in> set (rest_cells i)"
  shows "ri_Key ops i \<le> fst x"
proof -
  obtain y ys where r: "rest_cells i = y # ys" using assms(2) by (cases "rest_cells i") auto
  then show ?thesis using rest_sorted [OF assms(1)] key_hd [OF assms(1)] assms(2) by (auto simp: less_imp_le)
qed

lemma pickWinner_prefix:
  assumes "\<forall>i \<in> set is. iok i" and "n \<le> length is"
  shows "case fold (pick_step ops is) [0..<n] None of
      None \<Rightarrow> \<forall>j < n. rest_cells (is ! j) = []
    | Some w \<Rightarrow> w < n \<and> rest_cells (is ! w) \<noteq> [] \<and>
        (\<forall>j < n. rest_cells (is ! j) \<noteq> [] \<longrightarrow>
           ri_Key ops (is ! w) < ri_Key ops (is ! j) \<or>
           ri_Key ops (is ! w) = ri_Key ops (is ! j) \<and> w \<le> j)"
  using assms(2)
proof (induction n)
  case 0
  then show ?case by simp
next
  case (Suc n)
  have ok: "iok (is ! n)" using assms(1) Suc.prems by simp
  show ?case
  proof (cases "fold (pick_step ops is) [0..<n] None")
    case None
    then show ?thesis
      using Suc Valid [OF ok] by (auto simp: pick_step_def Let_def less_Suc_eq split: option.splits)
  next
    case (Some w)
    have w: "w < n" "rest_cells (is ! w) \<noteq> []" and best: "\<And>j. j < n \<Longrightarrow> rest_cells (is ! j) \<noteq> [] \<Longrightarrow>
        ri_Key ops (is ! w) < ri_Key ops (is ! j) \<or> ri_Key ops (is ! w) = ri_Key ops (is ! j) \<and> w \<le> j"
      using Suc Some by auto
    let ?better = "rest_cells (is ! n) \<noteq> [] \<and> ri_Key ops (is ! n) < ri_Key ops (is ! w)"
    have eq: "fold (pick_step ops is) [0..<Suc n] None = Some (if ?better then n else w)"
      using Some w(1) Valid [OF ok] by (auto simp: pick_step_def Let_def)
    show ?thesis
    proof (cases ?better)
      case True
      have "ri_Key ops (is ! n) < ri_Key ops (is ! j) \<or> ri_Key ops (is ! n) = ri_Key ops (is ! j) \<and> n \<le> j"
        if "j < Suc n" "rest_cells (is ! j) \<noteq> []" for j
        using best [of j] that True by (cases "j = n") auto
      then show ?thesis unfolding eq using True by simp
    next
      case False
      have "ri_Key ops (is ! w) < ri_Key ops (is ! j) \<or> ri_Key ops (is ! w) = ri_Key ops (is ! j) \<and> w \<le> j"
        if "j < Suc n" "rest_cells (is ! j) \<noteq> []" for j
        using best [of j] that False w(1) by (cases "j = n") auto
      then show ?thesis unfolding eq if_not_P [OF False] using w by (simp add: less_Suc_eq)
    qed
  qed
qed

lemma merge_rest_Cons:
  assumes "merge_ok it"
  shows "case mi_winner it of
      None \<Rightarrow> merge_rest it = []
    | Some w \<Rightarrow> w < length (mi_iters it) \<and> rest_cells (mi_iters it ! w) \<noteq> [] \<and>
        (\<forall>i \<in> set (mi_iters it). \<forall>x \<in> set (rest_cells i). ri_Key ops (mi_iters it ! w) \<le> fst x) \<and>
        merge_rest it = hd (rest_cells (mi_iters it ! w)) #
          entries ((merged (map rest_cells (mi_iters it)))(ri_Key ops (mi_iters it ! w) := None))"
proof -
  let ?is = "mi_iters it"
  have ok: "\<forall>i \<in> set ?is. iok i" using assms by (simp add: merge_ok_def)
  have pw: "mi_winner it = fold (pick_step ops ?is) [0..<length ?is] None"
    using assms by (simp add: merge_ok_def pickWinner_def)
  note P = pickWinner_prefix [OF ok order_refl, folded pw]
  show ?thesis
  proof (cases "mi_winner it")
    case None
    then have "\<forall>i \<in> set ?is. rest_cells i = []" using P by (auto simp: in_set_conv_nth)
    then have "dom (merged (map rest_cells ?is)) = {}" by (auto simp: dom_merged)
    then show ?thesis using None by (simp add: merge_rest_def entries_eq_Nil_iff)
  next
    case (Some w)
    let ?i = "?is ! w" and ?m = "merged (map rest_cells ?is)"
    have w: "w < length ?is" "rest_cells ?i \<noteq> []" and
      best: "\<And>j. j < length ?is \<Longrightarrow> rest_cells (?is ! j) \<noteq> [] \<Longrightarrow>
           ri_Key ops ?i < ri_Key ops (?is ! j) \<or> ri_Key ops ?i = ri_Key ops (?is ! j) \<and> w \<le> j"
      using P Some by auto
    obtain k v t r where r: "rest_cells ?i = (k, v, t) # r" using w(2) by (cases "rest_cells ?i") auto
    have iok: "iok ?i" using ok w(1) by simp
    have k: "ri_Key ops ?i = k" using key_hd [OF iok w(2)] r by simp
    have least: "\<forall>i \<in> set ?is. \<forall>x \<in> set (rest_cells i). k \<le> fst x"
    proof (intro ballI)
      fix i x assume i: "i \<in> set ?is" and x: "x \<in> set (rest_cells i)"
      then obtain j where j: "j < length ?is" "?is ! j = i" by (auto simp: in_set_conv_nth)
      have "rest_cells (?is ! j) \<noteq> []" using x j(2) by auto
      then have "k \<le> ri_Key ops i" using best [OF j(1)] j(2) k by auto
      then show "k \<le> fst x" using hd_least [of i x] i x ok by auto
    qed
    have "?m k = Some (v, t)"
    proof (rule merged_first)
      show "map_of (map rest_cells ?is ! w) k = Some (v, t)" using w(1) r by simp
      show "\<forall>j < w. map_of (map rest_cells ?is ! j) k = None"
      proof (intro allI impI)
        fix j assume j: "j < w"
        have "k \<notin> fst ` set (rest_cells (?is ! j))"
        proof
          assume "k \<in> fst ` set (rest_cells (?is ! j))"
          then obtain x where x: "x \<in> set (rest_cells (?is ! j))" "fst x = k" by auto
          moreover have "iok (?is ! j)" using ok j w(1) by simp
          ultimately have "ri_Key ops (?is ! j) \<le> k" using hd_least by blast
          moreover have "rest_cells (?is ! j) \<noteq> []" using x(1) by auto
          then have "k < ri_Key ops (?is ! j)" using best [of j] j w(1) k by auto
          ultimately show False by simp
        qed
        then show "map_of (map rest_cells ?is ! j) k = None" using j w(1) by (simp add: map_of_eq_None_iff)
      qed
    qed (use w(1) in simp)
    moreover have "\<forall>k' \<in> dom ?m. k \<le> k'" using least by (auto simp: dom_merged)
    ultimately have "merge_rest it = (k, v, t) # entries (?m(k := None))"
      unfolding merge_rest_def by (subst entries_Cons_iff) auto
    then show ?thesis using Some w r k least by simp
  qed
qed

lemma with_winner_ok: "\<forall>i \<in> set is. iok i \<Longrightarrow> merge_ok (with_winner ops is)"
  by (simp add: merge_ok_def with_winner_def)

lemma merge_Valid_iff: "merge_ok it \<Longrightarrow> merge_Valid it \<longleftrightarrow> merge_rest it \<noteq> []"
  using merge_rest_Cons [of it] by (auto simp: merge_Valid_def split: option.splits)

lemma repick_ok:
  "\<forall>i \<in> set is. iok i \<Longrightarrow>
   \<exists>it'. repick ops (Some is) = Some (merge_rest it' \<noteq> [], it') \<and> merge_ok it' \<and> mi_iters it' = is"
  using with_winner_ok merge_Valid_iff by (auto simp: repick_def Let_def with_winner_def)

lemma merge_Seek_ok:
  assumes "merge_ok it"
  shows "\<exists>it'. merge_Seek ops it k = Some (merge_rest it' \<noteq> [], it') \<and> merge_ok it' \<and>
    merge_all it' = merge_all it \<and> merge_rest it' = dropWhile (\<lambda>c. fst c < k) (merge_all it)"
proof -
  let ?P = "\<lambda>i i'. iok i' \<and> all_cells i' = all_cells i \<and> rest_cells i' = dropWhile (\<lambda>c. fst c < k) (all_cells i)"
  have ok: "\<forall>i \<in> set (mi_iters it). iok i" using assms by (simp add: merge_ok_def)
  have "\<exists>is'. for_each (\<lambda>i. map_option snd (ri_Seek ops i k)) (mi_iters it) = Some is' \<and>
      list_all2 ?P (mi_iters it) is'"
  proof (rule for_each_rel)
    fix i assume "i \<in> set (mi_iters it)"
    then show "\<exists>i'. map_option snd (ri_Seek ops i k) = Some i' \<and> ?P i i'" using Seek [of i k] ok by auto
  qed
  then obtain is' where f: "for_each (\<lambda>i. map_option snd (ri_Seek ops i k)) (mi_iters it) = Some is'"
    and l: "list_all2 ?P (mi_iters it) is'" by blast
  have a: "map all_cells is' = map all_cells (mi_iters it)"
    and r: "map rest_cells is' = map (dropWhile (\<lambda>c. fst c < k)) (map all_cells (mi_iters it))"
    using list_all2_map_eq [OF l, of all_cells all_cells]
      list_all2_map_eq [OF l, of rest_cells "\<lambda>i. dropWhile (\<lambda>c. fst c < k) (all_cells i)"]
    by (simp_all add: comp_def)
  have "\<forall>i \<in> set is'. iok i" using list_all2_all [OF l] by blast
  then obtain it' where it': "repick ops (Some is') = Some (merge_rest it' \<noteq> [], it')" "merge_ok it'" "mi_iters it' = is'"
    using repick_ok by blast
  have "merge_rest it' = entries (from_key k (merged (map all_cells (mi_iters it))))"
    unfolding merge_rest_def it'(3) r by (subst merged_dropWhile) (use ok all_sorted in auto)
  then have "merge_rest it' = dropWhile (\<lambda>c. fst c < k) (merge_all it)"
    by (simp add: merge_all_def dropWhile_entries)
  moreover have "merge_all it' = merge_all it" by (simp add: merge_all_def it'(3) a)
  ultimately show ?thesis using f it' by (simp add: merge_Seek_def)
qed

lemma merge_Next_ok:
  assumes "merge_ok it" and "merge_rest it \<noteq> []"
  shows "\<exists>it'. merge_Next ops it = Some (merge_rest it' \<noteq> [], it') \<and> merge_ok it' \<and>
    merge_all it' = merge_all it \<and> merge_rest it' = tl (merge_rest it)"
proof -
  obtain w where w: "mi_winner it = Some w" using merge_rest_Cons [OF assms(1)] assms(2) by (cases "mi_winner it") auto
  let ?k = "ri_Key ops (mi_iters it ! w)"
  have least: "\<forall>i \<in> set (mi_iters it). \<forall>x \<in> set (rest_cells i). ?k \<le> fst x"
    and tl: "tl (merge_rest it) = entries ((merged (map rest_cells (mi_iters it)))(?k := None))"
    using merge_rest_Cons [OF assms(1)] w by simp_all
  have key: "merge_Key ops it = ?k" by (simp add: merge_Key_def winner_iter_def w)
  let ?P = "\<lambda>i i'. iok i' \<and> all_cells i' = all_cells i \<and> rest_cells i' = drop_key ?k (rest_cells i)"
  have ok: "\<forall>i \<in> set (mi_iters it). iok i" using assms by (simp add: merge_ok_def)
  have "\<exists>is'. for_each (step_if_at ops (ri_Next ops) ?k) (mi_iters it) = Some is' \<and>
      list_all2 ?P (mi_iters it) is'"
  proof (rule for_each_rel)
    fix i assume i: "i \<in> set (mi_iters it)"
    then show "\<exists>i'. step_if_at ops (ri_Next ops) ?k i = Some i' \<and> ?P i i'"
      using Next [of i] Valid [of i] key_hd [of i] ok
      by (cases "rest_cells i = []") (auto simp: step_if_at_def drop_key_def)
  qed
  then obtain is' where f: "for_each (step_if_at ops (ri_Next ops) ?k) (mi_iters it) = Some is'"
    and l: "list_all2 ?P (mi_iters it) is'" by blast
  have a: "map all_cells is' = map all_cells (mi_iters it)"
    and r: "map rest_cells is' = map (drop_key ?k) (map rest_cells (mi_iters it))"
    using list_all2_map_eq [OF l, of all_cells all_cells]
      list_all2_map_eq [OF l, of rest_cells "\<lambda>i. drop_key ?k (rest_cells i)"]
    by (simp_all add: comp_def)
  have "\<forall>i \<in> set is'. iok i" using list_all2_all [OF l] by blast
  then obtain it' where it': "repick ops (Some is') = Some (merge_rest it' \<noteq> [], it')" "merge_ok it'" "mi_iters it' = is'"
    using repick_ok by blast
  have "merge_rest it' = entries ((merged (map rest_cells (mi_iters it)))(?k := None))"
    unfolding merge_rest_def it'(3) r by (subst merged_drop_key) (use ok rest_sorted least in auto)
  then have "merge_rest it' = tl (merge_rest it)" by (simp only: tl)
  moreover have "merge_all it' = merge_all it" by (simp add: merge_all_def it'(3) a)
  moreover have "merge_Valid it" using w by (simp add: merge_Valid_def)
  ultimately show ?thesis using f it' key by (simp add: merge_Next_def)
qed

lemma merge_Cell_ok:
  assumes "merge_ok it" and "merge_rest it = (k, v, t) # r"
  shows "merge_Key ops it = k \<and> merge_Value ops it = v \<and> merge_IsTombstone ops it = t"
proof -
  obtain w where w: "mi_winner it = Some w" using merge_rest_Cons [OF assms(1)] assms(2) by (cases "mi_winner it") auto
  then have "w < length (mi_iters it)" "rest_cells (mi_iters it ! w) \<noteq> []" "hd (rest_cells (mi_iters it ! w)) = (k, v, t)"
    using merge_rest_Cons [OF assms(1)] assms(2) by simp_all
  moreover have "iok (mi_iters it ! w)" using assms(1) calculation(1) by (simp add: merge_ok_def)
  ultimately show ?thesis
    using Cell [of "mi_iters it ! w" k v t "tl (rest_cells (mi_iters it ! w))"] w
    by (simp add: merge_Key_def merge_Value_def merge_IsTombstone_def winner_iter_def list.expand)
qed

end

sublocale source_iterator \<subseteq> merge: raw_iterator "merge_ops ops" merge_ok merge_all merge_rest
  by unfold_locales
    (simp_all add: merge_ops_def merge_sorted merge_Seek_ok merge_Next_ok merge_Valid_iff merge_Cell_ok)

section \<open>Filtering leaves the live keys\<close>

definition live :: "cell list \<Rightarrow> cell list" where
  "live cs = filter (\<lambda>c. \<not> snd (snd c)) cs"

lemma live_dropWhile_tomb [simp]: "live (dropWhile (\<lambda>c. snd (snd c)) cs) = live cs"
  by (induction cs) (simp_all add: live_def)

lemma live_sorted: "sorted_wrt (<) (map fst cs) \<Longrightarrow> sorted_wrt (<) (map fst (live cs))"
  using sorted_wrt_filter [of "\<lambda>p q. fst p < fst q" cs] by (simp add: live_def sorted_wrt_map)

lemma live_dropWhile_key:
  assumes "sorted_wrt (<) (map fst cs)"
  shows "live (dropWhile (\<lambda>c. fst c < k) cs) = dropWhile (\<lambda>c. fst c < k) (live cs)"
  unfolding sorted_dropWhile_eq_filter [OF assms] sorted_dropWhile_eq_filter [OF live_sorted [OF assms]]
  by (induction cs) (auto simp: live_def)

lemma dropWhile_hd: "xs = dropWhile P ys \<Longrightarrow> xs \<noteq> [] \<Longrightarrow> \<not> P (hd xs)"
  by (simp add: hd_dropWhile)

text \<open>A call that returns, and \<open>False\<close> for one that never does.\<close>

definition returned :: "'i \<Rightarrow> (bool \<times> 'i) option \<Rightarrow> bool \<times> 'i" where
  "returned i r = (case r of None \<Rightarrow> (False, i) | Some x \<Rightarrow> x)"

context raw_iterator
begin

definition filter_ok :: "'i \<Rightarrow> bool" where
  "filter_ok i \<longleftrightarrow> iok i \<and> (rest_cells i = [] \<or> \<not> snd (snd (hd (rest_cells i))))"

lemma filter_ok_live: "filter_ok i \<Longrightarrow> live (rest_cells i) = [] \<longleftrightarrow> rest_cells i = []"
  by (cases "rest_cells i") (auto simp: filter_ok_def live_def)

lemma tomb_hd: "iok i \<Longrightarrow> rest_cells i \<noteq> [] \<Longrightarrow> ri_IsTombstone ops i = snd (snd (hd (rest_cells i)))"
  using Cell by (cases "rest_cells i") (auto split: prod.splits)

lemma filter_skip_ok:
  "iok i \<Longrightarrow> \<exists>i'. filter_skip ops i = Some i' \<and> iok i' \<and> all_cells i' = all_cells i \<and>
     rest_cells i' = dropWhile (\<lambda>c. snd (snd c)) (rest_cells i)"
proof (induction "length (rest_cells i)" arbitrary: i)
  case 0
  then show ?case using Valid [of i] by (subst filter_skip.simps) simp
next
  case (Suc n)
  then have ne: "rest_cells i \<noteq> []" by auto
  show ?case
  proof (cases "snd (snd (hd (rest_cells i)))")
    case True
    obtain j where j: "ri_Next ops i = Some (rest_cells j \<noteq> [], j)" "iok j" "all_cells j = all_cells i"
        "rest_cells j = tl (rest_cells i)"
      using Next [OF Suc.prems ne] by blast
    have "n = length (rest_cells j)" using Suc.hyps(2) j(4) by simp
    then obtain i' where i': "filter_skip ops j = Some i' \<and> iok i' \<and> all_cells i' = all_cells j \<and>
        rest_cells i' = dropWhile (\<lambda>c. snd (snd c)) (rest_cells j)"
      using Suc.hyps(1) [of j] j(2) by blast
    have "filter_skip ops i = filter_skip ops j"
      using tomb_hd [OF Suc.prems ne] Valid [OF Suc.prems] True j(1) ne by (subst filter_skip.simps) simp
    moreover have "dropWhile (\<lambda>c. snd (snd c)) (rest_cells i) = dropWhile (\<lambda>c. snd (snd c)) (rest_cells j)"
      using True j(4) ne by (cases "rest_cells i") simp_all
    ultimately show ?thesis using i' j(3) by simp
  next
    case False
    then have "filter_skip ops i = Some i"
      using tomb_hd [OF Suc.prems ne] by (subst filter_skip.simps) simp
    moreover have "dropWhile (\<lambda>c. snd (snd c)) (rest_cells i) = rest_cells i"
      using False by (cases "rest_cells i") simp_all
    ultimately show ?thesis using Suc.prems by simp
  qed
qed

lemma filter_Next_ok:
  "iok i \<Longrightarrow> rest_cells i \<noteq> [] \<Longrightarrow>
   \<exists>i'. filter_Next ops i = Some (rest_cells i' \<noteq> [], i') \<and> iok i' \<and> all_cells i' = all_cells i \<and>
     rest_cells i' = dropWhile (\<lambda>c. snd (snd c)) (tl (rest_cells i))"
proof (induction "length (rest_cells i)" arbitrary: i rule: less_induct)
  case less
  obtain j where j: "ri_Next ops i = Some (rest_cells j \<noteq> [], j)" "iok j" "all_cells j = all_cells i"
      "rest_cells j = tl (rest_cells i)"
    using Next [OF less.prems] by blast
  show ?case
  proof (cases "rest_cells j \<noteq> [] \<and> snd (snd (hd (rest_cells j)))")
    case True
    have "length (rest_cells j) < length (rest_cells i)" using j(4) less.prems(2) by (cases "rest_cells i") auto
    then obtain i' where i': "filter_Next ops j = Some (rest_cells i' \<noteq> [], i')" "iok i'" "all_cells i' = all_cells j"
        "rest_cells i' = dropWhile (\<lambda>c. snd (snd c)) (tl (rest_cells j))"
      using less.hyps [of j] j(2) True by blast
    have "filter_Next ops i = filter_Next ops j"
      using j(1,2) True tomb_hd [OF j(2)] unfolding filter_Next_def by (subst filter_step.simps) simp
    moreover have "dropWhile (\<lambda>c. snd (snd c)) (tl (rest_cells i)) = rest_cells i'"
      unfolding i'(4) j(4) [symmetric] using True by (cases "rest_cells j") auto
    ultimately show ?thesis using i' j(3) by simp
  next
    case False
    then have "filter_Next ops i = Some (rest_cells j \<noteq> [], j)"
      using j(1,2) tomb_hd [OF j(2)] unfolding filter_Next_def
      by (subst filter_step.simps) auto
    moreover have "dropWhile (\<lambda>c. snd (snd c)) (tl (rest_cells i)) = rest_cells j"
      unfolding j(4) [symmetric] using False by (cases "rest_cells j") auto
    ultimately show ?thesis using j by simp
  qed
qed

lemma live_Seek:
  assumes "iok i"
  shows "\<exists>i'. filter_Seek ops i k = Some (live (rest_cells i') \<noteq> [], i') \<and> filter_ok i' \<and>
    all_cells i' = all_cells i \<and> live (rest_cells i') = dropWhile (\<lambda>c. fst c < k) (live (all_cells i))"
proof -
  obtain j where j: "ri_Seek ops i k = Some (rest_cells j \<noteq> [], j)" "iok j" "all_cells j = all_cells i"
      "rest_cells j = dropWhile (\<lambda>c. fst c < k) (all_cells i)"
    using Seek [OF assms] by blast
  have lv: "live (rest_cells j) = dropWhile (\<lambda>c. fst c < k) (live (all_cells i))"
    unfolding j(4) by (rule live_dropWhile_key [OF all_sorted [OF assms]])
  obtain i' where i': "filter_skip ops j = Some i'" "iok i'" "all_cells i' = all_cells j"
      "rest_cells i' = dropWhile (\<lambda>c. snd (snd c)) (rest_cells j)"
    using filter_skip_ok [OF j(2)] by blast
  show ?thesis
  proof (cases "rest_cells j = []")
    case True
    then have "filter_Seek ops i k = Some (False, j)" using j(1) by (simp add: filter_Seek_def)
    moreover have "filter_ok j" using j(2) True by (simp add: filter_ok_def)
    ultimately show ?thesis using lv j(3) True by (intro exI [of _ j]) (simp add: live_def)
  next
    case False
    have ok: "filter_ok i'" using i'(2) dropWhile_hd [OF i'(4)] by (auto simp: filter_ok_def)
    have "filter_Seek ops i k = Some (rest_cells i' \<noteq> [], i')"
      using False j(1) i'(1) Valid [OF i'(2)] by (simp add: filter_Seek_def)
    then have "filter_Seek ops i k = Some (live (rest_cells i') \<noteq> [], i')"
      using filter_ok_live [OF ok] by simp
    moreover have "live (rest_cells i') = live (rest_cells j)" unfolding i'(4) by simp
    ultimately show ?thesis using lv j(3) i'(3) ok by auto
  qed
qed

lemma live_Next:
  assumes "filter_ok i" and "live (rest_cells i) \<noteq> []"
  shows "\<exists>i'. filter_Next ops i = Some (live (rest_cells i') \<noteq> [], i') \<and> filter_ok i' \<and>
    all_cells i' = all_cells i \<and> live (rest_cells i') = tl (live (rest_cells i))"
proof -
  have ne: "rest_cells i \<noteq> []" using assms filter_ok_live by blast
  have ok: "iok i" and hd: "\<not> snd (snd (hd (rest_cells i)))" using assms(1) ne by (auto simp: filter_ok_def)
  obtain i' where i': "filter_Next ops i = Some (rest_cells i' \<noteq> [], i')" "iok i'" "all_cells i' = all_cells i"
      "rest_cells i' = dropWhile (\<lambda>c. snd (snd c)) (tl (rest_cells i))"
    using filter_Next_ok [OF ok ne] by blast
  have ok': "filter_ok i'" using i'(2) dropWhile_hd [OF i'(4)] by (auto simp: filter_ok_def)
  have "live (rest_cells i') = live (tl (rest_cells i))" unfolding i'(4) by simp
  also have "\<dots> = tl (live (rest_cells i))" using ne hd by (cases "rest_cells i") (auto simp: live_def)
  finally show ?thesis using i' ok' filter_ok_live [OF ok'] by auto
qed

lemma live_Valid: "filter_ok i \<Longrightarrow> ri_Valid ops i \<longleftrightarrow> live (rest_cells i) \<noteq> []"
  using filter_ok_live [of i] Valid [of i] by (simp add: filter_ok_def)

lemma live_Cell:
  assumes "filter_ok i" and "live (rest_cells i) = (k, v, t) # r"
  shows "ri_Key ops i = k \<and> ri_Value ops i = v \<and> \<not> t"
proof -
  obtain c r' where c: "rest_cells i = c # r'"
    using assms(2) by (cases "rest_cells i") (auto simp: live_def)
  then have "\<not> snd (snd c)" using assms(1) by (simp add: filter_ok_def)
  then have "c = (k, v, t)" "\<not> t" using assms(2) c by (auto simp: live_def)
  then show ?thesis using Cell [of i k v t r'] c assms(1) by (simp add: filter_ok_def)
qed

end

text \<open>So the filter is again an ordered iterator, on the live cells; and so is the filter of a merge.\<close>

locale filtered_iterator = raw_iterator ops iok all_cells rest_cells
  for ops :: "'i iterator_ops" and iok and all_cells and rest_cells

sublocale filtered_iterator \<subseteq> filt:
  raw_iterator "filter_ops ops" filter_ok "\<lambda>i. live (all_cells i)" "\<lambda>i. live (rest_cells i)"
proof
  fix i k v t r
  show "sorted_wrt (<) (map fst (live (all_cells i)))" if "filter_ok i"
    using that all_sorted live_sorted by (simp add: filter_ok_def)
  show "sorted_wrt (<) (map fst (live (rest_cells i)))" if "filter_ok i"
    using that rest_sorted live_sorted by (simp add: filter_ok_def)
  show "\<exists>i'. ri_Seek (filter_ops ops) i k = Some (live (rest_cells i') \<noteq> [], i') \<and> filter_ok i' \<and>
      live (all_cells i') = live (all_cells i) \<and> live (rest_cells i') = dropWhile (\<lambda>c. fst c < k) (live (all_cells i))"
    if "filter_ok i"
    using live_Seek [of i k] that by (auto simp: filter_ok_def filter_ops_def)
  show "\<exists>i'. ri_Next (filter_ops ops) i = Some (live (rest_cells i') \<noteq> [], i') \<and> filter_ok i' \<and>
      live (all_cells i') = live (all_cells i) \<and> live (rest_cells i') = tl (live (rest_cells i))"
    if "filter_ok i" "live (rest_cells i) \<noteq> []"
    using live_Next [OF that] by (auto simp: filter_ops_def)
  show "ri_Valid (filter_ops ops) i = (live (rest_cells i) \<noteq> [])" if "filter_ok i"
    using live_Valid [OF that] by (simp add: filter_ops_def)
  show "ri_Key (filter_ops ops) i = k \<and> ri_Value (filter_ops ops) i = v \<and> ri_IsTombstone (filter_ops ops) i = t"
    if "filter_ok i" "live (rest_cells i) = (k, v, t) # r"
    using live_Cell [OF that] by (simp add: filter_ops_def)
qed

sublocale source_iterator \<subseteq> mfilt: filtered_iterator "merge_ops ops" merge_ok merge_all merge_rest ..

end
