(* ===== verification/Lsm_Sst.thy ===== *)
theory Lsm_Sst
  imports Lsm_MemTable Lsm_Bloom Lsm_Iterator
begin

text \<open>
  SSTables (\<open>internal/storage/lsm/sstable_writer.go\<close>, \<open>sstable_reader.go\<close>) and the iterators
  at the leaves of a merge (\<open>memtable.go\<close>, \<open>sstable_reader.go\<close>). The file format is
  modelled byte by byte: \<open>sst_Add\<close> and \<open>sst_Finish\<close> write a file, \<open>OpenSSTable\<close> and
  \<open>readRecordAt\<close> read it. The search loops take the record reader as an argument, so that
  they serve both the reader of a file and a \<open>table\<close>, the list of records a file holds.
  \<open>OpenSSTable_written\<close> connects the two: opening a written file reads the written
  records back. The engine's model works on tables.
\<close>

section \<open>The writer\<close>

text \<open>\<open>w_records\<close> is a ghost: the records whose bytes are in \<open>w_data\<close>.\<close>

record sst_writer =
  w_data :: bytes
  w_offsets :: "nat list"
  w_keys :: "bytes list"
  w_count :: nat
  w_records :: "memEntry list"

definition NewSSTableWriter :: sst_writer where
  "NewSSTableWriter = \<lparr>w_data = [], w_offsets = [], w_keys = [], w_count = 0, w_records = []\<rparr>"

definition sst_record_bytes :: "memEntry \<Rightarrow> bytes" where
  "sst_record_bytes e =
     le_bytes 4 (length (me_key e)) @ le_bytes 4 (length (me_value e)) @
     [if me_tombstone e then 1 else 0] @ me_key e @ me_value e"

definition sst_Add :: "sst_writer \<Rightarrow> bytes \<Rightarrow> bytes \<Rightarrow> bool \<Rightarrow> sst_writer" where
  "sst_Add w key value tombstone =
     (let record = \<lparr>me_key = key, me_value = value, me_tombstone = tombstone\<rparr>
      in \<lparr>w_data = w_data w @ sst_record_bytes record, w_offsets = w_offsets w @ [length (w_data w)],
          w_keys = w_keys w @ [key], w_count = w_count w + 1, w_records = w_records w @ [record]\<rparr>)"

text \<open>The sizes of the Bloom filter for a number of keys, computed in floating point by
  \<open>NewBloomFilter\<close>, are the argument \<open>sizing\<close>.\<close>

type_synonym bloom_sizing = "nat \<Rightarrow> u32 \<times> u32"

definition sst_bloom :: "bloom_sizing \<Rightarrow> nat \<Rightarrow> bytes list \<Rightarrow> bloomFilter" where
  "sst_bloom sizing count keys =
     bloom_of (case sizing (max count 1) of (rawBits, rawHashes) \<Rightarrow> NewBloomFilter rawBits rawHashes) keys"

definition sst_Finish :: "bloom_sizing \<Rightarrow> sst_writer \<Rightarrow> bytes" where
  "sst_Finish sizing w =
     (let indexOffset = length (w_data w);
          index = concat (map (le_bytes 8) (w_offsets w));
          bloomOffset = indexOffset + length index;
          bloomData = bloom_Encode (sst_bloom sizing (w_count w) (w_keys w));
          footer = le_bytes 8 (w_count w) @ le_bytes 8 indexOffset @ le_bytes 8 bloomOffset @
                   le_bytes 8 (length bloomData)
      in w_data w @ index @ bloomData @ footer)"

partial_function (option) write_loop :: "'i iterator_ops \<Rightarrow> 'i \<Rightarrow> sst_writer \<Rightarrow> sst_writer option" where
  "write_loop ops i w =
     (if ri_Valid ops i
      then (let w' = sst_Add w (ri_Key ops i) (ri_Value ops i) (ri_IsTombstone ops i)
            in case ri_Next ops i of None \<Rightarrow> None | Some (_, i') \<Rightarrow> write_loop ops i' w')
      else Some w)"

definition WriteSSTable_writer :: "'i iterator_ops \<Rightarrow> 'i \<Rightarrow> sst_writer option" where
  "WriteSSTable_writer ops i =
     (case ri_Seek ops i [] of
        None \<Rightarrow> None
      | Some (ok, i') \<Rightarrow> if ok then write_loop ops i' NewSSTableWriter else Some NewSSTableWriter)"

definition WriteSSTableFromIterator :: "bloom_sizing \<Rightarrow> 'i iterator_ops \<Rightarrow> 'i \<Rightarrow> bytes option" where
  "WriteSSTableFromIterator sizing ops i = map_option (sst_Finish sizing) (WriteSSTable_writer ops i)"

section \<open>The reader\<close>

definition ReadAt :: "bytes \<Rightarrow> nat \<Rightarrow> nat \<Rightarrow> bytes option" where
  "ReadAt file off n = (if off + n \<le> length file then Some (take n (drop off file)) else None)"

record sst_reader =
  sr_file :: bytes
  sr_offsets :: "nat list"
  sr_bloom :: "bloomFilter option"

fun read_offsets :: "nat \<Rightarrow> bytes \<Rightarrow> nat list result" where
  "read_offsets 0 r = Inr []"
| "read_offsets (Suc n) r =
     (if 8 \<le> length r
      then (case read_offsets n (drop 8 r) of
              Inl err \<Rightarrow> Inl err
            | Inr os \<Rightarrow> Inr (le_val (take 8 r) # os))
      else Inl (Wrap ''read offset index'' (if r = [] then EOF else ErrUnexpectedEOF)))"

text \<open>\<open>None\<close> stands for the slice panic of \<open>DecodeBloomFilter\<close> on fewer than eight bytes.\<close>

definition OpenSSTable :: "bytes \<Rightarrow> sst_reader result option" where
  "OpenSSTable file =
     (if length file < 32 then Some (Inl (Msg ''sstable too small''))
      else
        (let footer = drop (length file - 32) file;
             recordCount = le_val (take 8 footer);
             indexOffset = le_val (take 8 (drop 8 footer));
             bloomOffset = le_val (take 8 (drop 16 footer));
             bloomSize = le_val (take 8 (drop 24 footer))
         in case read_offsets recordCount (drop indexOffset file) of
              Inl err \<Rightarrow> Some (Inl err)
            | Inr offsets \<Rightarrow>
                if bloomSize = 0 then Some (Inr \<lparr>sr_file = file, sr_offsets = offsets, sr_bloom = None\<rparr>)
                else case ReadAt file bloomOffset bloomSize of
                    None \<Rightarrow> Some (Inl (Wrap ''read bloom filter'' EOF))
                  | Some data \<Rightarrow>
                      if length data < 8 then None
                      else Some (Inr \<lparr>sr_file = file, sr_offsets = offsets,
                                      sr_bloom = Some (DecodeBloomFilter data)\<rparr>)))"

definition readRecordAt :: "sst_reader \<Rightarrow> nat \<Rightarrow> memEntry option" where
  "readRecordAt r off =
     (case ReadAt (sr_file r) off 9 of
        None \<Rightarrow> None
      | Some header \<Rightarrow>
          (let klen = le_val (take 4 header);
               vlen = le_val (take 4 (drop 4 header));
               tombstone = (header ! 8 = 1)
           in case (if klen > 0 then ReadAt (sr_file r) (off + 9) klen else Some []) of
                None \<Rightarrow> None
              | Some key \<Rightarrow>
                  (case (if vlen > 0 then ReadAt (sr_file r) (off + 9 + klen) vlen else Some []) of
                     None \<Rightarrow> None
                   | Some value \<Rightarrow> Some \<lparr>me_key = key, me_value = value, me_tombstone = tombstone\<rparr>)))"

section \<open>Searching\<close>

text \<open>The loop of \<open>Get\<close>; \<open>rd i\<close> reads the \<open>i\<close>-th record.\<close>

function get_loop :: "(nat \<Rightarrow> memEntry option) \<Rightarrow> bytes \<Rightarrow> int \<Rightarrow> int \<Rightarrow> (bytes \<times> bool \<times> bool) result" where
  "get_loop rd key left right =
     (if left \<le> right then
        (let mid = left + (right - left) div 2
         in case rd (nat mid) of
              None \<Rightarrow> Inl EOF
            | Some e \<Rightarrow>
                if me_key e = key
                then (if me_tombstone e then Inr ([], True, True) else Inr (me_value e, True, False))
                else if me_key e < key then get_loop rd key (mid + 1) right
                else get_loop rd key left (mid - 1))
      else Inr ([], False, False))"
  by pat_completeness auto
termination
  by (relation "measure (\<lambda>(rd, key, left, right). nat (right - left + 1))") auto

declare get_loop.simps [simp del]

definition sst_Get ::
  "(nat \<Rightarrow> memEntry option) \<Rightarrow> nat \<Rightarrow> bloomFilter option \<Rightarrow> bytes \<Rightarrow> (bytes \<times> bool \<times> bool) result" where
  "sst_Get rd n bloom key =
     (if (case bloom of None \<Rightarrow> False | Some bf \<Rightarrow> \<not> bloom_MayContain bf key)
      then Inr ([], False, False)
      else get_loop rd key 0 (int n - 1))"

text \<open>The loop of \<open>Seek\<close>: the first record not below the key; \<open>None\<close> on a read error.\<close>

function seek_loop :: "(nat \<Rightarrow> memEntry option) \<Rightarrow> bytes \<Rightarrow> nat \<Rightarrow> nat \<Rightarrow> nat option" where
  "seek_loop rd key left right =
     (if left < right then
        (let mid = left + (right - left) div 2
         in case rd mid of
              None \<Rightarrow> None
            | Some e \<Rightarrow>
                if me_key e < key then seek_loop rd key (mid + 1) right
                else seek_loop rd key left mid)
      else Some left)"
  by pat_completeness auto
termination
  by (relation "measure (\<lambda>(rd, key, left, right). right - left)") auto

declare seek_loop.simps [simp del]

text \<open>\<open>sort.Search\<close> of the standard library.\<close>

function sort_Search :: "(nat \<Rightarrow> bool) \<Rightarrow> nat \<Rightarrow> nat \<Rightarrow> nat" where
  "sort_Search f i j =
     (if i < j then
        (let h = (i + j) div 2
         in if \<not> f h then sort_Search f (h + 1) j else sort_Search f i h)
      else i)"
  by pat_completeness auto
termination
  by (relation "measure (\<lambda>(f, i, j). j - i)") auto

declare sort_Search.simps [simp del]

section \<open>The source iterators\<close>

text \<open>A table: the records of an SSTable and its Bloom filter.\<close>

record table =
  tbl_records :: "memEntry list"
  tbl_bloom :: bloomFilter

definition table_rd :: "table \<Rightarrow> nat \<Rightarrow> memEntry option" where
  "table_rd t i = (if i < length (tbl_records t) then Some (tbl_records t ! i) else None)"

definition table_Get :: "table \<Rightarrow> bytes \<Rightarrow> (bytes \<times> bool \<times> bool) result" where
  "table_Get t key = sst_Get (table_rd t) (length (tbl_records t)) (Some (tbl_bloom t)) key"

definition table_of_writer :: "bloom_sizing \<Rightarrow> sst_writer \<Rightarrow> table" where
  "table_of_writer sizing w = \<lparr>tbl_records = w_records w, tbl_bloom = sst_bloom sizing (w_count w) (w_keys w)\<rparr>"

text \<open>\<open>WriteSSTableFromIterator\<close> followed by opening the file, as a table.\<close>

definition WriteSSTable_table :: "bloom_sizing \<Rightarrow> 'i iterator_ops \<Rightarrow> 'i \<Rightarrow> table option" where
  "WriteSSTable_table sizing ops i = map_option (table_of_writer sizing) (WriteSSTable_writer ops i)"

text \<open>\<open>MemTableIterator\<close>, \<open>MemTableSnapshotIterator\<close> and \<open>SSTableIterator\<close>, the values behind
  the \<open>storage.Iterator\<close> interface at the leaves.\<close>

datatype source_iter =
    MemIt memTable "nat option"
  | SnapIt "memEntry list" int
  | SSTIt table int "memEntry option"

definition load_record :: "table \<Rightarrow> int \<Rightarrow> bool \<times> source_iter" where
  "load_record t idx =
     (let r = (if idx < 0 \<or> idx \<ge> int (length (tbl_records t)) then None else table_rd t (nat idx))
      in (r \<noteq> None, SSTIt t idx r))"

fun source_Valid :: "source_iter \<Rightarrow> bool" where
  "source_Valid (MemIt m cur) \<longleftrightarrow> cur \<noteq> None"
| "source_Valid (SnapIt es idx) \<longleftrightarrow> idx \<ge> 0 \<and> idx < int (length es)"
| "source_Valid (SSTIt t idx r) \<longleftrightarrow> r \<noteq> None"

fun source_entry :: "source_iter \<Rightarrow> memEntry" where
  "source_entry (MemIt m cur) = node_entry (mt_nodes m ! the cur)"
| "source_entry (SnapIt es idx) = es ! nat idx"
| "source_entry (SSTIt t idx r) = the r"

definition memit_Seek :: "memTable \<Rightarrow> bytes \<Rightarrow> (bool \<times> source_iter) option" where
  "memit_Seek m key = map_option (\<lambda>c. (c \<noteq> None, MemIt m c)) (mt_seekNode m key)"

definition memit_Next :: "memTable \<Rightarrow> nat option \<Rightarrow> bool \<times> source_iter" where
  "memit_Next m cur =
     (let it = MemIt m (case cur of None \<Rightarrow> None | Some a \<Rightarrow> fwd (mt_nodes m) a 0)
      in (source_Valid it, it))"

definition memit_Prev :: "memTable \<Rightarrow> nat option \<Rightarrow> bool \<times> source_iter" where
  "memit_Prev m cur =
     (let it = MemIt m (case cur of None \<Rightarrow> None | Some a \<Rightarrow> mn_backward (mt_nodes m ! a))
      in (source_Valid it, it))"

definition snapit_Seek :: "memEntry list \<Rightarrow> bytes \<Rightarrow> bool \<times> source_iter" where
  "snapit_Seek es key =
     (let it = SnapIt es (int (sort_Search (\<lambda>i. \<not> me_key (es ! i) < key) 0 (length es)))
      in (source_Valid it, it))"

definition snapit_Next :: "memEntry list \<Rightarrow> int \<Rightarrow> bool \<times> source_iter" where
  "snapit_Next es idx =
     (let it = SnapIt es (if idx < int (length es) then idx + 1 else idx)
      in (source_Valid it, it))"

definition snapit_Prev :: "memEntry list \<Rightarrow> int \<Rightarrow> bool \<times> source_iter" where
  "snapit_Prev es idx =
     (let it = SnapIt es (if idx \<ge> 0 then idx - 1 else idx)
      in (source_Valid it, it))"

definition sstit_Seek :: "table \<Rightarrow> bytes \<Rightarrow> bool \<times> source_iter" where
  "sstit_Seek t key =
     (case seek_loop (table_rd t) key 0 (length (tbl_records t)) of
        None \<Rightarrow> (False, SSTIt t (-1) None)
      | Some l \<Rightarrow> load_record t (int l))"

definition sstit_Next :: "table \<Rightarrow> int \<Rightarrow> bool \<times> source_iter" where
  "sstit_Next t idx = load_record t (if idx < 0 then 0 else idx + 1)"

definition sstit_Prev :: "table \<Rightarrow> int \<Rightarrow> bool \<times> source_iter" where
  "sstit_Prev t idx = load_record t (if idx < 0 then int (length (tbl_records t)) - 1 else idx - 1)"

lemmas source_step_defs [simp] = memit_Seek_def memit_Next_def memit_Prev_def snapit_Seek_def snapit_Next_def
  snapit_Prev_def sstit_Seek_def sstit_Next_def sstit_Prev_def

fun source_Seek :: "source_iter \<Rightarrow> bytes \<Rightarrow> (bool \<times> source_iter) option" where
  "source_Seek (MemIt m cur) key = memit_Seek m key"
| "source_Seek (SnapIt es idx) key = Some (snapit_Seek es key)"
| "source_Seek (SSTIt t idx r) key = Some (sstit_Seek t key)"

fun source_Next :: "source_iter \<Rightarrow> (bool \<times> source_iter) option" where
  "source_Next (MemIt m cur) = Some (memit_Next m cur)"
| "source_Next (SnapIt es idx) = Some (snapit_Next es idx)"
| "source_Next (SSTIt t idx r) = Some (sstit_Next t idx)"

fun source_Prev :: "source_iter \<Rightarrow> (bool \<times> source_iter) option" where
  "source_Prev (MemIt m cur) = Some (memit_Prev m cur)"
| "source_Prev (SnapIt es idx) = Some (snapit_Prev es idx)"
| "source_Prev (SSTIt t idx r) = Some (sstit_Prev t idx)"

definition source_ops :: "source_iter iterator_ops" where
  "source_ops =
     \<lparr>ri_Seek = source_Seek, ri_Next = source_Next, ri_Prev = source_Prev,
      ri_Valid = source_Valid, ri_Key = (\<lambda>i. me_key (source_entry i)),
      ri_Value = (\<lambda>i. me_value (source_entry i)), ri_IsTombstone = (\<lambda>i. me_tombstone (source_entry i))\<rparr>"

definition mt_NewIterator :: "memTable \<Rightarrow> source_iter" where
  "mt_NewIterator m = MemIt m None"

definition snap_NewIterator :: "memEntry list \<Rightarrow> source_iter" where
  "snap_NewIterator es = SnapIt es (-1)"

definition sst_NewIterator :: "table \<Rightarrow> source_iter" where
  "sst_NewIterator t = SSTIt t (-1) None"

section \<open>The searches find the first record not below a key\<close>

abbreviation keys_sorted :: "memEntry list \<Rightarrow> bool" where
  "keys_sorted es \<equiv> sorted_wrt (<) (map me_key es)"

definition lower_bound :: "bytes \<Rightarrow> memEntry list \<Rightarrow> nat" where
  "lower_bound key es = length (takeWhile (\<lambda>e. me_key e < key) es)"

lemma lower_bound_le: "lower_bound key es \<le> length es"
  by (simp add: lower_bound_def length_takeWhile_le)

lemma drop_lower_bound: "drop (lower_bound key es) es = dropWhile (\<lambda>e. me_key e < key) es"
  by (simp add: lower_bound_def dropWhile_eq_drop)

lemma lower_bound_below: "h < lower_bound key es \<Longrightarrow> me_key (es ! h) < key"
  unfolding lower_bound_def using nth_length_takeWhile set_takeWhileD takeWhile_nth by (metis nth_mem)

lemma lower_bound_above:
  assumes "keys_sorted es" and "lower_bound key es \<le> h" and "h < length es"
  shows "\<not> me_key (es ! h) < key"
proof -
  let ?k = "lower_bound key es"
  have "\<not> me_key (es ! ?k) < key"
    using nth_length_takeWhile [of "\<lambda>e. me_key e < key" es] assms(2,3) by (simp add: lower_bound_def)
  moreover have "?k = h \<or> me_key (es ! ?k) < me_key (es ! h)"
    using assms sorted_wrt_nth_less [OF assms(1), of ?k h] by (cases "?k = h") auto
  ultimately show ?thesis by auto
qed

lemma sort_Search_lower:
  assumes "\<And>h. h < k \<Longrightarrow> \<not> f h" and "\<And>h. k \<le> h \<Longrightarrow> h < n \<Longrightarrow> f h"
  shows "i \<le> k \<Longrightarrow> k \<le> j \<Longrightarrow> j \<le> n \<Longrightarrow> sort_Search f i j = k"
proof (induction "j - i" arbitrary: i j rule: less_induct)
  case less
  show ?case
  proof (cases "i < j")
    case True
    let ?h = "(i + j) div 2"
    have h: "i \<le> ?h" "?h < j" using True by auto
    show ?thesis
    proof (cases "f ?h")
      case True
      then have "k \<le> ?h" using assms(1) by (meson not_le)
      then show ?thesis using less True h \<open>i < j\<close> by (subst sort_Search.simps) (simp add: Let_def)
    next
      case False
      then have "?h < k" using assms(2) less.prems h by (meson less_le_trans not_le)
      then show ?thesis using less False h \<open>i < j\<close> by (subst sort_Search.simps) (simp add: Let_def)
    qed
  next
    case False
    then show ?thesis using less.prems by (subst sort_Search.simps) simp
  qed
qed

lemma seek_loop_lower:
  assumes "\<And>h. h < k \<Longrightarrow> me_key (es ! h) < key" and "\<And>h. k \<le> h \<Longrightarrow> h < length es \<Longrightarrow> \<not> me_key (es ! h) < key"
    and rd: "\<And>h. h < length es \<Longrightarrow> rd h = Some (es ! h)"
  shows "i \<le> k \<Longrightarrow> k \<le> j \<Longrightarrow> j \<le> length es \<Longrightarrow> seek_loop rd key i j = Some k"
proof (induction "j - i" arbitrary: i j rule: less_induct)
  case less
  show ?case
  proof (cases "i < j")
    case True
    let ?h = "i + (j - i) div 2"
    have h: "i \<le> ?h" "?h < j" using True by auto
    have r: "rd ?h = Some (es ! ?h)" using rd h less.prems(3) by simp
    show ?thesis
    proof (cases "me_key (es ! ?h) < key")
      case False
      then have "k \<le> ?h" using assms(1) by (meson not_le)
      then show ?thesis using less False h r \<open>i < j\<close> by (subst seek_loop.simps) (simp add: Let_def)
    next
      case True
      then have "?h < k" using assms(2) less.prems h by (meson less_le_trans not_le)
      then show ?thesis using less True h r \<open>i < j\<close> by (subst seek_loop.simps) (simp add: Let_def)
    qed
  next
    case False
    then show ?thesis using less.prems by (subst seek_loop.simps) simp
  qed
qed

lemma ents_map_nth:
  assumes "keys_sorted es" and "i < length es"
  shows "ents_map es (me_key (es ! i)) = Some (me_value (es ! i), me_tombstone (es ! i))"
proof -
  have "distinct (map fst (map entry_pair es))"
    using assms(1) by (simp add: comp_def strict_sorted_iff)
  then show ?thesis using assms(2) unfolding ents_map_def by (simp add: map_of_eq_Some_iff)
qed

definition get_result :: "(bytes \<times> bool) option \<Rightarrow> bytes \<times> bool \<times> bool" where
  "get_result x = (case x of None \<Rightarrow> ([], False, False)
     | Some (v, t) \<Rightarrow> if t then ([], True, True) else (v, True, False))"

lemma get_loop_ok:
  assumes "keys_sorted es" and rd: "\<And>h. h < length es \<Longrightarrow> rd h = Some (es ! h)"
  shows "0 \<le> left \<Longrightarrow> right < int (length es) \<Longrightarrow> (\<And>h. int h < left \<Longrightarrow> me_key (es ! h) < key) \<Longrightarrow>
    (\<And>h. right < int h \<Longrightarrow> h < length es \<Longrightarrow> key < me_key (es ! h)) \<Longrightarrow>
    get_loop rd key left right = Inr (get_result (ents_map es key))"
proof (induction "nat (right - left + 1)" arbitrary: left right rule: less_induct)
  case less
  show ?case
  proof (cases "left \<le> right")
    case True
    let ?m = "left + (right - left) div 2"
    have m: "left \<le> ?m" "?m \<le> right" using True by auto
    define h where "h = nat ?m"
    have h: "?m = int h" "h < length es" using m less.prems(1,2) by (auto simp: h_def)
    have r: "rd (nat ?m) = Some (es ! h)" using rd [OF h(2)] h(1) by simp
    have srt: "me_key (es ! a) < me_key (es ! b)" if "a < b" "b < length es" for a b
      using sorted_wrt_nth_less [OF assms(1), of a b] that by simp
    consider (eq) "me_key (es ! h) = key" | (lt) "me_key (es ! h) < key" | (gt) "key < me_key (es ! h)"
      by fastforce
    then show ?thesis
    proof cases
      case eq
      then show ?thesis
        using True r ents_map_nth [OF assms(1) h(2)]
        by (subst get_loop.simps) (simp add: Let_def get_result_def)
    next
      case lt
      have "get_loop rd key (?m + 1) right = Inr (get_result (ents_map es key))"
      proof (rule less.hyps)
        fix x assume "int x < ?m + 1"
        then have "x \<le> h" using h(1) by linarith
        then show "me_key (es ! x) < key" using srt [of x h] h(2) lt by (cases "x = h") auto
      qed (use less.prems m in auto)
      then show ?thesis using True r lt by (subst get_loop.simps) (auto simp: Let_def)
    next
      case gt
      have "get_loop rd key left (?m - 1) = Inr (get_result (ents_map es key))"
      proof (rule less.hyps)
        fix x assume "?m - 1 < int x" "x < length es"
        then have "h \<le> x" using h(1) by linarith
        then show "key < me_key (es ! x)" using srt [of h x] \<open>x < length es\<close> gt by (cases "x = h") auto
      qed (use less.prems m in auto)
      then show ?thesis using True r gt by (subst get_loop.simps) (auto simp: Let_def)
    qed
  next
    case False
    have "me_key e \<noteq> key" if e: "e \<in> set es" for e
    proof -
      obtain x where x: "x < length es" "e = es ! x" using e by (auto simp: in_set_conv_nth)
      have "int x < left \<or> right < int x" using False by linarith
      then show ?thesis using less.prems(3) [of x] less.prems(4) [of x] x by auto
    qed
    then have "ents_map es key = None" by (simp add: ents_map_None)
    then show ?thesis using False by (subst get_loop.simps) (simp add: get_result_def)
  qed
qed

text \<open>A table the reader can search: sorted, and its filter knows its keys.\<close>

definition table_ok :: "table \<Rightarrow> bool" where
  "table_ok t \<longleftrightarrow> keys_sorted (tbl_records t) \<and>
     (\<forall>e \<in> set (tbl_records t). bloom_MayContain (tbl_bloom t) (me_key e))"

lemma table_Get_ok:
  assumes "table_ok t"
  shows "table_Get t key = Inr (get_result (ents_map (tbl_records t) key))"
proof (cases "bloom_MayContain (tbl_bloom t) key")
  case True
  have "get_loop (table_rd t) key 0 (int (length (tbl_records t)) - 1) =
      Inr (get_result (ents_map (tbl_records t) key))"
    by (rule get_loop_ok) (use assms in \<open>auto simp: table_ok_def table_rd_def\<close>)
  then show ?thesis using True by (simp add: table_Get_def sst_Get_def)
next
  case False
  then have "\<forall>e \<in> set (tbl_records t). me_key e \<noteq> key" using assms by (auto simp: table_ok_def)
  then have "ents_map (tbl_records t) key = None" by (rule ents_map_None)
  then show ?thesis using False by (simp add: table_Get_def sst_Get_def get_result_def)
qed

section \<open>The sources keep the iterator contract\<close>

abbreviation cells :: "memEntry list \<Rightarrow> cell list" where
  "cells es \<equiv> map entry_pair es"

fun source_all :: "source_iter \<Rightarrow> cell list" where
  "source_all (MemIt m cur) = cells (mt_entries m)"
| "source_all (SnapIt es idx) = cells es"
| "source_all (SSTIt t idx r) = cells (tbl_records t)"

fun source_rest :: "source_iter \<Rightarrow> cell list" where
  "source_rest (MemIt m cur) =
     cells (case mt_collect (mt_nodes m) cur [] of None \<Rightarrow> [] | Some es \<Rightarrow> es)"
| "source_rest (SnapIt es idx) = (if idx < 0 then [] else cells (drop (nat idx) es))"
| "source_rest (SSTIt t idx r) = (if idx < 0 then [] else cells (drop (nat idx) (tbl_records t)))"

fun source_ok :: "source_iter \<Rightarrow> bool" where
  "source_ok (MemIt m cur) \<longleftrightarrow>
     mt_inv m \<and> (\<exists>pre post. mt_rel m (pre @ post) \<and> cur = (case post of [] \<Rightarrow> None | a # _ \<Rightarrow> Some a))"
| "source_ok (SnapIt es idx) \<longleftrightarrow> keys_sorted es \<and> -1 \<le> idx"
| "source_ok (SSTIt t idx r) \<longleftrightarrow> keys_sorted (tbl_records t) \<and> -1 \<le> idx \<and>
     r = (if idx < 0 \<or> int (length (tbl_records t)) \<le> idx then None else Some (tbl_records t ! nat idx))"

lemma cells_simps [simp]: "fst (entry_pair e) = me_key e" "map fst (cells es) = map me_key es"
  by (simp_all add: comp_def)

lemma cells_dropWhile: "dropWhile (\<lambda>c. fst c < k) (cells es) = cells (dropWhile (\<lambda>e. me_key e < k) es)"
  by (simp add: dropWhile_map comp_def)

lemma mem_rest:
  assumes "mt_rel m (pre @ post)"
  shows "source_rest (MemIt m (case post of [] \<Rightarrow> None | a # _ \<Rightarrow> Some a)) = cells (map (node_at m) post)"
proof -
  have "chain (mt_nodes m) (pre @ post)" using assms by (simp add: mt_rel_def)
  from mt_collect_suffix [OF this refl, of "[]"] show ?thesis by simp
qed

lemma mem_Seek:
  assumes "mt_inv m"
  shows "\<exists>i'. source_Seek (MemIt m cur) k = Some (source_rest i' \<noteq> [], i') \<and> source_ok i' \<and>
    source_all i' = source_all (MemIt m cur) \<and> source_rest i' = dropWhile (\<lambda>c. fst c < k) (source_all (MemIt m cur))"
proof -
  obtain pre post where r: "mt_rel m (pre @ post)" and lo: "below (mt_nodes m) k pre"
    and hi: "not_below (mt_nodes m) k post"
    and "sorted_wrt (<) (map (key_at (mt_nodes m)) (pre @ post))"
    by (rule mt_split [OF assms, of k])
  let ?c = "case post of [] \<Rightarrow> None | a # _ \<Rightarrow> Some a"
  have ch: "chain (mt_nodes m) (pre @ post)" and lv: "1 \<le> mt_level m" "mt_level m \<le> maxMemTableLevel"
    using r by (simp_all add: mt_rel_def)
  have h0: "hgt (mt_nodes m) 0 = maxMemTableLevel" using ch by (simp add: chain_def)
  obtain u where "mt_descend (mt_nodes m) k (mt_level m) 0 (replicate maxMemTableLevel None) =
      Some (last (0 # pre), u)"
    using mt_descend_pred [OF ch lo hi, of 0 "mt_level m" "replicate maxMemTableLevel None"] lv h0
      pred_at_0 [OF ch] by auto
  then have sk: "mt_seekNode m k = Some ?c"
    using fwd_last_0 [OF ch] by (simp add: mt_seekNode_def del: last.simps)
  have ok: "source_ok (MemIt m ?c)" unfolding source_ok.simps using assms r by blast
  have e: "mt_entries m = map (node_at m) pre @ map (node_at m) post" using mt_entries_rel [OF r] by simp
  have "dropWhile (\<lambda>e. me_key e < k) (mt_entries m) = map (node_at m) post"
  proof -
    have "\<forall>e \<in> set (map (node_at m) pre). me_key e < k"
      using lo by (auto simp: node_entry_def key_at_def)
    then have "dropWhile (\<lambda>e. me_key e < k) (mt_entries m) = dropWhile (\<lambda>e. me_key e < k) (map (node_at m) post)"
      unfolding e by (simp add: dropWhile_append)
    also have "\<dots> = map (node_at m) post"
      using hi by (cases post) (auto simp: node_entry_def key_at_def)
    finally show ?thesis .
  qed
  then have rest: "source_rest (MemIt m ?c) = dropWhile (\<lambda>c. fst c < k) (source_all (MemIt m cur))"
    unfolding mem_rest [OF r] source_all.simps cells_dropWhile by simp
  have ne: "?c \<noteq> None \<longleftrightarrow> source_rest (MemIt m ?c) \<noteq> []"
    unfolding mem_rest [OF r] by (cases post) simp_all
  show ?thesis
    by (rule exI [of _ "MemIt m ?c"]) (use sk ok rest ne in simp)
qed

lemma mem_Next:
  assumes "mt_inv m" and r: "mt_rel m (pre @ a # post)"
  shows "\<exists>i'. source_Next (MemIt m (Some a)) = Some (source_rest i' \<noteq> [], i') \<and> source_ok i' \<and>
    source_all i' = source_all (MemIt m (Some a)) \<and> source_rest i' = tl (source_rest (MemIt m (Some a)))"
proof -
  let ?c = "case post of [] \<Rightarrow> None | b # _ \<Rightarrow> Some b"
  have ch: "chain (mt_nodes m) (pre @ a # post)" using r by (simp add: mt_rel_def)
  have "0 < hgt (mt_nodes m) a" using ch by (simp add: chain_def)
  then have "fwd (mt_nodes m) a 0 = nxt (mt_nodes m) 0 post"
    by (intro chain_fwd [OF ch, of "0 # pre"]) simp_all
  then have f: "fwd (mt_nodes m) a 0 = ?c" using nxt_0 [of "mt_nodes m" "pre @ [a]" post] ch by simp
  have r': "mt_rel m ((pre @ [a]) @ post)" using r by simp
  have ok: "source_ok (MemIt m ?c)"
    unfolding source_ok.simps using assms(1) r' by blast
  have "source_rest (MemIt m (Some a)) = cells (map (node_at m) (a # post))"
    using mem_rest [OF r] by simp
  then have tl: "source_rest (MemIt m ?c) = tl (source_rest (MemIt m (Some a)))"
    unfolding mem_rest [OF r'] by simp
  have ne: "?c \<noteq> None \<longleftrightarrow> source_rest (MemIt m ?c) \<noteq> []"
    unfolding mem_rest [OF r'] by (cases post) simp_all
  show ?thesis
    by (rule exI [of _ "MemIt m ?c"]) (use f ok tl ne in \<open>simp add: Let_def\<close>)
qed

lemma snap_Seek:
  assumes "keys_sorted es"
  shows "\<exists>i'. source_Seek (SnapIt es idx) k = Some (source_rest i' \<noteq> [], i') \<and> source_ok i' \<and>
    source_all i' = source_all (SnapIt es idx) \<and> source_rest i' = dropWhile (\<lambda>c. fst c < k) (source_all (SnapIt es idx))"
proof -
  let ?l = "lower_bound k es"
  have "sort_Search (\<lambda>i. \<not> me_key (es ! i) < k) 0 (length es) = ?l"
    by (rule sort_Search_lower [where n = "length es"])
      (use lower_bound_below lower_bound_above [OF assms] lower_bound_le in auto)
  moreover have "dropWhile (\<lambda>c. fst c < k) (cells es) = cells (drop ?l es)"
    unfolding cells_dropWhile drop_lower_bound by simp
  ultimately show ?thesis
    by (intro exI [of _ "SnapIt es (int ?l)"]) (use assms lower_bound_le [of k es] in \<open>auto simp: Let_def\<close>)
qed

lemma load_record_ok:
  assumes "keys_sorted (tbl_records t)" and "-1 \<le> idx"
  shows "\<exists>i'. load_record t idx = (source_rest i' \<noteq> [], i') \<and> source_ok i' \<and>
    source_all i' = cells (tbl_records t) \<and>
    source_rest i' = (if idx < 0 then [] else cells (drop (nat idx) (tbl_records t)))"
proof -
  let ?r = "if idx < 0 \<or> int (length (tbl_records t)) \<le> idx then None else Some (tbl_records t ! nat idx)"
  have "load_record t idx = (?r \<noteq> None, SSTIt t idx ?r)"
    by (auto simp: load_record_def table_rd_def Let_def)
  then show ?thesis
    by (intro exI [of _ "SSTIt t idx ?r"]) (use assms in auto)
qed

lemma sst_Seek:
  assumes "keys_sorted (tbl_records t)"
  shows "\<exists>i'. source_Seek (SSTIt t idx r) k = Some (source_rest i' \<noteq> [], i') \<and> source_ok i' \<and>
    source_all i' = source_all (SSTIt t idx r) \<and> source_rest i' = dropWhile (\<lambda>c. fst c < k) (source_all (SSTIt t idx r))"
proof -
  let ?es = "tbl_records t"
  let ?l = "lower_bound k ?es"
  have "seek_loop (table_rd t) k 0 (length ?es) = Some ?l"
    by (rule seek_loop_lower [where es = ?es])
      (use lower_bound_below lower_bound_above [OF assms] lower_bound_le in \<open>auto simp: table_rd_def\<close>)
  moreover have "dropWhile (\<lambda>c. fst c < k) (cells ?es) = cells (drop ?l ?es)"
    unfolding cells_dropWhile drop_lower_bound by simp
  ultimately show ?thesis using load_record_ok [OF assms, of "int ?l"] by auto
qed

lemma source_Seek_ok:
  assumes "source_ok i"
  shows "\<exists>i'. source_Seek i k = Some (source_rest i' \<noteq> [], i') \<and> source_ok i' \<and>
    source_all i' = source_all i \<and> source_rest i' = dropWhile (\<lambda>c. fst c < k) (source_all i)"
proof (cases i)
  case (MemIt m c)
  show ?thesis unfolding MemIt by (rule mem_Seek) (use assms MemIt in simp)
next
  case (SnapIt es idx)
  show ?thesis unfolding SnapIt by (rule snap_Seek) (use assms SnapIt in simp)
next
  case (SSTIt t idx r)
  show ?thesis unfolding SSTIt by (rule sst_Seek) (use assms SSTIt in simp)
qed

lemma source_Next_ok:
  assumes "source_ok i" and ne: "source_rest i \<noteq> []"
  shows "\<exists>i'. source_Next i = Some (source_rest i' \<noteq> [], i') \<and> source_ok i' \<and>
    source_all i' = source_all i \<and> source_rest i' = tl (source_rest i)"
proof (cases i)
  case (MemIt m c)
  obtain pre post where r: "mt_rel m (pre @ post)" and c: "c = (case post of [] \<Rightarrow> None | a # _ \<Rightarrow> Some a)"
    and inv: "mt_inv m" using assms(1) MemIt by auto
  have "post \<noteq> []" using ne mem_rest [OF r] unfolding MemIt c by auto
  then obtain a post' where p: "post = a # post'" by (cases post) auto
  show ?thesis unfolding MemIt c p list.case by (rule mem_Next [OF inv r [unfolded p]])
next
  case (SnapIt es idx)
  then have "0 \<le> idx" "idx < int (length es)" using ne by (auto split: if_splits)
  then show ?thesis
    by (intro exI [of _ "SnapIt es (idx + 1)"])
      (use assms SnapIt in \<open>auto simp: Let_def nat_add_distrib drop_Suc tl_drop map_tl [symmetric]\<close>)
next
  case (SSTIt t idx r)
  then have i: "0 \<le> idx" using ne by (auto split: if_splits)
  have "source_rest i = cells (drop (nat idx) (tbl_records t))" using i SSTIt by simp
  moreover have "drop (nat (idx + 1)) (tbl_records t) = tl (drop (nat idx) (tbl_records t))"
    using i by (simp add: nat_add_distrib drop_Suc tl_drop)
  ultimately show ?thesis
    using load_record_ok [of t "idx + 1"] assms SSTIt i by (auto simp: map_tl)
qed

lemma source_Valid_ok:
  assumes "source_ok i"
  shows "source_Valid i \<longleftrightarrow> source_rest i \<noteq> []"
    and "source_rest i = (k, v, t) # r \<Longrightarrow>
      me_key (source_entry i) = k \<and> me_value (source_entry i) = v \<and> me_tombstone (source_entry i) = t"
proof -
  show "source_Valid i \<longleftrightarrow> source_rest i \<noteq> []"
  proof (cases i)
    case (MemIt m c)
    then obtain pre post where r: "mt_rel m (pre @ post)" and c: "c = (case post of [] \<Rightarrow> None | a # _ \<Rightarrow> Some a)"
      using assms by auto
    show ?thesis using mem_rest [OF r] unfolding MemIt c by (cases post) simp_all
  qed (use assms in auto)
  assume rest: "source_rest i = (k, v, t) # r"
  show "me_key (source_entry i) = k \<and> me_value (source_entry i) = v \<and> me_tombstone (source_entry i) = t"
  proof (cases i)
    case (MemIt m c)
    then obtain pre post where r: "mt_rel m (pre @ post)" and c: "c = (case post of [] \<Rightarrow> None | a # _ \<Rightarrow> Some a)"
      using assms by auto
    have "cells (map (node_at m) post) = (k, v, t) # r" using mem_rest [OF r] rest unfolding MemIt c by simp
    then show ?thesis unfolding MemIt c by (cases post) auto
  next
    case (SnapIt es idx)
    then have i: "0 \<le> idx" "cells (drop (nat idx) es) = (k, v, t) # r" using rest by (auto split: if_splits)
    then have "nat idx < length es" by (cases "nat idx < length es") auto
    then show ?thesis using SnapIt i by (auto simp: Cons_nth_drop_Suc [symmetric])
  next
    case (SSTIt tb idx x)
    then have i: "0 \<le> idx" "cells (drop (nat idx) (tbl_records tb)) = (k, v, t) # r"
      using rest by (auto split: if_splits)
    then have "nat idx < length (tbl_records tb)" by (cases "nat idx < length (tbl_records tb)") auto
    then show ?thesis using SSTIt i assms by (auto simp: Cons_nth_drop_Suc [symmetric])
  qed
qed

lemma source_sorted:
  assumes "source_ok i"
  shows "sorted_wrt (<) (map fst (source_all i))" and "sorted_wrt (<) (map fst (source_rest i))"
proof -
  show all: "sorted_wrt (<) (map fst (source_all i))"
    using assms mt_entries_sorted by (cases i) (auto simp: comp_def)
  have "\<exists>n. source_rest i = drop n (source_all i)"
  proof (cases i)
    case (MemIt m c)
    then obtain pre post where r: "mt_rel m (pre @ post)" and c: "c = (case post of [] \<Rightarrow> None | a # _ \<Rightarrow> Some a)"
      using assms by auto
    show ?thesis unfolding MemIt c mem_rest [OF r] source_all.simps mt_entries_rel [OF r]
      by (rule exI [of _ "length pre"]) simp
  next
    case (SnapIt es idx)
    then show ?thesis by (cases "idx < 0") (auto simp: drop_map intro: exI [of _ "length es"])
  next
    case (SSTIt t idx r)
    then show ?thesis by (cases "idx < 0") (auto simp: drop_map intro: exI [of _ "length (tbl_records t)"])
  qed
  then show "sorted_wrt (<) (map fst (source_rest i))" using all by (auto simp: drop_map [symmetric] sorted_wrt_drop)
qed

interpretation src: source_iterator source_ops source_ok source_all source_rest
proof unfold_locales
  fix i k
  assume i: "source_ok i"
  show "sorted_wrt (<) (map fst (source_all i))" "sorted_wrt (<) (map fst (source_rest i))"
    by (rule source_sorted [OF i])+
  show "\<exists>i'. ri_Seek source_ops i k = Some (source_rest i' \<noteq> [], i') \<and> source_ok i' \<and>
    source_all i' = source_all i \<and> source_rest i' = dropWhile (\<lambda>c. fst c < k) (source_all i)"
    using source_Seek_ok [OF i] by (simp add: source_ops_def)
  show "source_rest i \<noteq> [] \<Longrightarrow> \<exists>i'. ri_Next source_ops i = Some (source_rest i' \<noteq> [], i') \<and> source_ok i' \<and>
    source_all i' = source_all i \<and> source_rest i' = tl (source_rest i)"
    using source_Next_ok [OF i] by (simp add: source_ops_def)
  show "ri_Valid source_ops i = (source_rest i \<noteq> [])"
    using source_Valid_ok [OF i] by (simp add: source_ops_def)
  show "\<And>v t r. source_rest i = (k, v, t) # r \<Longrightarrow>
      ri_Key source_ops i = k \<and> ri_Value source_ops i = v \<and> ri_IsTombstone source_ops i = t"
    using source_Valid_ok [OF i] by (simp add: source_ops_def)
qed

section \<open>A written file reads back\<close>

definition add_entry :: "sst_writer \<Rightarrow> memEntry \<Rightarrow> sst_writer" where
  "add_entry w e = sst_Add w (me_key e) (me_value e) (me_tombstone e)"

definition writer_of :: "memEntry list \<Rightarrow> sst_writer" where
  "writer_of es = foldl add_entry NewSSTableWriter es"

definition cell_entry :: "cell \<Rightarrow> memEntry" where
  "cell_entry c = \<lparr>me_key = fst c, me_value = fst (snd c), me_tombstone = snd (snd c)\<rparr>"

lemma mem_entry_eta [simp]: "\<lparr>me_key = me_key e, me_value = me_value e, me_tombstone = me_tombstone e\<rparr> = e"
  by (cases e) simp

lemma cell_entry_pair [simp]: "cell_entry (entry_pair e) = e" "map (cell_entry \<circ> entry_pair) es = es"
  by (simp_all add: cell_entry_def comp_def)

lemma cells_cell_entry [simp]: "cells (map cell_entry cs) = cs"
  by (simp add: cell_entry_def comp_def)

lemma keys_cell_entry [simp]: "map me_key (map cell_entry cs) = map fst cs"
  by (simp add: cell_entry_def)

context raw_iterator
begin

lemma write_loop_ok:
  "iok i \<Longrightarrow> write_loop ops i w = Some (foldl add_entry w (map cell_entry (rest_cells i)))"
proof (induction "rest_cells i" arbitrary: i w)
  case Nil
  then have "\<not> ri_Valid ops i" using Valid [OF Nil.prems] by simp
  then show ?case using Nil.hyps by (subst write_loop.simps) simp
next
  case (Cons c cs)
  obtain k v t where c: "c = (k, v, t)" by (cases c) auto
  have cell: "ri_Key ops i = k \<and> ri_Value ops i = v \<and> ri_IsTombstone ops i = t"
    using Cell [OF Cons.prems] Cons.hyps(2) c by metis
  have ne: "rest_cells i \<noteq> []" using Cons.hyps(2) by auto
  obtain i' b where i': "ri_Next ops i = Some (b, i')" "iok i'" "rest_cells i' = tl (rest_cells i)"
    using Next [OF Cons.prems ne] by blast
  have tl: "cs = rest_cells i'" using i'(3) Cons.hyps(2) by (metis list.sel(3))
  have "ri_Valid ops i" using Valid [OF Cons.prems] ne by simp
  then show ?case
    using cell i'(1) Cons.hyps(1) [OF tl i'(2)] tl Cons.hyps(2) [symmetric] c
    by (subst write_loop.simps) (simp add: Let_def add_entry_def cell_entry_def)
qed

lemma WriteSSTable_writer_ok:
  assumes "iok i"
  shows "WriteSSTable_writer ops i = Some (writer_of (map cell_entry (all_cells i)))"
proof -
  obtain i' where i': "ri_Seek ops i [] = Some (rest_cells i' \<noteq> [], i')" "iok i'"
    "rest_cells i' = dropWhile (\<lambda>c. fst c < []) (all_cells i)"
    using Seek [OF assms, of "[]"] by blast
  have r: "rest_cells i' = all_cells i" using i'(3) by (cases "all_cells i") auto
  show ?thesis
    using i'(1) write_loop_ok [OF i'(2)] r by (auto simp: WriteSSTable_writer_def writer_of_def)
qed

end

definition rec_off :: "memEntry list \<Rightarrow> nat \<Rightarrow> nat" where
  "rec_off es i = length (concat (map sst_record_bytes (take i es)))"

lemma writer_of_snoc: "writer_of (es @ [e]) = add_entry (writer_of es) e"
  by (simp add: writer_of_def)

lemma writer_of_fields:
  "w_data (writer_of es) = concat (map sst_record_bytes es) \<and> w_keys (writer_of es) = map me_key es \<and>
   w_count (writer_of es) = length es \<and> w_records (writer_of es) = es \<and> w_offsets (writer_of es) = map (rec_off es) [0..<length es]"
proof (induction es rule: rev_induct)
  case Nil
  then show ?case by (simp add: writer_of_def NewSSTableWriter_def)
next
  case (snoc e es)
  have "map (rec_off (es @ [e])) [0..<length es] = map (rec_off es) [0..<length es]"
    by (rule map_cong) (auto simp: rec_off_def)
  then show ?case using snoc by (simp add: writer_of_snoc add_entry_def sst_Add_def rec_off_def Let_def)
qed

lemma length_record: "length (sst_record_bytes e) = 9 + length (me_key e) + length (me_value e)"
  by (simp add: sst_record_bytes_def)

lemma ReadAt_append: "off = length pre \<Longrightarrow> n = length mid \<Longrightarrow> ReadAt (pre @ mid @ post) off n = Some mid"
  by (simp add: ReadAt_def)

lemma ReadAt_shift: "ReadAt (pre @ f) (length pre + off) n = ReadAt f off n"
  by (simp add: ReadAt_def)

lemma readRecordAt_written:
  assumes "length (me_key e) < 2 ^ 32" and "length (me_value e) < 2 ^ 32"
    and f: "sr_file r = pre @ sst_record_bytes e @ post" and off: "off = length pre"
  shows "readRecordAt r off = Some e"
proof -
  let ?k = "length (me_key e)" and ?v = "length (me_value e)"
  let ?h = "le_bytes 4 ?k @ le_bytes 4 ?v @ [if me_tombstone e then 1 else 0]"
  have f1: "sr_file r = pre @ ?h @ me_key e @ me_value e @ post"
    unfolding f sst_record_bytes_def by simp
  have h: "ReadAt (sr_file r) off 9 = Some ?h" unfolding f1 by (rule ReadAt_append) (simp_all add: off)
  have f2: "sr_file r = (pre @ ?h) @ me_key e @ me_value e @ post" unfolding f1 by simp
  have k: "ReadAt (sr_file r) (off + 9) ?k = Some (me_key e)"
    unfolding f2 by (rule ReadAt_append) (simp_all add: off)
  have f3: "sr_file r = (pre @ ?h @ me_key e) @ me_value e @ post" unfolding f1 by simp
  have v: "ReadAt (sr_file r) (off + 9 + ?k) ?v = Some (me_value e)"
    unfolding f3 by (rule ReadAt_append) (simp_all add: off)
  have lens: "le_val (take 4 ?h) = ?k" "le_val (take 4 (drop 4 ?h)) = ?v"
    using assms(1,2) by (simp_all add: le_val_le_bytes)
  have t: "(?h ! 8 = 1) = me_tombstone e" by (simp add: nth_append)
  show ?thesis
    unfolding readRecordAt_def h option.case Let_def lens t k v by (cases e) auto
qed

lemma read_offsets_written:
  "\<forall>x \<in> set os. x < 2 ^ 64 \<Longrightarrow> read_offsets (length os) (concat (map (le_bytes 8) os) @ post) = Inr os"
  by (induction os) (auto simp: le_val_le_bytes)

text \<open>The bytes of a file and its size limits: every length field fits its width.\<close>

definition sizes_ok :: "bloom_sizing \<Rightarrow> memEntry list \<Rightarrow> bool" where
  "sizes_ok sizing es \<longleftrightarrow>
     (\<forall>e \<in> set es. length (me_key e) < 2 ^ 32 \<and> length (me_value e) < 2 ^ 32) \<and>
     length (sst_Finish sizing (writer_of es)) < 2 ^ 64 \<and> fst (sizing (max (length es) 1)) \<le> 0xfffffff8"

definition reader_rd :: "sst_reader \<Rightarrow> nat \<Rightarrow> memEntry option" where
  "reader_rd r i = readRecordAt r (sr_offsets r ! i)"

definition reader_Get :: "sst_reader \<Rightarrow> bytes \<Rightarrow> (bytes \<times> bool \<times> bool) result" where
  "reader_Get r key = sst_Get (reader_rd r) (length (sr_offsets r)) (sr_bloom r) key"

lemma rec_off_bound:
  assumes "i \<le> length es"
  shows "rec_off es i \<le> length (concat (map sst_record_bytes es))"
proof -
  have "concat (map sst_record_bytes es) =
      concat (map sst_record_bytes (take i es)) @ concat (map sst_record_bytes (drop i es))"
    by (metis append_take_drop_id concat_append map_append)
  then show ?thesis by (simp add: rec_off_def)
qed

lemma record_split:
  assumes "i < length es"
  shows "concat (map sst_record_bytes es) = concat (map sst_record_bytes (take i es)) @
    sst_record_bytes (es ! i) @ concat (map sst_record_bytes (drop (Suc i) es))"
  by (subst id_take_nth_drop [OF assms]) simp

lemma length_index: "length (concat (map (le_bytes 8) os)) = 8 * length os"
  by (induction os) simp_all

lemma sst_bloom_Encode_nonempty: "8 \<le> length (bloom_Encode bf)"
  by (simp add: bloom_Encode_def)

lemma OpenSSTable_written:
  assumes "sizes_ok sizing es"
  defines "bf \<equiv> sst_bloom sizing (length es) (map me_key es)"
  shows "OpenSSTable (sst_Finish sizing (writer_of es)) =
    Some (Inr \<lparr>sr_file = sst_Finish sizing (writer_of es), sr_offsets = map (rec_off es) [0..<length es],
               sr_bloom = Some bf\<rparr>)"
proof -
  let ?d = "concat (map sst_record_bytes es)" and ?os = "map (rec_off es) [0..<length es]"
  let ?ix = "concat (map (le_bytes 8) ?os)" and ?b = "bloom_Encode bf"
  let ?io = "length ?d" and ?n = "length es" and ?bs = "length (bloom_Encode bf)"
  let ?bo = "?io + 8 * ?n"
  let ?foot = "le_bytes 8 ?n @ le_bytes 8 ?io @ le_bytes 8 ?bo @ le_bytes 8 ?bs"
  define img where "img = sst_Finish sizing (writer_of es)"
  have f: "img = ?d @ ?ix @ ?b @ ?foot"
    by (simp add: img_def sst_Finish_def writer_of_fields bf_def Let_def length_index del: map_map)
  have len: "length img = ?bo + ?bs + 32" unfolding f by (simp add: length_index del: map_map)
  have lt: "length img < 2 ^ 64" using assms(1) by (simp add: sizes_ok_def img_def)
  have "drop (length img - 32) img = drop (length (?d @ ?ix @ ?b)) ((?d @ ?ix @ ?b) @ ?foot)"
    unfolding len f by (simp add: length_index del: map_map)
  then have ft: "drop (length img - 32) img = ?foot" by simp
  have vals: "le_val (take 8 ?foot) = ?n" "le_val (take 8 (drop 8 ?foot)) = ?io"
    "le_val (take 8 (drop 16 ?foot)) = ?bo" "le_val (take 8 (drop 24 ?foot)) = ?bs"
    using lt unfolding len by (simp_all add: le_val_le_bytes)
  have "\<forall>x \<in> set ?os. x < 2 ^ 64"
  proof
    fix x assume "x \<in> set ?os"
    then have "x \<le> ?io" using rec_off_bound [of _ es] by auto
    then show "x < 2 ^ 64" using lt unfolding len by linarith
  qed
  from read_offsets_written [OF this, of "?b @ ?foot"]
  have offs: "read_offsets ?n (drop ?io img) = Inr ?os" unfolding f by (simp del: map_map)
  have rb: "ReadAt img ?bo ?bs = Some ?b"
    unfolding f using ReadAt_append [of ?bo "?d @ ?ix" ?bs ?b ?foot] by (simp add: length_index del: map_map)
  have b8: "8 \<le> ?bs" by (rule sst_bloom_Encode_nonempty)
  then have "\<not> length img < 32" "?bs \<noteq> 0" "\<not> ?bs < 8" using len by linarith+
  then show ?thesis
    unfolding OpenSSTable_def img_def [symmetric] ft Let_def vals offs rb by (simp add: DecodeBloomFilter_Encode)
qed

lemma reader_rd_written:
  assumes "sizes_ok sizing es" and "i < length es"
    and "r = \<lparr>sr_file = sst_Finish sizing (writer_of es), sr_offsets = map (rec_off es) [0..<length es], sr_bloom = b\<rparr>"
  shows "reader_rd r i = Some (es ! i)"
proof -
  have e: "es ! i \<in> set es" using assms(2) by simp
  obtain post where f: "sr_file r = concat (map sst_record_bytes (take i es)) @ sst_record_bytes (es ! i) @ post"
    using record_split [OF assms(2)] by (auto simp: assms(3) sst_Finish_def Let_def writer_of_fields)
  have "readRecordAt r (rec_off es i) = Some (es ! i)"
    by (rule readRecordAt_written [OF _ _ f]) (use assms(1) e in \<open>auto simp: sizes_ok_def rec_off_def\<close>)
  then show ?thesis using assms(2) by (simp add: reader_rd_def assms(3))
qed

lemma sst_bloom_contains:
  assumes "fst (sizing (max n 1)) \<le> 0xfffffff8" and "k \<in> set keys"
  shows "bloom_MayContain (sst_bloom sizing n keys) k"
  using assms NewBloomFilter_ok unfolding sst_bloom_def
  by (intro bloom_of_contains) (auto split: prod.split)

lemma table_of_ok:
  assumes "keys_sorted es" and "fst (sizing (max (length es) 1)) \<le> 0xfffffff8"
  shows "table_ok (table_of_writer sizing (writer_of es))"
  using assms sst_bloom_contains [of sizing "length es"] by (simp add: table_ok_def table_of_writer_def writer_of_fields)

text \<open>Any sorted list of records the size limits allow is found again, key by key, by opening the
  file that was written for it.\<close>

lemma reader_Get_written:
  assumes "sizes_ok sizing es" and "keys_sorted es"
  shows "\<exists>r. OpenSSTable (sst_Finish sizing (writer_of es)) = Some (Inr r) \<and>
    reader_Get r k = Inr (get_result (ents_map es k))"
proof -
  define bf where "bf = sst_bloom sizing (length es) (map me_key es)"
  let ?r = "\<lparr>sr_file = sst_Finish sizing (writer_of es), sr_offsets = map (rec_off es) [0..<length es], sr_bloom = Some bf\<rparr>"
  have opn: "OpenSSTable (sst_Finish sizing (writer_of es)) = Some (Inr ?r)"
    unfolding bf_def by (rule OpenSSTable_written [OF assms(1)])
  have "get_loop (reader_rd ?r) k 0 (int (length es) - 1) = Inr (get_result (ents_map es k))"
    by (rule get_loop_ok [OF assms(2)]) (use reader_rd_written [OF assms(1) _ refl] in auto)
  moreover have "ents_map es k = None" if "\<not> bloom_MayContain bf k"
  proof (rule ents_map_None, rule ballI)
    fix e assume "e \<in> set es"
    then show "me_key e \<noteq> k"
      using sst_bloom_contains [of sizing "length es" "me_key e" "map me_key es"] assms(1) that
      by (auto simp: sizes_ok_def bf_def)
  qed
  ultimately have "reader_Get ?r k = Inr (get_result (ents_map es k))"
    by (auto simp: reader_Get_def sst_Get_def get_result_def)
  then show ?thesis using opn by blast
qed

section \<open>Properties\<close>

text \<open>(C14) An SSTable reads back what was written: opening the file written for a sorted list of
  records succeeds, and a lookup finds every key, tells tombstones apart and denies
  every other key.\<close>

theorem sstable_round_trip:
  assumes "sizes_ok sizing es" and "keys_sorted es"
  shows "\<exists>r. OpenSSTable (sst_Finish sizing (foldl add_entry NewSSTableWriter es)) = Some (Inr r) \<and>
    (\<forall>k. reader_Get r k = Inr (case map_of (map entry_pair es) k of
        None \<Rightarrow> ([], False, False)
      | Some (v, t) \<Rightarrow> if t then ([], True, True) else (v, True, False)))"
proof -
  obtain r where r: "OpenSSTable (sst_Finish sizing (writer_of es)) = Some (Inr r)"
    using reader_Get_written [OF assms] by blast
  have "reader_Get r k = Inr (get_result (ents_map es k))" for k
    using reader_Get_written [OF assms, of k] r by simp
  then show ?thesis using r by (auto simp: writer_of_def get_result_def ents_map_def)
qed

definition sample_record :: memEntry where
  "sample_record = \<lparr>me_key = [1], me_value = [2], me_tombstone = False\<rparr>"

lemma sample_sizes: "sizes_ok (\<lambda>n. (8, 1)) [sample_record]"
  by (simp add: sizes_ok_def sample_record_def sst_Finish_def writer_of_def add_entry_def sst_Add_def
      NewSSTableWriter_def sst_record_bytes_def Let_def bloom_Encode_def sst_bloom_def bloom_of_def NewBloomFilter_def
      bloom_Add_def)

theorem sstable_round_trip_witness:
  "\<exists>r. OpenSSTable (sst_Finish (\<lambda>n. (8, 1)) (foldl add_entry NewSSTableWriter [sample_record])) = Some (Inr r) \<and>
     reader_Get r [1] = Inr ([2], True, False) \<and> reader_Get r [9] = Inr ([], False, False)"
  using sstable_round_trip [OF sample_sizes] by (fastforce simp: sample_record_def)

text \<open>(C23) A merge over memtable and SSTable iterators positions on the least key not below the
  sought one, and shows the cell of the first source, the newest, that has the key.\<close>

theorem merge_seek_newest_wins:
  assumes "\<forall>i \<in> set is. source_ok i"
  defines "m \<equiv> merged (map source_all is)"
  shows "\<exists>b it. merge_Seek source_ops (NewMergeIterator source_ops is) k = Some (b, it) \<and>
    b = (\<exists>k' \<in> dom m. k \<le> k') \<and>
    (b \<longrightarrow> k \<le> merge_Key source_ops it \<and>
      m (merge_Key source_ops it) = Some (merge_Value source_ops it, merge_IsTombstone source_ops it) \<and>
      (\<forall>k' \<in> dom m. k \<le> k' \<longrightarrow> merge_Key source_ops it \<le> k'))"
proof -
  have ok: "src.merge_ok (NewMergeIterator source_ops is)"
    unfolding NewMergeIterator_def by (rule src.with_winner_ok [OF assms(1)])
  have all: "src.merge_all (NewMergeIterator source_ops is) = entries m"
    by (simp add: src.merge_all_def NewMergeIterator_def with_winner_def m_def)
  have fin: "finite (dom m)" by (simp add: m_def)
  obtain it where it: "merge_Seek source_ops (NewMergeIterator source_ops is) k = Some (src.merge_rest it \<noteq> [], it)"
    "src.merge_ok it" "src.merge_rest it = entries (from_key k m)"
    using src.merge_Seek_ok [OF ok, of k] by (auto simp: all dropWhile_entries [OF fin])
  have b: "src.merge_rest it \<noteq> [] \<longleftrightarrow> (\<exists>k' \<in> dom m. k \<le> k')"
  proof -
    have "dom (from_key k m) = {} \<longleftrightarrow> \<not> (\<exists>k' \<in> dom m. k \<le> k')"
      by (auto simp: from_key_apply fun_eq_iff split: if_splits)
    then show ?thesis using it(3) fin entries_eq_Nil_iff [of "from_key k m"] by simp
  qed
  have "k \<le> merge_Key source_ops it \<and>
      m (merge_Key source_ops it) = Some (merge_Value source_ops it, merge_IsTombstone source_ops it) \<and>
      (\<forall>k' \<in> dom m. k \<le> k' \<longrightarrow> merge_Key source_ops it \<le> k')" if ne: "src.merge_rest it \<noteq> []"
  proof -
    obtain k0 v t r where e: "src.merge_rest it = (k0, v, t) # r"
      using ne by (metis list.exhaust prod_cases3)
    have c: "from_key k m k0 = Some (v, t) \<and> (\<forall>k' \<in> dom (from_key k m). k0 \<le> k')"
      using e it(3) fin by (simp add: entries_Cons_iff)
    then show ?thesis using src.merge_Cell_ok [OF it(2) e] by (auto simp: from_key_apply split: if_splits)
  qed
  then show ?thesis using it(1) b by blast
qed

theorem merge_seek_newest_wins_witness:
  "\<exists>it. merge_Seek source_ops (NewMergeIterator source_ops
       [snap_NewIterator [sample_record], snap_NewIterator [sample_record\<lparr>me_value := [3]\<rparr>]]) [1] = Some (True, it) \<and>
     merge_Value source_ops it = [2]"
proof -
  let ?is = "[snap_NewIterator [sample_record], snap_NewIterator [sample_record\<lparr>me_value := [3]\<rparr>]]"
  have "\<forall>i \<in> set ?is. source_ok i" by (simp add: snap_NewIterator_def)
  from merge_seek_newest_wins [OF this, of "[1]"] show ?thesis
    by (auto simp: snap_NewIterator_def sample_record_def split: if_splits)
qed

end
