(* ===== verification/Lsm_Wal.thy ===== *)
theory Lsm_Wal
  imports Storage
begin

text \<open>
  The write-ahead log (\<open>internal/storage/lsm/entry.go\<close>, \<open>wal.go\<close>) at the level of bytes.
  A log file is the list of its bytes; \<open>Decode\<close> reads from the bytes that remain, and its
  result is \<open>None\<close> where the code panics. The checksum is CRC-32 (IEEE) as in
  \<open>hash/crc32\<close>, bit by bit. The main results: replaying what was appended gives the
  appended entries back, a torn tail costs only the torn entry, and bytes appended
  behind a torn tail are not seen.
\<close>

unbundle bit_operations_syntax

section \<open>CRC-32\<close>

definition crc_bit :: "u32 \<Rightarrow> u32" where
  "crc_bit c = (if bit c 0 then drop_bit 1 c XOR 0xEDB88320 else drop_bit 1 c)"

definition crc_byte :: "u32 \<Rightarrow> byte \<Rightarrow> u32" where
  "crc_byte c b = (crc_bit ^^ 8) (c XOR ucast b)"

definition crc32_Update :: "u32 \<Rightarrow> bytes \<Rightarrow> u32" where
  "crc32_Update crc p = NOT (foldl crc_byte (NOT crc) p)"

definition crc32_ChecksumIEEE :: "bytes \<Rightarrow> u32" where
  "crc32_ChecksumIEEE data = crc32_Update 0 data"

lemma crc32_Update_append: "crc32_Update (crc32_Update c a) b = crc32_Update c (a @ b)"
  by (simp add: crc32_Update_def)

section \<open>Entries\<close>

record entry =
  ent_Key :: bytes
  ent_Value :: bytes
  ent_Op :: byte

abbreviation OpPut :: byte where "OpPut \<equiv> 0"
abbreviation OpDelete :: byte where "OpDelete \<equiv> 1"

definition entry_body :: "entry \<Rightarrow> bytes" where
  "entry_body ent =
     le_bytes 4 (length (ent_Key ent)) @ le_bytes 4 (length (ent_Value ent)) @ [ent_Op ent] @
     ent_Key ent @ ent_Value ent"

definition entry_Encode :: "entry \<Rightarrow> bytes" where
  "entry_Encode ent = le_bytes 4 (unat (crc32_ChecksumIEEE (entry_body ent))) @ entry_body ent"

text \<open>\<open>io.ReadFull\<close>: the bytes read, or the error and what is left.\<close>

definition ReadFull :: "nat \<Rightarrow> bytes \<Rightarrow> bytes result \<times> bytes" where
  "ReadFull n r =
     (if n \<le> length r then (Inr (take n r), drop n r)
      else if r = [] then (Inl EOF, []) else (Inl ErrUnexpectedEOF, []))"

definition entry_Decode :: "bytes \<Rightarrow> (entry result \<times> bytes) option" where
  "entry_Decode r =
     (case ReadFull 13 r of
        (Inl err, r1) \<Rightarrow> Some (Inl err, r1)
      | (Inr header, r1) \<Rightarrow>
          (let keyLen = (of_nat (le_val (take 4 (drop 4 header))) :: u32);
               valueLen = (of_nat (le_val (take 4 (drop 8 header))) :: u32)
           in case ReadFull (unat (keyLen + valueLen)) r1 of
                (Inl err, r2) \<Rightarrow> Some (Inl err, r2)
              | (Inr payload, r2) \<Rightarrow>
                  (let storedChecksum = (of_nat (le_val (take 4 header)) :: u32);
                       computedChecksum = crc32_Update (crc32_Update 0 (drop 4 header)) payload
                   in if computedChecksum \<noteq> storedChecksum then Some (Inl ErrChecksumMismatch, r2)
                      else if length payload < unat keyLen then None
                      else Some (Inr \<lparr>ent_Key = take (unat keyLen) payload,
                                      ent_Value = drop (unat keyLen) payload,
                                      ent_Op = header ! 12\<rparr>, r2))))"

section \<open>The log\<close>

definition wal_Append :: "bytes \<Rightarrow> entry \<Rightarrow> bytes" where
  "wal_Append file ent = file @ entry_Encode ent"

definition wal_WriteAll :: "bytes \<Rightarrow> entry list \<Rightarrow> bytes" where
  "wal_WriteAll file ents = foldl wal_Append file ents"

definition wal_Truncate :: "bytes \<Rightarrow> bytes" where
  "wal_Truncate file = []"

lemma ReadFull_rest: "ReadFull n r = (x, r') \<Longrightarrow> length r' \<le> length r"
  by (auto simp: ReadFull_def split: if_splits)

lemma entry_Decode_shrinks: "entry_Decode r = Some (Inr ent, r') \<Longrightarrow> length r' < length r"
proof -
  assume d: "entry_Decode r = Some (Inr ent, r')"
  then have "13 \<le> length r" by (auto simp: entry_Decode_def ReadFull_def split: if_splits)
  then have "ReadFull 13 r = (Inr (take 13 r), drop 13 r)" by (simp add: ReadFull_def)
  with d have "length r' \<le> length (drop 13 r)"
    by (auto simp: entry_Decode_def Let_def split: prod.splits sum.splits if_splits dest: ReadFull_rest)
  with \<open>13 \<le> length r\<close> show ?thesis by simp
qed

text \<open>\<open>ReadAll\<close> from the current position; every error \<open>Decode\<close> can return ends the replay.\<close>

function wal_ReadAll_from :: "bytes \<Rightarrow> entry list \<Rightarrow> entry list result option" where
  "wal_ReadAll_from r ents =
     (case entry_Decode r of
        None \<Rightarrow> None
      | Some (Inr ent, r') \<Rightarrow> wal_ReadAll_from r' (ents @ [ent])
      | Some (Inl err, r') \<Rightarrow>
          if errors_Is err EOF \<or> errors_Is err ErrUnexpectedEOF \<or> errors_Is err ErrChecksumMismatch
          then Some (Inr ents) else Some (Inl err))"
  by pat_completeness auto
termination
  by (relation "measure (\<lambda>(r, ents). length r)") (auto dest: entry_Decode_shrinks)

declare wal_ReadAll_from.simps [simp del]

definition wal_ReadAll :: "bytes \<Rightarrow> entry list result option" where
  "wal_ReadAll file = wal_ReadAll_from file []"

section \<open>Replay\<close>

text \<open>An entry the length fields can describe.\<close>

definition entry_ok :: "entry \<Rightarrow> bool" where
  "entry_ok ent \<longleftrightarrow> length (ent_Key ent) + length (ent_Value ent) < 4294967296"

lemma entry_Decode_Encode:
  assumes "entry_ok ent"
  shows "entry_Decode (entry_Encode ent @ r) = Some (Inr ent, r)"
proof -
  let ?k = "ent_Key ent" and ?v = "ent_Value ent"
  let ?c = "le_bytes 4 (unat (crc32_ChecksumIEEE (entry_body ent)))"
  let ?h = "le_bytes 4 (length ?k) @ le_bytes 4 (length ?v) @ [ent_Op ent]"
  have sz: "length ?k < 4294967296" "length ?v < 4294967296" "length ?k + length ?v < 4294967296"
    using assms by (simp_all add: entry_ok_def)
  have enc: "entry_Encode ent @ r = (?c @ ?h) @ (?k @ ?v) @ r"
    by (simp add: entry_Encode_def entry_body_def)
  have len: "length (?c @ ?h) = 13" by simp
  have r1: "ReadFull 13 (entry_Encode ent @ r) = (Inr (?c @ ?h), (?k @ ?v) @ r)"
    unfolding enc by (simp add: ReadFull_def)
  have kl: "(of_nat (le_val (take 4 (drop 4 (?c @ ?h)))) :: u32) = of_nat (length ?k)"
    and vl: "(of_nat (le_val (take 4 (drop 8 (?c @ ?h)))) :: u32) = of_nat (length ?v)"
    using sz by (simp_all add: codec_simps)
  have sum: "unat (of_nat (length ?k) + of_nat (length ?v) :: u32) = length ?k + length ?v"
    using sz(3) unat_u32_of_nat [of "length ?k + length ?v"] by simp
  have ku: "unat (of_nat (length ?k) :: u32) = length ?k" using sz(1) by (simp add: unat_u32_of_nat)
  have r2: "ReadFull (length ?k + length ?v) ((?k @ ?v) @ r) = (Inr (?k @ ?v), r)"
    by (simp add: ReadFull_def)
  have cs: "(of_nat (le_val (take 4 (?c @ ?h))) :: u32) = crc32_ChecksumIEEE (entry_body ent)"
    using unat_u32_less [of "crc32_ChecksumIEEE (entry_body ent)"] by (simp add: codec_simps)
  have cc: "crc32_Update (crc32_Update 0 (drop 4 (?c @ ?h))) (?k @ ?v) = crc32_ChecksumIEEE (entry_body ent)"
    by (simp add: crc32_Update_append crc32_ChecksumIEEE_def entry_body_def)
  have op: "(?c @ ?h) ! 12 = ent_Op ent" by (simp add: nth_append)
  show ?thesis
    unfolding entry_Decode_def r1 prod.case sum.case Let_def kl vl sum r2 cs cc ku
    by (simp add: op [simplified])
qed

lemma wal_ReadAll_from_Encode:
  "\<forall>ent \<in> set es. entry_ok ent \<Longrightarrow>
   wal_ReadAll_from (concat (map entry_Encode es) @ r) acc = wal_ReadAll_from r (acc @ es)"
proof (induction es arbitrary: acc)
  case (Cons ent es)
  then show ?case
    using entry_Decode_Encode [of ent "concat (map entry_Encode es) @ r"]
    by (subst wal_ReadAll_from.simps) simp
qed simp

lemma wal_WriteAll_concat: "wal_WriteAll bs es = bs @ concat (map entry_Encode es)"
  unfolding wal_WriteAll_def by (induction es arbitrary: bs) (simp_all add: wal_Append_def)

text \<open>A proper prefix of an encoded entry is rejected, and ends the replay.\<close>

lemma entry_Encode_length: "length (entry_Encode ent) = 13 + length (ent_Key ent) + length (ent_Value ent)"
  by (simp add: entry_Encode_def entry_body_def)

lemma entry_Decode_torn:
  assumes "entry_ok ent" and "n < length (entry_Encode ent)"
  shows "\<exists>err. entry_Decode (take n (entry_Encode ent)) = Some (Inl err, []) \<and>
    (err = EOF \<or> err = ErrUnexpectedEOF)"
proof (cases "n < 13")
  case True
  then have "length (take n (entry_Encode ent)) < 13" by simp
  then show ?thesis by (auto simp: entry_Decode_def ReadFull_def)
next
  case False
  let ?k = "ent_Key ent" and ?v = "ent_Value ent"
  let ?c = "le_bytes 4 (unat (crc32_ChecksumIEEE (entry_body ent)))"
  let ?h = "le_bytes 4 (length ?k) @ le_bytes 4 (length ?v) @ [ent_Op ent]"
  let ?p = "take (n - 13) (?k @ ?v)"
  have sz: "length ?k < 4294967296" "length ?v < 4294967296" "length ?k + length ?v < 4294967296"
    using assms(1) by (simp_all add: entry_ok_def)
  have tk: "take n (entry_Encode ent) = (?c @ ?h) @ ?p"
  proof -
    have "entry_Encode ent = (?c @ ?h) @ (?k @ ?v)" by (simp add: entry_Encode_def entry_body_def)
    moreover have "length (?c @ ?h) = 13" by simp
    ultimately show ?thesis using False by (simp only: take_append [of n "?c @ ?h"] take_all_iff) simp
  qed
  have r1: "ReadFull 13 (take n (entry_Encode ent)) = (Inr (?c @ ?h), ?p)"
    unfolding tk by (simp add: ReadFull_def)
  have kl: "(of_nat (le_val (take 4 (drop 4 (?c @ ?h)))) :: u32) = of_nat (length ?k)"
    and vl: "(of_nat (le_val (take 4 (drop 8 (?c @ ?h)))) :: u32) = of_nat (length ?v)"
    using sz by (simp_all add: codec_simps)
  have sum: "unat (of_nat (length ?k) + of_nat (length ?v) :: u32) = length ?k + length ?v"
    using sz(3) unat_u32_of_nat [of "length ?k + length ?v"] by simp
  have short: "length ?p < length ?k + length ?v" using assms(2) False by (simp add: entry_Encode_length)
  then have "\<exists>err. ReadFull (length ?k + length ?v) ?p = (Inl err, []) \<and> (err = EOF \<or> err = ErrUnexpectedEOF)"
    unfolding ReadFull_def by auto
  then show ?thesis
    unfolding entry_Decode_def r1 prod.case sum.case Let_def kl vl sum by auto
qed

lemma wal_ReadAll_torn:
  assumes "\<forall>ent \<in> set (es @ [e]). entry_ok ent" and "n < length (entry_Encode e)"
  shows "wal_ReadAll (concat (map entry_Encode es) @ take n (entry_Encode e)) = Some (Inr es)"
proof -
  obtain err where "entry_Decode (take n (entry_Encode e)) = Some (Inl err, [])" "err = EOF \<or> err = ErrUnexpectedEOF"
    using entry_Decode_torn [of e n] assms by auto
  then have "wal_ReadAll_from (take n (entry_Encode e)) es = Some (Inr es)"
    by (subst wal_ReadAll_from.simps) auto
  then show ?thesis
    using wal_ReadAll_from_Encode [of es "take n (entry_Encode e)" "[]"] assms(1) by (simp add: wal_ReadAll_def)
qed

lemma wal_ReadAll_WriteAll:
  assumes "\<forall>ent \<in> set es. entry_ok ent"
  shows "wal_ReadAll (wal_WriteAll [] es) = Some (Inr es)"
proof -
  have "wal_ReadAll_from [] es = Some (Inr es)"
    by (subst wal_ReadAll_from.simps) (simp add: entry_Decode_def ReadFull_def)
  then show ?thesis
    using wal_ReadAll_from_Encode [OF assms, of "[]" "[]"] by (simp add: wal_ReadAll_def wal_WriteAll_concat)
qed

section \<open>Properties\<close>

text \<open>(C24) Replaying a log gives back exactly the entries that were appended, and a last entry
  that was written only in part is dropped without touching the others.\<close>

theorem wal_replay:
  assumes "\<forall>ent \<in> set (es @ [e]). entry_ok ent" and "n < length (entry_Encode e)"
  shows "wal_ReadAll (wal_WriteAll [] es @ take n (entry_Encode e)) = Some (Inr es)"
  using wal_ReadAll_torn [OF assms] by (simp add: wal_WriteAll_concat)

abbreviation sample_put :: entry where
  "sample_put \<equiv> \<lparr>ent_Key = [1], ent_Value = [2], ent_Op = OpPut\<rparr>"

theorem wal_replay_witness:
  "wal_ReadAll (wal_WriteAll [] [sample_put] @ take 5 (entry_Encode sample_put)) = Some (Inr [sample_put])"
  using wal_replay [of "[sample_put]" sample_put 5] by (simp add: entry_ok_def entry_Encode_length)

lemma le_bytes_4: "le_bytes 4 x = [of_nat x, of_nat (x div 256), of_nat (x div 65536), of_nat (x div 16777216)]"
proof -
  have "(4 :: nat) = Suc (Suc (Suc (Suc 0)))" by simp
  then show ?thesis by (simp only: le_bytes.simps) (simp add: div_mult2_eq [symmetric])
qed

lemma crc8: "(f ^^ 8) x = f (f (f (f (f (f (f (f x)))))))"
  by (simp add: numeral_eq_Suc)

lemmas crc_eval = crc32_ChecksumIEEE_def crc32_Update_def crc_byte_def crc_bit_def crc8

lemma sample_Encode: "entry_Encode sample_put = [0xF5, 0x35, 0x6B, 0xFB, 1, 0, 0, 0, 1, 0, 0, 0, 0, 1, 2]"
proof -
  have body: "entry_body sample_put = [1, 0, 0, 0, 1, 0, 0, 0, 0, 1, 2]"
    by (simp add: entry_body_def le_bytes_4)
  have "crc32_ChecksumIEEE (entry_body sample_put) = 4218107381" unfolding body by (simp add: crc_eval)
  then show ?thesis unfolding entry_Encode_def body by (simp add: le_bytes_4)
qed


end
