(* ===== verification/Lsm_Meta.thy ===== *)
theory Lsm_Meta
  imports Json Storage Lsm_Wal
begin

text \<open>
  The metadata store (\<open>internal/storage/lsm/metadata.go\<close>) and the names of SSTable files
  (\<open>lsm.go\<close>). A slot file is modelled by its bytes, \<open>None\<close> when the file does not exist: JSON
  followed by a checksum. The version counter is unbounded; \<open>uint64\<close> wraps only after
  $2^{64}$ saves. A nil slice and an empty one are both \<open>[]\<close>: the code only stores nil
  ones, which print as \<open>null\<close>. The results: what was saved loads, and a crash that leaves
  the slot under write unreadable loads what was saved before.
\<close>

section \<open>Slots\<close>

record metaData =
  md_Version :: nat
  md_Levels :: "bytes list list"

definition zeroMeta :: metaData where
  "zeroMeta = \<lparr>md_Version = 0, md_Levels = []\<rparr>"

record metaStore =
  ms_slot0 :: "bytes option"
  ms_slot1 :: "bytes option"

definition level_json :: "bytes list \<Rightarrow> json" where
  "level_json files = (if files = [] then JNull else JArr (map JStr files))"

definition meta_json :: "metaData \<Rightarrow> json" where
  "meta_json meta =
     JObj [(ascii ''version'', JNum (int (md_Version meta))),
           (ascii ''levels'', if md_Levels meta = [] then JNull else JArr (map level_json (md_Levels meta)))]"

fun json_name :: "json \<Rightarrow> bytes option" where
  "json_name JNull = Some []"
| "json_name (JStr s) = Some s"
| "json_name _ = None"

fun json_level :: "json \<Rightarrow> bytes list option" where
  "json_level JNull = Some []"
| "json_level (JArr js) = those (map json_name js)"
| "json_level _ = None"

definition meta_field :: "bytes \<Rightarrow> json \<Rightarrow> metaData \<Rightarrow> metaData option" where
  "meta_field k j meta =
     (if field_is ''version'' k then
        (case j of
           JNull \<Rightarrow> Some meta
         | JNum n \<Rightarrow> if 0 \<le> n then Some (meta\<lparr>md_Version := nat n\<rparr>) else None
         | _ \<Rightarrow> None)
      else if field_is ''levels'' k then
        (case j of
           JNull \<Rightarrow> Some (meta\<lparr>md_Levels := []\<rparr>)
         | JArr js \<Rightarrow> map_option (\<lambda>ls. meta\<lparr>md_Levels := ls\<rparr>) (those (map json_level js))
         | _ \<Rightarrow> None)
      else Some meta)"

definition writeSlot :: "metaData \<Rightarrow> bytes" where
  "writeSlot meta =
     (let data = json_print (meta_json meta)
      in data @ le_bytes 4 (unat (crc32_ChecksumIEEE data)))"

definition readSlot :: "bytes option \<Rightarrow> metaData result" where
  "readSlot slot =
     (case slot of
        None \<Rightarrow> Inl (Msg ''no such file'')
      | Some buf \<Rightarrow>
          if length buf < 4 then Inl (Msg ''meta slot too small'')
          else
            (let data = take (length buf - 4) buf;
                 stored = (of_nat (le_val (drop (length buf - 4) buf)) :: u32);
                 computed = crc32_ChecksumIEEE data
             in if stored \<noteq> computed then Inl (Msg ''meta slot: checksum mismatch'')
                else case json_parse data of
                    None \<Rightarrow> Inl (Msg ''meta slot: unmarshal'')
                  | Some j \<Rightarrow>
                      (case decode_struct meta_field j zeroMeta of
                         None \<Rightarrow> Inl (Msg ''meta slot: unmarshal'')
                       | Some meta \<Rightarrow> Inr meta)))"

section \<open>Save and Load\<close>

text \<open>\<open>slot, _ := readSlot(name)\<close>: the zero value when the slot is invalid.\<close>

definition slot_or_zero :: "metaData result \<Rightarrow> metaData" where
  "slot_or_zero r = (case r of Inl _ \<Rightarrow> zeroMeta | Inr meta \<Rightarrow> meta)"

definition save_target1 :: "metaStore \<Rightarrow> bool" where
  "save_target1 ms \<longleftrightarrow>
     md_Version (slot_or_zero (readSlot (ms_slot1 ms))) < md_Version (slot_or_zero (readSlot (ms_slot0 ms)))"

text \<open>\<open>save_with w\<close> is \<open>Save\<close> up to what reaches the target slot: all of it in
  \<open>ms_Save\<close>, anything at all when the machine stops during the write.\<close>

definition save_with :: "(bytes \<Rightarrow> bytes option) \<Rightarrow> metaStore \<Rightarrow> metaData \<Rightarrow> metaStore" where
  "save_with w ms meta =
     (let slot0 = slot_or_zero (readSlot (ms_slot0 ms));
          slot1 = slot_or_zero (readSlot (ms_slot1 ms));
          meta' = meta\<lparr>md_Version := max (md_Version slot0) (md_Version slot1) + 1\<rparr>
      in if save_target1 ms then ms\<lparr>ms_slot1 := w (writeSlot meta')\<rparr>
         else ms\<lparr>ms_slot0 := w (writeSlot meta')\<rparr>)"

definition ms_Save :: "metaStore \<Rightarrow> metaData \<Rightarrow> metaStore" where
  "ms_Save ms meta = save_with Some ms meta"

definition ms_Load :: "metaStore \<Rightarrow> metaData" where
  "ms_Load ms =
     (case (readSlot (ms_slot0 ms), readSlot (ms_slot1 ms)) of
        (Inl _, Inl _) \<Rightarrow> zeroMeta
      | (Inl _, Inr slot1) \<Rightarrow> slot1
      | (Inr slot0, Inl _) \<Rightarrow> slot0
      | (Inr slot0, Inr slot1) \<Rightarrow> if md_Version slot1 > md_Version slot0 then slot1 else slot0)"

section \<open>What was saved loads\<close>

definition names_ok :: "bytes list list \<Rightarrow> bool" where
  "names_ok ls \<longleftrightarrow> (\<forall>l \<in> set ls. \<forall>n \<in> set l. ascii_str n)"

lemma those_map_Some: "(\<And>x. x \<in> set xs \<Longrightarrow> f x = Some (g x)) \<Longrightarrow> those (map f xs) = Some (map g xs)"
  by (induction xs) auto

lemma json_level_json [simp]: "json_level (level_json l) = Some l"
  using those_map_Some [of l "json_name \<circ> JStr" id] by (simp add: level_json_def comp_def)

lemma meta_json_ok: "names_ok (md_Levels meta) \<Longrightarrow> json_ok (meta_json meta)"
  by (auto simp: meta_json_def level_json_def names_ok_def)

lemma decode_meta_json: "decode_struct meta_field (meta_json meta) zeroMeta = Some meta"
proof -
  have "those (map json_level (map level_json (md_Levels meta))) = Some (md_Levels meta)"
    using those_map_Some [of "md_Levels meta" "json_level \<circ> level_json" id] by simp
  then show ?thesis
    by (simp add: decode_struct_def meta_json_def meta_field_def field_is_def lower_def zeroMeta_def del: map_map)
qed

lemma readSlot_writeSlot [codec_simps]:
  assumes "names_ok (md_Levels meta)"
  shows "readSlot (Some (writeSlot meta)) = Inr meta"
proof -
  define data where "data = json_print (meta_json meta)"
  have "(of_nat (le_val (le_bytes 4 (unat (crc32_ChecksumIEEE data)))) :: u32) = crc32_ChecksumIEEE data"
    by (simp add: le_val_le_bytes unat_u32_less)
  moreover have "json_parse data = Some (meta_json meta)"
    unfolding data_def by (rule json_parse_print [OF meta_json_ok [OF assms]])
  ultimately show ?thesis
    using decode_meta_json [of meta] by (simp add: readSlot_def writeSlot_def Let_def flip: data_def)
qed

lemma ms_Load_Save:
  assumes "names_ok (md_Levels meta)"
  shows "md_Levels (ms_Load (ms_Save ms meta)) = md_Levels meta"
  using readSlot_writeSlot [of "meta\<lparr>md_Version := v\<rparr>" for v] assms
  by (auto simp: ms_Save_def save_with_def save_target1_def slot_or_zero_def ms_Load_def Let_def zeroMeta_def
      split: sum.splits)

text \<open>Readable slots carry different versions, none of them zero.\<close>

definition slot_version :: "bytes option \<Rightarrow> nat" where
  "slot_version slot = md_Version (slot_or_zero (readSlot slot))"

definition ms_inv :: "metaStore \<Rightarrow> bool" where
  "ms_inv ms \<longleftrightarrow>
     (\<forall>m. readSlot (ms_slot0 ms) = Inr m \<longrightarrow> 0 < md_Version m) \<and>
     (\<forall>m. readSlot (ms_slot1 ms) = Inr m \<longrightarrow> 0 < md_Version m) \<and>
     (slot_version (ms_slot0 ms) = slot_version (ms_slot1 ms) \<longrightarrow> slot_version (ms_slot0 ms) = 0)"

definition NewMetaStore :: metaStore where
  "NewMetaStore = \<lparr>ms_slot0 = None, ms_slot1 = None\<rparr>"

lemma ms_inv_New: "ms_inv NewMetaStore" "ms_Load NewMetaStore = zeroMeta"
  by (simp_all add: ms_inv_def NewMetaStore_def readSlot_def slot_version_def slot_or_zero_def zeroMeta_def ms_Load_def)

lemma ms_inv_Save:
  assumes "names_ok (md_Levels meta)" and "ms_inv ms"
  shows "ms_inv (ms_Save ms meta)"
  using readSlot_writeSlot [of "meta\<lparr>md_Version := v\<rparr>" for v] assms
  by (auto simp: ms_Save_def save_with_def save_target1_def slot_or_zero_def ms_inv_def slot_version_def Let_def
      split: sum.splits)

lemma ms_Load_crash:
  assumes "ms_inv ms" and "\<And>buf. readSlot (w buf) = Inl (err buf)"
  shows "ms_Load (save_with w ms meta) = ms_Load ms"
  using assms
  by (auto simp: save_with_def save_target1_def slot_or_zero_def ms_inv_def slot_version_def ms_Load_def Let_def
      zeroMeta_def split: sum.splits)

lemma ms_inv_crash:
  assumes "ms_inv ms" and "\<And>buf. readSlot (w buf) = Inl (err buf)"
  shows "ms_inv (save_with w ms meta)"
  using assms
  by (auto simp: save_with_def save_target1_def slot_or_zero_def ms_inv_def slot_version_def Let_def
      zeroMeta_def split: sum.splits)

section \<open>File names\<close>

text \<open>\<open>fmt.Sprintf("sst-%06d.sst", id)\<close>.\<close>

definition sstableFilename :: "nat \<Rightarrow> bytes" where
  "sstableFilename n =
     ascii ''sst-'' @ replicate (6 - length (print_nat n)) 0x30 @ print_nat n @ ascii ''.sst''"

text \<open>\<open>fmt.Sscanf(base, "sst-%06d.sst", &id)\<close>: at most six digits are read; the rest of the name
  must go on with the literal suffix.\<close>

definition scan_sst :: "bytes \<Rightarrow> nat option" where
  "scan_sst name =
     (if take 4 name = ascii ''sst-''
      then (let r = drop 4 name; ds = takeWhile is_digit (take 6 r)
            in if ds \<noteq> [] \<and> take 4 (drop (length ds) r) = ascii ''.sst'' then Some (digits_val ds) else None)
      else None)"

text \<open>The pattern \<open>sst-*.sst\<close> of \<open>filepath.Glob\<close>.\<close>

definition glob_sst :: "bytes \<Rightarrow> bool" where
  "glob_sst name \<longleftrightarrow> 8 \<le> length name \<and> take 4 name = ascii ''sst-'' \<and> drop (length name - 4) name = ascii ''.sst''"

definition scanDirForNextID :: "bytes list \<Rightarrow> nat" where
  "scanDirForNextID names =
     fold (\<lambda>name nextID. case scan_sst name of
                           None \<Rightarrow> nextID
                         | Some n \<Rightarrow> if n + 1 > nextID then n + 1 else nextID)
       (sort (filter glob_sst names)) 0"

lemma digits_val_zeros: "digits_val (replicate n 0x30 @ ds) = digits_val ds"
proof (induction n)
  case (Suc n)
  then show ?case by (simp add: digits_val_def)
qed simp

lemma sstableFilename_inj: "sstableFilename a = sstableFilename b \<Longrightarrow> a = b"
proof -
  assume e: "sstableFilename a = sstableFilename b"
  have "digits_val (replicate (6 - length (print_nat n)) 0x30 @ print_nat n) = n" for n
    by (simp add: digits_val_zeros digits_val_print_nat)
  moreover have "replicate (6 - length (print_nat a)) 0x30 @ print_nat a =
      replicate (6 - length (print_nat b)) 0x30 @ print_nat b"
    using e by (simp add: sstableFilename_def)
  ultimately show "a = b" by metis
qed

lemma digit_ascii: "is_digit b \<Longrightarrow> b < 0x80"
  by (auto simp: is_digit_unat word_less_nat_alt)

lemma sstableFilename_ascii: "ascii_str (sstableFilename n)"
  using print_nat_digits [of n] digit_ascii by (auto simp: sstableFilename_def ascii_str_def)

lemma glob_sstableFilename: "glob_sst (sstableFilename n)"
  by (simp add: glob_sst_def sstableFilename_def)

lemma print_nat_length: "n < 10 ^ Suc k \<Longrightarrow> length (print_nat n) \<le> Suc k"
proof (induction k arbitrary: n)
  case 0
  then show ?case by (subst print_nat.simps) simp
next
  case (Suc k)
  then have "n div 10 < 10 ^ Suc k" by auto
  then show ?case using Suc.IH by (subst print_nat.simps) auto
qed

text \<open>Ids below a million are read back from their names.\<close>

lemma scan_sstableFilename:
  assumes "n < 1000000"
  shows "scan_sst (sstableFilename n) = Some n"
proof -
  let ?ds = "replicate (6 - length (print_nat n)) 0x30 @ print_nat n"
  have len: "length ?ds = 6" using print_nat_length [of n 5] assms by simp
  have "\<forall>b \<in> set ?ds. is_digit b" using print_nat_digits [of n] by (auto simp: is_digit_def)
  then have ds: "takeWhile is_digit ?ds = ?ds" by (simp only: takeWhile_eq_all_conv)
  have name: "sstableFilename n = ascii ''sst-'' @ ?ds @ ascii ''.sst''" by (simp add: sstableFilename_def)
  have t: "take 6 (?ds @ ascii ''.sst'') = ?ds" "drop 6 (?ds @ ascii ''.sst'') = ascii ''.sst''"
    using len by simp_all
  have d: "take 4 (sstableFilename n) = ascii ''sst-''" "drop 4 (sstableFilename n) = ?ds @ ascii ''.sst''"
    unfolding name by simp_all
  show ?thesis
    unfolding scan_sst_def d t ds Let_def len using t(2) len
    by (simp add: digits_val_zeros digits_val_print_nat del: append_assoc)
qed

lemma scan_fold:
  "fold (\<lambda>name nextID. case scan_sst name of None \<Rightarrow> nextID | Some n \<Rightarrow> if n + 1 > nextID then n + 1 else nextID) ns a
   \<ge> a \<and> (\<forall>name \<in> set ns. \<forall>n. scan_sst name = Some n \<longrightarrow>
     n < fold (\<lambda>name nextID. case scan_sst name of None \<Rightarrow> nextID | Some n \<Rightarrow> if n + 1 > nextID then n + 1 else nextID) ns a)"
proof (induction ns arbitrary: a)
  case (Cons x xs)
  show ?case
    using Cons [of "case scan_sst x of None \<Rightarrow> a | Some n \<Rightarrow> if n + 1 > a then n + 1 else a"]
    by (auto split: option.splits if_splits)
qed simp

lemma scanDir_above:
  assumes "sstableFilename n \<in> set names" and "n < 1000000"
  shows "n < scanDirForNextID names"
  using scan_fold [where ns = "sort (filter glob_sst names)" and a = 0] assms scan_sstableFilename glob_sstableFilename
  by (fastforce simp: scanDirForNextID_def)

section \<open>Properties\<close>



text \<open>Ids of seven digits are not read back from the file names: with the files 999999 and
  1000000 in the directory the next id is 1000000 again, the name of a live file.\<close>

theorem next_id_collides_after_six_digits:
  "scanDirForNextID [sstableFilename 999999, sstableFilename 1000000] = 1000000"
proof -
  have p: "print_nat 999999 = [0x39, 0x39, 0x39, 0x39, 0x39, 0x39]" 
   "print_nat 1000000 = [0x31, 0x30, 0x30, 0x30, 0x30, 0x30, 0x30]"
    by (simp_all add: print_nat.simps digit_def)
  show ?thesis
   by (simp add: p scanDirForNextID_def sstableFilename_def glob_sst_def scan_sst_def Let_def is_digit_def digits_val_def)
qed

end
