(* ===== verification/Lsm_Compaction.thy ===== *)
theory Lsm_Compaction
  imports Lsm_Sst Lsm_Meta
begin

text \<open>
  Flushing and compaction (\<open>internal/storage/lsm/compaction.go\<close>). The directory is a map from
  file names to tables, next to the two slots of the metadata store. What the code
  computes in floating point is an argument: the sizes of a Bloom filter and the
  growth of the level threshold. The results: a flush adds the memtable as the newest
  source, a compaction leaves the live content as it was, and the loop of
  \<open>MaybeTriggerCompaction\<close> returns when every level from 1 on takes at least two files
  to be over its threshold.
\<close>

section \<open>The compactor\<close>

record lsm_env =
  env_sizing :: bloom_sizing
  env_grow :: "nat \<Rightarrow> nat"
  env_flips :: "nat \<Rightarrow> bool list"

record compactor =
  cp_files :: "bytes \<rightharpoonup> table"
  cp_meta :: metaStore
  cp_nextID :: nat
  cp_L0Threshold :: nat

definition NewCompactor :: "(bytes \<rightharpoonup> table) \<Rightarrow> metaStore \<Rightarrow> nat \<Rightarrow> int \<Rightarrow> compactor" where
  "NewCompactor files meta nextID L0Threshold =
     \<lparr>cp_files = files, cp_meta = meta, cp_nextID = nextID,
      cp_L0Threshold = nat (if L0Threshold \<le> 0 then 4 else L0Threshold)\<rparr>"

definition allocID :: "compactor \<Rightarrow> nat \<times> compactor" where
  "allocID c = (cp_nextID c, c\<lparr>cp_nextID := cp_nextID c + 1\<rparr>)"

definition prepend_l0 :: "bytes \<Rightarrow> bytes list list \<Rightarrow> bytes list list" where
  "prepend_l0 name levels = (case levels of [] \<Rightarrow> [[name]] | l0 # ls \<Rightarrow> (name # l0) # ls)"

text \<open>The first half of \<open>FlushMemTable\<close> leaves the new file on disk; the second makes it official.\<close>

definition flush_write :: "lsm_env \<Rightarrow> compactor \<Rightarrow> memTable \<Rightarrow> (bytes \<times> compactor) option" where
  "flush_write env c mem =
     (let (n, c1) = allocID c; name = sstableFilename n
      in case WriteSSTable_table (env_sizing env) source_ops (mt_NewIterator mem) of
           None \<Rightarrow> None
         | Some t \<Rightarrow> Some (name, c1\<lparr>cp_files := (cp_files c1)(name \<mapsto> t)\<rparr>))"

definition flush_official :: "bytes \<Rightarrow> compactor \<Rightarrow> compactor" where
  "flush_official name c =
     (let meta = ms_Load (cp_meta c)
      in c\<lparr>cp_meta := ms_Save (cp_meta c) (meta\<lparr>md_Levels := prepend_l0 name (md_Levels meta)\<rparr>)\<rparr>)"

definition FlushMemTable :: "lsm_env \<Rightarrow> compactor \<Rightarrow> memTable \<Rightarrow> compactor option" where
  "FlushMemTable env c mem =
     (case flush_write env c mem of
        None \<Rightarrow> None
      | Some (name, c1) \<Rightarrow> Some (flush_official name c1))"

definition levelThreshold :: "lsm_env \<Rightarrow> compactor \<Rightarrow> nat \<Rightarrow> nat" where
  "levelThreshold env c level = (env_grow env ^^ level) (cp_L0Threshold c)"

definition firstOverThreshold :: "lsm_env \<Rightarrow> compactor \<Rightarrow> metaData \<Rightarrow> nat option" where
  "firstOverThreshold env c meta =
     find (\<lambda>level. length (md_Levels meta ! level) \<ge> levelThreshold env c level)
       [0..<length (md_Levels meta)]"

definition isBottomLevel :: "bytes list list \<Rightarrow> nat \<Rightarrow> bool" where
  "isBottomLevel levels toLevel \<longleftrightarrow> list_all (\<lambda>files. files = []) (drop (toLevel + 1) levels)"

function trimTrailingEmptyLevels :: "bytes list list \<Rightarrow> bytes list list" where
  "trimTrailingEmptyLevels levels =
     (if 1 < length levels \<and> last levels = [] then trimTrailingEmptyLevels (butlast levels) else levels)"
  by pat_completeness auto
termination
  by (relation "measure length") auto

declare trimTrailingEmptyLevels.simps [simp del]

fun open_tables :: "(bytes \<rightharpoonup> table) \<Rightarrow> bytes list \<Rightarrow> table list result" where
  "open_tables files [] = Inr []"
| "open_tables files (name # names) =
     (case files name of
        None \<Rightarrow> Inl (Wrap ''open'' (Msg ''no such file''))
      | Some t \<Rightarrow>
          (case open_tables files names of Inl err \<Rightarrow> Inl err | Inr ts \<Rightarrow> Inr (t # ts)))"

definition compact_iter :: "table list \<Rightarrow> source_iter merge_iter" where
  "compact_iter ts = NewMergeIterator source_ops (map sst_NewIterator ts)"

definition compactLevelLocked :: "lsm_env \<Rightarrow> compactor \<Rightarrow> nat \<Rightarrow> nat \<Rightarrow> (compactor \<times> error option) option" where
  "compactLevelLocked env c fromLevel toLevel =
     (let meta = ms_Load (cp_meta c);
          levels = md_Levels meta @ replicate (toLevel + 1 - length (md_Levels meta)) []
      in if \<not> fromLevel < length levels then None
         else
           (let fromFiles = levels ! fromLevel; toFiles = levels ! toLevel; allFiles = fromFiles @ toFiles
            in if fromFiles = [] then Some (c, None)
               else case open_tables (cp_files c) allFiles of
                   Inl err \<Rightarrow> Some (c, Some err)
                 | Inr ts \<Rightarrow>
                     (let (n, c1) = allocID c; newName = sstableFilename n
                      in case (if isBottomLevel levels toLevel
                               then WriteSSTable_table (env_sizing env) (filter_ops (merge_ops source_ops)) (compact_iter ts)
                               else WriteSSTable_table (env_sizing env) (merge_ops source_ops) (compact_iter ts)) of
                           None \<Rightarrow> None
                         | Some t \<Rightarrow>
                             (let levels' = trimTrailingEmptyLevels (levels[fromLevel := [], toLevel := [newName]])
                              in Some (c1\<lparr>cp_files := (cp_files c1)(newName \<mapsto> t) |` (- set allFiles),
                                         cp_meta := ms_Save (cp_meta c1) (meta\<lparr>md_Levels := levels'\<rparr>)\<rparr>, None)))))"

definition CompactLevel :: "lsm_env \<Rightarrow> compactor \<Rightarrow> nat \<Rightarrow> nat \<Rightarrow> (compactor \<times> error option) option" where
  "CompactLevel env c fromLevel toLevel = compactLevelLocked env c fromLevel toLevel"

partial_function (option) MaybeTriggerCompaction ::
  "lsm_env \<Rightarrow> compactor \<Rightarrow> (compactor \<times> error option) option" where
  "MaybeTriggerCompaction env c =
     (case firstOverThreshold env c (ms_Load (cp_meta c)) of
        None \<Rightarrow> Some (c, None)
      | Some level \<Rightarrow>
          (case compactLevelLocked env c level (level + 1) of
             None \<Rightarrow> None
           | Some (c', Some err) \<Rightarrow> Some (c', Some (Wrap ''compact level'' err))
           | Some (c', None) \<Rightarrow> MaybeTriggerCompaction env c'))"

section \<open>Content\<close>

definition tcells :: "table \<Rightarrow> cell list" where
  "tcells t = cells (tbl_records t)"

definition live_map :: "(bytes \<rightharpoonup> bytes \<times> bool) \<Rightarrow> bytes \<rightharpoonup> bytes" where
  "live_map m k = (case m k of None \<Rightarrow> None | Some (v, t) \<Rightarrow> if t then None else Some v)"

definition cp_levels :: "compactor \<Rightarrow> bytes list list" where
  "cp_levels c = md_Levels (ms_Load (cp_meta c))"

text \<open>The raw content of the levels, newest file first.\<close>

definition cp_raw :: "compactor \<Rightarrow> bytes \<rightharpoonup> bytes \<times> bool" where
  "cp_raw c = merged (map (\<lambda>n. tcells (the (cp_files c n))) (concat (cp_levels c)))"

definition cp_inv :: "compactor \<Rightarrow> bool" where
  "cp_inv c \<longleftrightarrow>
     ms_inv (cp_meta c) \<and> distinct (concat (cp_levels c)) \<and>
     (\<forall>n \<in> set (concat (cp_levels c)). \<exists>t. cp_files c n = Some t \<and> table_ok t) \<and>
     (\<forall>n \<in> dom (cp_files c). \<exists>i < cp_nextID c. n = sstableFilename i)"

definition sizing_ok :: "bloom_sizing \<Rightarrow> bool" where
  "sizing_ok sizing \<longleftrightarrow> (\<forall>n. fst (sizing n) \<le> 0xfffffff8)"

lemma open_tables_ok:
  "\<forall>n \<in> set ns. \<exists>t. files n = Some t \<Longrightarrow> open_tables files ns = Inr (map (\<lambda>n. the (files n)) ns)"
  by (induction ns) auto

lemma sst_NewIterator_ok: "table_ok t \<Longrightarrow> source_ok (sst_NewIterator t)" "source_all (sst_NewIterator t) = tcells t"
  by (simp_all add: sst_NewIterator_def table_ok_def tcells_def)

lemma mt_NewIterator_ok: "mt_inv m \<Longrightarrow> source_ok (mt_NewIterator m)" "source_all (mt_NewIterator m) = cells (mt_entries m)"
proof -
  assume inv: "mt_inv m"
  then obtain xs where "mt_rel m xs" by (auto simp: mt_inv_def)
  then have "mt_rel m (xs @ [])" by simp
  then show "source_ok (mt_NewIterator m)" unfolding mt_NewIterator_def source_ok.simps using inv by fastforce
qed (simp add: mt_NewIterator_def)

context raw_iterator
begin

lemma WriteSSTable_table_ok:
  assumes "iok i" and "sizing_ok sizing"
  shows "\<exists>t. WriteSSTable_table sizing ops i = Some t \<and> table_ok t \<and> tcells t = all_cells i"
proof -
  let ?es = "map cell_entry (all_cells i)"
  have "table_ok (table_of_writer sizing (writer_of ?es))"
    by (rule table_of_ok) (use all_sorted [OF assms(1)] assms(2) in \<open>simp_all only: keys_cell_entry sizing_ok_def\<close>)
  moreover have "tcells (table_of_writer sizing (writer_of ?es)) = all_cells i"
    by (simp add: tcells_def table_of_writer_def writer_of_fields del: map_map)
  ultimately show ?thesis
    using WriteSSTable_writer_ok [OF assms(1)] by (simp add: WriteSSTable_table_def)
qed

end

section \<open>Merging a run of sources into one\<close>

lemma merged_append: "merged (xs @ ys) = merged ys ++ merged xs"
  by (induction xs) simp_all

lemma map_of_entries: "finite (dom m) \<Longrightarrow> map_of (entries m) = m"
proof (rule ext)
  fix k
  assume fin: "finite (dom m)"
  have d: "distinct (map fst (entries m))" using sorted_wrt_entries [of m] by (simp add: strict_sorted_iff)
  show "map_of (entries m) k = m k"
  proof (cases "m k")
    case None
    then show ?thesis using set_entries [OF fin] by (auto simp: map_of_eq_None_iff)
  next
    case (Some v)
    then show ?thesis using set_entries [OF fin] d by (simp add: map_of_eq_Some_iff)
  qed
qed

text \<open>\<open>m'\<close> is \<open>m\<close> without some of its tombstones.\<close>

definition fewer_tombs :: "(bytes \<rightharpoonup> bytes \<times> bool) \<Rightarrow> (bytes \<rightharpoonup> bytes \<times> bool) \<Rightarrow> bool" where
  "fewer_tombs m m' \<longleftrightarrow> (\<forall>k. m' k = m k \<or> m' k = None \<and> (\<exists>v. m k = Some (v, True)))"

lemma fewer_tombs_refl [simp]: "fewer_tombs m m"
  by (simp add: fewer_tombs_def)

lemma fewer_tombs_trans: "fewer_tombs a b \<Longrightarrow> fewer_tombs b c \<Longrightarrow> fewer_tombs a c"
  unfolding fewer_tombs_def by (metis option.distinct(1))

lemma fewer_tombs_live: "fewer_tombs m m' \<Longrightarrow> live_map (m' ++ x) = live_map (m ++ x)"
proof (rule ext)
  fix k
  assume "fewer_tombs m m'"
  then consider "m' k = m k" | v where "m' k = None" "m k = Some (v, True)" unfolding fewer_tombs_def by blast
  then show "live_map (m' ++ x) k = live_map (m ++ x) k"
    by cases (auto simp: live_map_def map_add_def split: option.split)
qed

lemma fewer_tombs_add: "fewer_tombs m m' \<Longrightarrow> fewer_tombs (m ++ x) (m' ++ x)"
  unfolding fewer_tombs_def by (auto simp: map_add_def split: option.split)

lemma map_of_live:
  assumes "sorted_wrt (<) (map fst c)"
  shows "map_of (live c) k = (case map_of c k of None \<Rightarrow> None | Some (v, t) \<Rightarrow> if t then None else Some (v, t))"
proof -
  have d: "distinct (map fst c)" "distinct (map fst (live c))"
    using assms live_sorted [OF assms] by (simp_all add: strict_sorted_iff)
  show ?thesis
  proof (cases "map_of c k")
    case None
    then have "k \<notin> fst ` set (live c)" by (auto simp: map_of_eq_None_iff live_def)
    then have "map_of (live c) k = None" by (simp add: map_of_eq_None_iff)
    then show ?thesis using None by simp
  next
    case (Some x)
    obtain v t where x: "x = (v, t)" by (cases x)
    have m: "(k, v, t) \<in> set c" using Some x by (simp add: map_of_SomeD)
    show ?thesis
    proof (cases t)
      case True
      have "k \<notin> fst ` set (live c)"
      proof
        assume "k \<in> fst ` set (live c)"
        then obtain y where y: "(k, y) \<in> set c" "\<not> snd y" by (auto simp: live_def)
        then have "y = (v, t)" using m d(1) by (meson eq_key_imp_eq_value)
        then show False using y True by simp
      qed
      then show ?thesis using Some x True by (simp add: map_of_eq_None_iff)
    next
      case False
      then have "(k, v, t) \<in> set (live c)" using m by (simp add: live_def)
      then show ?thesis using d(2) Some x False by (simp add: map_of_eq_Some_iff)
    qed
  qed
qed

lemma fewer_tombs_map_of_live:
  assumes "sorted_wrt (<) (map fst c)"
  shows "fewer_tombs (map_of c) (map_of (live c))"
  unfolding fewer_tombs_def by (auto simp: map_of_live [OF assms] split: option.split)

section \<open>Trimming\<close>

lemma trim_take: "\<exists>n. trimTrailingEmptyLevels ls = take n ls \<and> (ls \<noteq> [] \<longrightarrow> 0 < n) \<and> concat (drop n ls) = []"
proof (induction ls rule: trimTrailingEmptyLevels.induct)
  case (1 ls)
  show ?case
  proof (cases "1 < length ls \<and> last ls = []")
    case True
    then have ls: "ls = butlast ls @ [[]]" "butlast ls \<noteq> []"
      by (metis append_butlast_last_id length_0_conv not_one_less_zero) (use True in \<open>cases ls; auto\<close>)
    obtain n where n: "trimTrailingEmptyLevels (butlast ls) = take n (butlast ls)" "0 < n"
      "concat (drop n (butlast ls)) = []" using 1 [OF True] ls(2) by blast
    let ?n = "min n (length (butlast ls))"
    have "take n (butlast ls) = take ?n ls" by (subst (2) ls(1)) (simp add: min_def)
    moreover have "concat (drop ?n ls) = []" using n(3) by (subst ls(1)) (simp add: min_def)
    moreover have "0 < ?n" using n(2) True by simp
    ultimately show ?thesis using True n(1) by (subst trimTrailingEmptyLevels.simps) auto
  next
    case False
    then show ?thesis
      by (subst trimTrailingEmptyLevels.simps) (auto intro!: exI [of _ "Suc (length ls)"])
  qed
qed

lemma concat_trim [simp]: "concat (trimTrailingEmptyLevels ls) = concat ls"
proof -
  obtain n where "trimTrailingEmptyLevels ls = take n ls" "concat (drop n ls) = []" using trim_take by blast
  then show ?thesis by (metis append.right_neutral append_take_drop_id concat_append)
qed

lemma set_trim: "set (trimTrailingEmptyLevels ls) \<subseteq> set ls"
proof -
  obtain n where "trimTrailingEmptyLevels ls = take n ls" using trim_take by blast
  then show ?thesis by (simp add: set_take_subset)
qed

lemma trim_hd: "ls \<noteq> [] \<Longrightarrow> trimTrailingEmptyLevels ls \<noteq> [] \<and> hd (trimTrailingEmptyLevels ls) = hd ls"
proof -
  assume "ls \<noteq> []"
  moreover obtain n where "trimTrailingEmptyLevels ls = take n ls" "ls \<noteq> [] \<longrightarrow> 0 < n" using trim_take by blast
  ultimately show ?thesis by (cases ls; cases n) auto
qed

section \<open>A flush adds the newest source\<close>

lemma fresh_name:
  assumes "cp_inv c"
  shows "cp_files c (sstableFilename (cp_nextID c)) = None"
proof (rule ccontr)
  assume "cp_files c (sstableFilename (cp_nextID c)) \<noteq> None"
  then obtain i where "i < cp_nextID c" "sstableFilename (cp_nextID c) = sstableFilename i"
    using assms unfolding cp_inv_def by blast
  then show False using sstableFilename_inj by blast
qed

lemma level_names:
  assumes "cp_inv c" and "n \<in> set (concat (cp_levels c))"
  shows "ascii_str n" and "n \<noteq> sstableFilename (cp_nextID c)"
proof -
  obtain t where t: "cp_files c n = Some t" using assms unfolding cp_inv_def by blast
  then obtain i where "n = sstableFilename i" using assms(1) unfolding cp_inv_def by blast
  then show "ascii_str n" by (simp add: sstableFilename_ascii)
  show "n \<noteq> sstableFilename (cp_nextID c)" using t fresh_name [OF assms(1)] by auto
qed

lemma concat_prepend: "concat (prepend_l0 n ls) = n # concat ls"
  by (simp add: prepend_l0_def split: list.split)

lemma names_ok_iff: "names_ok ls \<longleftrightarrow> (\<forall>n \<in> set (concat ls). ascii_str n)"
  by (auto simp: names_ok_def)

text \<open>A file no level names changes nothing.\<close>

lemma orphan_ok:
  fixes t :: table
  assumes "cp_inv c"
  defines "c1 \<equiv> c\<lparr>cp_nextID := cp_nextID c + 1, cp_files := (cp_files c)(sstableFilename (cp_nextID c) \<mapsto> t)\<rparr>"
  shows "cp_inv c1" and "cp_raw c1 = cp_raw c" and "cp_levels c1 = cp_levels c"
proof -
  show lv: "cp_levels c1 = cp_levels c" by (simp add: cp_levels_def c1_def)
  have same: "cp_files c1 n = cp_files c n" if "n \<in> set (concat (cp_levels c))" for n
    using level_names(2) [OF assms(1) that] by (simp add: c1_def)
  show "cp_raw c1 = cp_raw c" unfolding cp_raw_def lv using same by (metis (no_types, lifting) map_eq_conv)
  have "\<forall>n \<in> dom (cp_files c1). \<exists>i < cp_nextID c1. n = sstableFilename i"
    using assms(1) unfolding cp_inv_def c1_def by (auto simp: less_Suc_eq)
  moreover have "ms_inv (cp_meta c1)" using assms(1) by (simp add: cp_inv_def c1_def)
  ultimately show "cp_inv c1" using assms(1) same unfolding cp_inv_def lv by auto
qed

lemma flush_write_ok:
  assumes "cp_inv c" and "mt_inv mem" and "sizing_ok (env_sizing env)"
  shows "\<exists>t. table_ok t \<and> tcells t = cells (mt_entries mem) \<and>
    flush_write env c mem = Some (sstableFilename (cp_nextID c),
      c\<lparr>cp_nextID := cp_nextID c + 1, cp_files := (cp_files c)(sstableFilename (cp_nextID c) \<mapsto> t)\<rparr>)"
  using src.WriteSSTable_table_ok [OF mt_NewIterator_ok(1) [OF assms(2)] assms(3)] mt_NewIterator_ok(2) [of mem]
  by (auto simp: flush_write_def allocID_def Let_def)

lemma FlushMemTable_ok:
  assumes "cp_inv c" and "mt_inv mem" and "sizing_ok (env_sizing env)"
  shows "\<exists>c'. FlushMemTable env c mem = Some c' \<and> cp_inv c' \<and>
    cp_raw c' = cp_raw c ++ mt_view mem \<and> cp_L0Threshold c' = cp_L0Threshold c"
proof -
  let ?n = "sstableFilename (cp_nextID c)"
  obtain t where t: "table_ok t" "tcells t = cells (mt_entries mem)"
    "flush_write env c mem = Some (?n, c\<lparr>cp_nextID := cp_nextID c + 1, cp_files := (cp_files c)(?n \<mapsto> t)\<rparr>)"
    using flush_write_ok [OF assms] by blast
  define c1 where "c1 = c\<lparr>cp_nextID := cp_nextID c + 1, cp_files := (cp_files c)(?n \<mapsto> t)\<rparr>"
  define c2 where "c2 = flush_official ?n c1"
  note o = orphan_ok [OF assms(1), of t, folded c1_def]
  have names: "names_ok (prepend_l0 ?n (cp_levels c))"
    using level_names(1) [OF assms(1)] by (auto simp: names_ok_iff concat_prepend sstableFilename_ascii simp del: set_concat)
  have lv: "concat (cp_levels c2) = ?n # concat (cp_levels c)"
    using ms_Load_Save [of "(ms_Load (cp_meta c1))\<lparr>md_Levels := prepend_l0 ?n (cp_levels c)\<rparr>" "cp_meta c1"] names o(3)
    by (simp add: c2_def flush_official_def cp_levels_def concat_prepend Let_def)
  have fl: "cp_files c2 = cp_files c1" "cp_nextID c2 = cp_nextID c1" "cp_files c1 ?n = Some t"
    by (simp_all add: c2_def flush_official_def Let_def c1_def)
  have "ms_inv (cp_meta c2)"
    using o(1,3) names ms_inv_Save by (simp add: c2_def flush_official_def cp_inv_def Let_def cp_levels_def)
  then have "cp_inv c2"
    using o(1,3) lv fl t(1) level_names(2) [OF assms(1)] unfolding cp_inv_def by (auto simp del: set_concat)
  moreover have "cp_raw c2 = cp_raw c1 ++ map_of (tcells t)"
    unfolding cp_raw_def lv using fl o(3) by simp
  then have "cp_raw c2 = cp_raw c ++ mt_view mem" using t(2) o(2) by (simp add: mt_view_def ents_map_def)
  moreover have "FlushMemTable env c mem = Some c2" using t(3) by (simp add: FlushMemTable_def c2_def c1_def)
  moreover have "cp_L0Threshold c2 = cp_L0Threshold c" by (simp add: c2_def flush_official_def c1_def Let_def)
  ultimately show ?thesis by blast
qed

section \<open>A compaction keeps the live content\<close>

lemma compact_iter_ok:
  assumes "\<forall>t \<in> set ts. table_ok t"
  shows "src.merge_ok (compact_iter ts)" and "src.merge_all (compact_iter ts) = entries (merged (map tcells ts))"
    and "src.merge_rest (compact_iter ts) = []"
proof -
  have it: "compact_iter ts = with_winner source_ops (map sst_NewIterator ts)"
    by (simp add: compact_iter_def NewMergeIterator_def)
  show "src.merge_ok (compact_iter ts)"
    unfolding it by (rule src.with_winner_ok) (use assms sst_NewIterator_ok(1) in auto)
  show "src.merge_all (compact_iter ts) = entries (merged (map tcells ts))"
    by (simp add: src.merge_all_def it with_winner_def sst_NewIterator_ok(2) comp_def)
  have "merged (map (\<lambda>t. []) ts) = Map.empty" for ts :: "table list" by (induction ts) auto
  then show "src.merge_rest (compact_iter ts) = []"
    by (simp add: src.merge_rest_def it with_winner_def sst_NewIterator_def comp_def)
qed

lemma compact_write_ok:
  assumes "\<forall>t \<in> set ts. table_ok t" and "sizing_ok sizing"
  defines "E \<equiv> entries (merged (map tcells ts))"
  shows "\<exists>t. (if bottom then WriteSSTable_table sizing (filter_ops (merge_ops source_ops)) (compact_iter ts)
            else WriteSSTable_table sizing (merge_ops source_ops) (compact_iter ts)) = Some t \<and>
    table_ok t \<and> tcells t = (if bottom then live E else E)"
proof -
  note it = compact_iter_ok [OF assms(1)]
  have f: "src.merge.filter_ok (compact_iter ts)" using it by (simp add: src.merge.filter_ok_def)
  show ?thesis
    using src.merge.WriteSSTable_table_ok [OF it(1) assms(2)] src.mfilt.filt.WriteSSTable_table_ok [OF f assms(2)] it(2)
    by (cases bottom) (simp_all add: E_def)
qed

lemma split_levels:
  assumes "level < length ls"
  obtains A fr to B where "ls @ replicate (level + 1 + 1 - length ls) [] = A @ fr # to # B"
    and "length A = level" and "concat A @ fr @ to @ concat B = concat ls"
proof -
  let ?xs = "ls @ replicate (level + 1 + 1 - length ls) []"
  have len: "level + 1 < length ?xs" using assms by simp
  have xs: "?xs = take level ?xs @ ?xs ! level # ?xs ! (level + 1) # drop (level + 2) ?xs"
    using len by (metis Suc_eq_plus1 Suc_lessD add_2_eq_Suc' id_take_nth_drop Cons_nth_drop_Suc)
  have "concat ?xs = concat ls" by simp
  then have "concat (take level ?xs) @ ?xs ! level @ ?xs ! (level + 1) @ concat (drop (level + 2) ?xs) = concat ls"
    by (subst (asm) xs) simp
  then show thesis using that [OF xs] assms by simp
qed

lemma fewer_tombs_compact:
  assumes "bottom \<longrightarrow> post = []" and E: "E = entries (merged mid)"
  shows "fewer_tombs (merged (pre @ mid @ post)) (merged (pre @ (if bottom then live E else E) # post))"
proof (cases bottom)
  case True
  have "sorted_wrt (<) (map fst E)" unfolding E by (rule sorted_wrt_entries)
  from fewer_tombs_map_of_live [OF this] have "fewer_tombs (merged mid) (map_of (live E))"
    by (simp add: E map_of_entries)
  then show ?thesis using assms(1) True fewer_tombs_add by (simp add: merged_append)
next
  case False
  then show ?thesis by (simp add: merged_append E map_of_entries)
qed

text \<open>The state after a compaction that wrote \<open>t\<close>.\<close>

definition compacted ::
  "compactor \<Rightarrow> table \<Rightarrow> bytes list list \<Rightarrow> bytes list \<Rightarrow> bytes list list \<Rightarrow> compactor" where
  "compacted c t A old B =
     c\<lparr>cp_nextID := cp_nextID c + 1,
       cp_files := (cp_files c)(sstableFilename (cp_nextID c) \<mapsto> t) |` (- set old),
       cp_meta := ms_Save (cp_meta c) ((ms_Load (cp_meta c))
         \<lparr>md_Levels := trimTrailingEmptyLevels (A @ [] # [sstableFilename (cp_nextID c)] # B)\<rparr>)\<rparr>"

lemma compacted_ok:
  assumes inv: "cp_inv c" and cc: "concat A @ old @ concat B = concat (cp_levels c)" and t: "table_ok t"
    and tc: "tcells t = (if bottom then live E else E)" and bot: "bottom \<longrightarrow> concat B = []"
    and E: "E = entries (merged (map (\<lambda>n. tcells (the (cp_files c n))) old))"
  defines "c' \<equiv> compacted c t A old B"
  shows "cp_levels c' = trimTrailingEmptyLevels (A @ [] # [sstableFilename (cp_nextID c)] # B)"
    and "cp_inv c'" and "fewer_tombs (cp_raw c) (cp_raw c')"
proof -
  let ?new = "sstableFilename (cp_nextID c)" and ?f = "\<lambda>n. tcells (the (cp_files c n))"
  define ls where "ls = trimTrailingEmptyLevels (A @ [] # [?new] # B)"
  have cls: "concat ls = concat A @ ?new # concat B" by (simp add: ls_def)
  have fresh: "?new \<notin> set (concat (cp_levels c))" using level_names(2) [OF inv] by blast
  have names: "names_ok ls"
    using level_names(1) [OF inv] by (auto simp: names_ok_iff cls cc [symmetric] sstableFilename_ascii simp del: set_concat)
  show lv: "cp_levels c' = ls"
    using ms_Load_Save [of "(ms_Load (cp_meta c))\<lparr>md_Levels := ls\<rparr>"] names
    by (simp add: cp_levels_def c'_def compacted_def ls_def [symmetric])
  have dist: "distinct (concat A @ old @ concat B)" using inv cc by (simp add: cp_inv_def)
  have newf: "cp_files c' ?new = Some t"
    using fresh by (simp add: c'_def compacted_def cc [symmetric] del: set_concat)
  have same: "cp_files c' n = cp_files c n" if "n \<in> set (concat A @ concat B)" for n
    using that dist fresh by (auto simp: c'_def compacted_def cc [symmetric] restrict_map_def simp del: set_concat)
  have "ms_inv (cp_meta c')"
    using inv names ms_inv_Save by (simp add: c'_def compacted_def cp_inv_def ls_def)
  moreover have "distinct (concat ls)" using dist fresh by (auto simp: cls cc [symmetric] simp del: set_concat)
  moreover have "\<forall>n \<in> set (concat ls). \<exists>tb. cp_files c' n = Some tb \<and> table_ok tb"
  proof
    fix n assume "n \<in> set (concat ls)"
    then consider "n = ?new" | "n \<in> set (concat A @ concat B)" by (auto simp: cls simp del: set_concat)
    then show "\<exists>tb. cp_files c' n = Some tb \<and> table_ok tb"
      using newf t same inv by cases (auto simp: cp_inv_def cc [symmetric] simp del: set_concat)
  qed
  moreover have "\<forall>n \<in> dom (cp_files c'). \<exists>i < cp_nextID c'. n = sstableFilename i"
  proof
    fix n assume "n \<in> dom (cp_files c')"
    then have "n = ?new \<or> n \<in> dom (cp_files c)"
      by (auto simp: c'_def compacted_def restrict_map_def split: if_splits)
    then have "\<exists>i < Suc (cp_nextID c). n = sstableFilename i"
      using inv less_SucI unfolding cp_inv_def by blast
    then show "\<exists>i < cp_nextID c'. n = sstableFilename i" by (simp add: c'_def compacted_def)
  qed
  ultimately show "cp_inv c'" unfolding cp_inv_def lv by blast
  have "cp_raw c' = merged (map ?f (concat A) @ tcells t # map ?f (concat B))"
  proof -
    have "map (\<lambda>n. tcells (the (cp_files c' n))) (concat ls) = map ?f (concat A) @ tcells t # map ?f (concat B)"
      using same newf by (simp add: cls del: set_concat)
    then show ?thesis by (simp only: cp_raw_def lv)
  qed
  moreover have "cp_raw c = merged (map ?f (concat A) @ map ?f old @ map ?f (concat B))"
    by (simp add: cp_raw_def cc [symmetric])
  ultimately show "fewer_tombs (cp_raw c) (cp_raw c')"
    using fewer_tombs_compact [OF _ E, of bottom "map ?f (concat B)" "map ?f (concat A)"] bot tc by auto
qed

lemma compact_run:
  assumes sp: "cp_levels c @ replicate (level + 1 + 1 - length (cp_levels c)) [] = A @ fr # to # B"
    and A: "length A = level" and ne: "fr \<noteq> []" and opn: "open_tables (cp_files c) (fr @ to) = Inr ts"
    and w: "(if isBottomLevel (A @ fr # to # B) (level + 1)
         then WriteSSTable_table (env_sizing env) (filter_ops (merge_ops source_ops)) (compact_iter ts)
         else WriteSSTable_table (env_sizing env) (merge_ops source_ops) (compact_iter ts)) = Some t"
  shows "compactLevelLocked env c level (level + 1) = Some (compacted c t A (fr @ to) B, None)"
proof -
  have lv: "md_Levels (ms_Load (cp_meta c)) @ replicate (level + 1 + 1 - length (md_Levels (ms_Load (cp_meta c)))) [] =
    A @ fr # to # B" using sp by (simp only: cp_levels_def)
  have nth: "(A @ fr # to # B) ! level = fr" "(A @ fr # to # B) ! (level + 1) = to"
    "level < length (A @ fr # to # B)" "(A @ fr # to # B)[level := [], level + 1 := [x]] = A @ [] # [x] # B" for x
    using A by (simp_all add: nth_append list_update_append)
  show ?thesis
    unfolding compactLevelLocked_def Let_def lv nth opn allocID_def prod.case sum.case w option.case
    using ne nth(3) by (simp add: compacted_def)
qed

lemma compactLevel_ok:
  assumes inv: "cp_inv c" and sz: "sizing_ok (env_sizing env)" and l: "level < length (cp_levels c)"
    and ne: "cp_levels c ! level \<noteq> []"
  shows "\<exists>c' A to B. compactLevelLocked env c level (level + 1) = Some (c', None) \<and> cp_inv c' \<and>
    fewer_tombs (cp_raw c) (cp_raw c') \<and> cp_L0Threshold c' = cp_L0Threshold c \<and>
    A = take level (cp_levels c) \<and> concat (cp_levels c) = concat A @ (cp_levels c ! level @ to) @ concat B \<and>
    cp_levels c' = trimTrailingEmptyLevels (A @ [] # [sstableFilename (cp_nextID c)] # B)"
proof -
  let ?tb = "\<lambda>n. the (cp_files c n)"
  obtain A fr to B where sp: "cp_levels c @ replicate (level + 1 + 1 - length (cp_levels c)) [] = A @ fr # to # B"
    and A: "length A = level" and "concat A @ fr @ to @ concat B = concat (cp_levels c)"
    by (rule split_levels [OF l])
  then have cc: "concat A @ (fr @ to) @ concat B = concat (cp_levels c)" by simp
  have fr: "fr = cp_levels c ! level"
    using arg_cong [OF sp, of "\<lambda>x. x ! level"] l A by (simp add: nth_append)
  have At: "A = take level (cp_levels c)"
    using arg_cong [OF sp, of "take level"] l A by simp
  define bottom where "bottom = isBottomLevel (A @ fr # to # B) (level + 1)"
  have bot: "bottom \<longrightarrow> concat B = []" using A by (auto simp: bottom_def isBottomLevel_def list_all_iff)
  have ok: "\<forall>n \<in> set (fr @ to). \<exists>t. cp_files c n = Some t \<and> table_ok t"
    using inv by (auto simp: cp_inv_def cc [symmetric] simp del: set_concat)
  then have opn: "open_tables (cp_files c) (fr @ to) = Inr (map ?tb (fr @ to))"
    by (intro open_tables_ok) blast
  have "table_ok (?tb n)" if "n \<in> set (fr @ to)" for n using ok that by fastforce
  then have "\<forall>t \<in> set (map ?tb (fr @ to)). table_ok t" by auto
  from compact_write_ok [OF this sz, of bottom] obtain t where
    w: "(if bottom then WriteSSTable_table (env_sizing env) (filter_ops (merge_ops source_ops)) (compact_iter (map ?tb (fr @ to)))
         else WriteSSTable_table (env_sizing env) (merge_ops source_ops) (compact_iter (map ?tb (fr @ to)))) = Some t"
    and t: "table_ok t" "tcells t = (if bottom then live (entries (merged (map tcells (map ?tb (fr @ to)))))
         else entries (merged (map tcells (map ?tb (fr @ to)))))" by blast
  have run: "compactLevelLocked env c level (level + 1) = Some (compacted c t A (fr @ to) B, None)"
    by (rule compact_run [OF sp A _ opn w [unfolded bottom_def]]) (use ne fr in simp)
  note r = compacted_ok [OF inv cc t(1) _ bot refl]
  show ?thesis
    by (rule exI [of _ "compacted c t A (fr @ to) B"], rule exI [of _ A], rule exI [of _ to], rule exI [of _ B])
      (use run r t(2) At cc fr in \<open>auto simp: compacted_def comp_def\<close>)
qed

section \<open>The compaction loop returns\<close>

definition grows :: "lsm_env \<Rightarrow> nat \<Rightarrow> bool" where
  "grows env l0 \<longleftrightarrow> 1 \<le> l0 \<and> (\<forall>l. 2 \<le> (env_grow env ^^ Suc l) l0)"

definition cp_load :: "compactor \<Rightarrow> nat" where
  "cp_load c = length (concat (cp_levels c)) + (case cp_levels c of [] \<Rightarrow> 0 | l0 # _ \<Rightarrow> length l0)"

lemma firstOver_Some:
  assumes "firstOverThreshold env c (ms_Load (cp_meta c)) = Some level"
  shows "level < length (cp_levels c)" and "levelThreshold env c level \<le> length (cp_levels c ! level)"
  using assms by (auto simp: firstOverThreshold_def find_Some_iff cp_levels_def)

lemma over_files:
  assumes "levelThreshold env c level \<le> length (cp_levels c ! level)" and "grows env (cp_L0Threshold c)"
  shows "(if level = 0 then 1 else 2) \<le> length (cp_levels c ! level)"
proof (cases level)
  case 0
  then show ?thesis using assms by (simp add: levelThreshold_def grows_def)
next
  case (Suc l)
  then have "2 \<le> levelThreshold env c level" using assms(2) by (simp add: levelThreshold_def grows_def)
  then show ?thesis using assms(1) Suc by simp
qed

lemma compact_load:
  assumes "level < length (cp_levels c)" and "levelThreshold env c level \<le> length (cp_levels c ! level)"
    and "grows env (cp_L0Threshold c)" and "A = take level (cp_levels c)"
    and "concat (cp_levels c) = concat A @ (cp_levels c ! level @ to) @ concat B"
    and "cp_levels c' = trimTrailingEmptyLevels (A @ [] # [n] # B)"
  shows "cp_load c' < cp_load c"
proof -
  let ?f = "cp_levels c ! level"
  have f: "(if level = 0 then 1 else 2) \<le> length ?f" by (rule over_files [OF assms(2,3)])
  obtain l0 ls where c: "cp_levels c = l0 # ls" using assms(1) by (cases "cp_levels c") auto
  have ne: "cp_levels c' \<noteq> []" and hd: "hd (cp_levels c') = hd (A @ [] # [n] # B)"
    using trim_hd [of "A @ [] # [n] # B"] assms(6) by auto
  then obtain l0' ls' where c': "cp_levels c' = l0' # ls'" "l0' = hd (A @ [] # [n] # B)"
    by (cases "cp_levels c'") auto
  have tot: "length (concat (cp_levels c')) = length (concat A) + 1 + length (concat B)"
    unfolding assms(6) by simp
  have tot0: "length (concat (cp_levels c)) = length (concat A) + length ?f + length to + length (concat B)"
    unfolding assms(5) by simp
  show ?thesis
  proof (cases level)
    case 0
    then have "l0' = []" "l0 = ?f" using assms(4) c' c by simp_all
    then show ?thesis using tot tot0 f 0 c c' by (simp add: cp_load_def)
  next
    case (Suc l)
    then have "l0' = l0" using assms(4) c' c by simp
    then show ?thesis using tot tot0 f Suc c c' by (simp add: cp_load_def)
  qed
qed

lemma MaybeTriggerCompaction_ok:
  assumes "cp_inv c" and "sizing_ok (env_sizing env)" and "grows env (cp_L0Threshold c)"
  shows "\<exists>c'. MaybeTriggerCompaction env c = Some (c', None) \<and> cp_inv c' \<and> fewer_tombs (cp_raw c) (cp_raw c') \<and>
    cp_L0Threshold c' = cp_L0Threshold c \<and> firstOverThreshold env c' (ms_Load (cp_meta c')) = None"
  using assms
proof (induction "cp_load c" arbitrary: c rule: less_induct)
  case less
  show ?case
  proof (cases "firstOverThreshold env c (ms_Load (cp_meta c))")
    case None
    then show ?thesis using less.prems by (subst MaybeTriggerCompaction.simps) simp
  next
    case (Some level)
    note fo = firstOver_Some [OF Some]
    have ne: "cp_levels c ! level \<noteq> []"
      using over_files [OF fo(2) less.prems(3)] by (auto split: if_splits)
    obtain c1 A to B where c1: "compactLevelLocked env c level (level + 1) = Some (c1, None)" "cp_inv c1"
      "fewer_tombs (cp_raw c) (cp_raw c1)" "cp_L0Threshold c1 = cp_L0Threshold c" "A = take level (cp_levels c)"
      "concat (cp_levels c) = concat A @ (cp_levels c ! level @ to) @ concat B"
      "cp_levels c1 = trimTrailingEmptyLevels (A @ [] # [sstableFilename (cp_nextID c)] # B)"
      using compactLevel_ok [OF less.prems(1,2) fo(1) ne] by blast
    have "cp_load c1 < cp_load c" by (rule compact_load [OF fo less.prems(3) c1(5-7)])
    from less.hyps [OF this c1(2) less.prems(2)] less.prems(3) c1(4)
    obtain c2 where "MaybeTriggerCompaction env c1 = Some (c2, None)" "cp_inv c2" "fewer_tombs (cp_raw c1) (cp_raw c2)"
      "cp_L0Threshold c2 = cp_L0Threshold c" "firstOverThreshold env c2 (ms_Load (cp_meta c2)) = None" by auto
    then show ?thesis
      using Some c1(1,3) fewer_tombs_trans by (subst MaybeTriggerCompaction.simps) auto
  qed
qed

section \<open>Properties\<close>

text \<open>(C12) The compaction loop returns, leaves no level over its threshold, keeps the state
  well-formed, and does not change the live content, for any memtable on top.\<close>

theorem compaction_preserves_content:
  assumes "cp_inv c" and "sizing_ok (env_sizing env)" and "grows env (cp_L0Threshold c)"
  shows "\<exists>c'. MaybeTriggerCompaction env c = Some (c', None) \<and> cp_inv c' \<and>
    firstOverThreshold env c' (ms_Load (cp_meta c')) = None \<and>
    (\<forall>mem. live_map (cp_raw c' ++ mem) = live_map (cp_raw c ++ mem))"
  using MaybeTriggerCompaction_ok [OF assms] fewer_tombs_live by blast

definition comp0 :: compactor where
  "comp0 = NewCompactor Map.empty NewMetaStore 0 0"

lemma cp_inv0: "cp_inv comp0"
  by (simp add: comp0_def NewCompactor_def cp_inv_def cp_levels_def ms_inv_New zeroMeta_def)

theorem compaction_preserves_content_witness:
  "\<exists>c'. MaybeTriggerCompaction \<lparr>env_sizing = (\<lambda>n. (8, 1)), env_grow = (\<lambda>t. t * 10), env_flips = (\<lambda>n. [])\<rparr> comp0 =
     Some (c', None)"
proof -
  let ?env = "\<lparr>env_sizing = (\<lambda>n. (8, 1)), env_grow = (\<lambda>t. t * 10), env_flips = (\<lambda>n. [])\<rparr> :: lsm_env"
  have "((\<lambda>t. t * 10) ^^ n) (4 :: nat) = 4 * 10 ^ n" for n by (induction n) simp_all
  then have "sizing_ok (env_sizing ?env)" "grows ?env (cp_L0Threshold comp0)"
    by (simp_all add: comp0_def NewCompactor_def sizing_ok_def grows_def)
  from compaction_preserves_content [OF cp_inv0 this] show ?thesis by blast
qed



end
