(* ===== verification/Lsm_Engine.thy ===== *)
theory Lsm_Engine
  imports Lsm_Compaction
begin

text \<open>
  The two storage engines: \<open>BasicKV\<close> (\<open>internal/storage/lsm/basic_kv.go\<close>), a log and a
  memtable, and \<open>LSMEngine\<close> (\<open>internal/storage/lsm/lsm.go\<close>), which flushes its memtable into
  levels of SSTables. Both implement the engine interface: the two interpretations
  of \<open>storage_engine\<close> at the end discharge its laws for them. The levels of skip-list nodes
  come from the coin flips of the environment, one draw per write. \<open>None\<close> stands for a
  panic or a loop that never returns; the method tables at the end turn it into an
  error, and the lemmas show that it never happens under the invariant.
\<close>

section \<open>Entries into the memtable\<close>

fun applyEntries :: "lsm_env \<Rightarrow> entry list \<Rightarrow> memTable \<times> nat \<Rightarrow> (memTable \<times> nat) option" where
  "applyEntries env [] s = Some s"
| "applyEntries env (ent # ents) (mem, draws) =
     (let lvl = randomLevel (env_flips env draws);
          r = (if ent_Op ent = OpPut then mt_Put mem lvl (ent_Key ent) (ent_Value ent)
               else if ent_Op ent = OpDelete then mt_Delete mem lvl (ent_Key ent)
               else Some mem)
      in case r of None \<Rightarrow> None | Some mem' \<Rightarrow> applyEntries env ents (mem', draws + 1))"

definition applyEntriesToMemTable :: "lsm_env \<Rightarrow> memTable \<times> nat \<Rightarrow> entry list \<Rightarrow> (memTable \<times> nat) option" where
  "applyEntriesToMemTable env s ents = applyEntries env ents s"

definition replayWALIntoMemTable :: "lsm_env \<Rightarrow> bytes \<Rightarrow> memTable \<times> nat \<Rightarrow> (memTable \<times> nat) result option" where
  "replayWALIntoMemTable env wal s =
     (case wal_ReadAll wal of
        None \<Rightarrow> None
      | Some (Inl err) \<Rightarrow> Some (Inl (Wrap ''read WAL'' err))
      | Some (Inr ents) \<Rightarrow> map_option Inr (applyEntriesToMemTable env s ents))"

fun batch_entry :: "batch_op \<Rightarrow> entry" where
  "batch_entry (BatchPut k v) = \<lparr>ent_Key = k, ent_Value = v, ent_Op = OpPut\<rparr>"
| "batch_entry (BatchDelete k) = \<lparr>ent_Key = k, ent_Value = [], ent_Op = OpDelete\<rparr>"

definition batch_Put :: "batch_op list \<Rightarrow> bytes \<Rightarrow> bytes \<Rightarrow> batch_op list" where
  "batch_Put bs key value = bs @ [BatchPut key value]"

definition batch_Delete :: "batch_op list \<Rightarrow> bytes \<Rightarrow> batch_op list" where
  "batch_Delete bs key = bs @ [BatchDelete key]"

definition batch_Reset :: "batch_op list \<Rightarrow> batch_op list" where
  "batch_Reset bs = []"

section \<open>BasicKV\<close>

record basicKV =
  kv_wal :: bytes
  kv_mem :: memTable
  kv_draws :: nat

definition OpenBasicKV :: "lsm_env \<Rightarrow> bytes \<Rightarrow> basicKV result option" where
  "OpenBasicKV env wal =
     (case replayWALIntoMemTable env wal (NewMemTable, 0) of
        None \<Rightarrow> None
      | Some (Inl err) \<Rightarrow> Some (Inl err)
      | Some (Inr (mem, draws)) \<Rightarrow> Some (Inr \<lparr>kv_wal = wal, kv_mem = mem, kv_draws = draws\<rparr>))"

definition kv_Put :: "lsm_env \<Rightarrow> basicKV \<Rightarrow> bytes \<Rightarrow> bytes \<Rightarrow> basicKV option" where
  "kv_Put env kv key value =
     map_option (\<lambda>mem. kv\<lparr>kv_wal := wal_Append (kv_wal kv) \<lparr>ent_Key = key, ent_Value = value, ent_Op = OpPut\<rparr>,
                          kv_mem := mem, kv_draws := kv_draws kv + 1\<rparr>)
       (mt_Put (kv_mem kv) (randomLevel (env_flips env (kv_draws kv))) key value)"

definition kv_Get :: "basicKV \<Rightarrow> bytes \<Rightarrow> bytes result option" where
  "kv_Get kv key =
     (case mt_Get (kv_mem kv) key of
        None \<Rightarrow> None
      | Some (value, found, tombstone) \<Rightarrow>
          Some (if \<not> found \<or> tombstone then Inl ErrKeyNotFound else Inr value))"

definition kv_Delete :: "lsm_env \<Rightarrow> basicKV \<Rightarrow> bytes \<Rightarrow> basicKV option" where
  "kv_Delete env kv key =
     map_option (\<lambda>mem. kv\<lparr>kv_wal := wal_Append (kv_wal kv) \<lparr>ent_Key = key, ent_Value = [], ent_Op = OpDelete\<rparr>,
                          kv_mem := mem, kv_draws := kv_draws kv + 1\<rparr>)
       (mt_Delete (kv_mem kv) (randomLevel (env_flips env (kv_draws kv))) key)"

definition kv_NewIterator :: "basicKV \<Rightarrow> source_iter" where
  "kv_NewIterator kv = mt_NewIterator (kv_mem kv)"

definition kv_Commit :: "lsm_env \<Rightarrow> basicKV \<Rightarrow> batch_op list \<Rightarrow> basicKV option" where
  "kv_Commit env kv bs =
     (let ents = map batch_entry bs
      in map_option (\<lambda>(mem, draws). kv\<lparr>kv_wal := wal_WriteAll (kv_wal kv) ents, kv_mem := mem, kv_draws := draws\<rparr>)
           (applyEntriesToMemTable env (kv_mem kv, kv_draws kv) ents))"

section \<open>LSMEngine\<close>

record lsm =
  lsm_comp :: compactor
  lsm_wal :: bytes
  lsm_mem :: memTable
  lsm_levels :: "table list list"
  lsm_memTableThreshold :: int
  lsm_draws :: nat

fun open_levels :: "(bytes \<rightharpoonup> table) \<Rightarrow> bytes list list \<Rightarrow> table list list result" where
  "open_levels files [] = Inr []"
| "open_levels files (names # ls) =
     (case open_tables files names of
        Inl err \<Rightarrow> Inl err
      | Inr ts \<Rightarrow> (case open_levels files ls of Inl err \<Rightarrow> Inl err | Inr tss \<Rightarrow> Inr (ts # tss)))"

definition reloadLevels :: "lsm \<Rightarrow> lsm \<times> error option" where
  "reloadLevels e =
     (let meta = ms_Load (cp_meta (lsm_comp e))
      in case open_levels (cp_files (lsm_comp e)) (md_Levels meta) of
           Inl err \<Rightarrow> (e\<lparr>lsm_levels := []\<rparr>, Some err)
         | Inr levels \<Rightarrow> (e\<lparr>lsm_levels := levels\<rparr>, None))"

definition flushActiveMemTableLocked :: "lsm_env \<Rightarrow> lsm \<Rightarrow> (lsm \<times> error option) option" where
  "flushActiveMemTableLocked env e =
     (if mt_length (lsm_mem e) = 0 then Some (e, None)
      else
        (let frozen = mt_Freeze (lsm_mem e)
         in case FlushMemTable env (lsm_comp e) frozen of
              None \<Rightarrow> None
            | Some c \<Rightarrow>
                (let e1 = e\<lparr>lsm_comp := c, lsm_mem := NewMemTable, lsm_wal := wal_Truncate (lsm_wal e)\<rparr>
                 in case reloadLevels e1 of
                      (e2, Some err) \<Rightarrow> Some (e2, Some err)
                    | (e2, None) \<Rightarrow>
                        (case MaybeTriggerCompaction env (lsm_comp e2) of
                           None \<Rightarrow> None
                         | Some (c', Some err) \<Rightarrow> Some (e2\<lparr>lsm_comp := c'\<rparr>, Some (Wrap ''compaction'' err))
                         | Some (c', None) \<Rightarrow> Some (reloadLevels (e2\<lparr>lsm_comp := c'\<rparr>))))))"

definition maybeFlushLocked :: "lsm_env \<Rightarrow> lsm \<Rightarrow> (lsm \<times> error option) option" where
  "maybeFlushLocked env e =
     (if mt_size (lsm_mem e) < lsm_memTableThreshold e then Some (e, None)
      else flushActiveMemTableLocked env e)"

definition lsm_Put :: "lsm_env \<Rightarrow> lsm \<Rightarrow> bytes \<Rightarrow> bytes \<Rightarrow> (lsm \<times> error option) option" where
  "lsm_Put env e key value =
     (case mt_Put (lsm_mem e) (randomLevel (env_flips env (lsm_draws e))) key value of
        None \<Rightarrow> None
      | Some mem \<Rightarrow>
          maybeFlushLocked env
            (e\<lparr>lsm_wal := wal_Append (lsm_wal e) \<lparr>ent_Key = key, ent_Value = value, ent_Op = OpPut\<rparr>,
               lsm_mem := mem, lsm_draws := lsm_draws e + 1\<rparr>))"

definition lsm_Delete :: "lsm_env \<Rightarrow> lsm \<Rightarrow> bytes \<Rightarrow> (lsm \<times> error option) option" where
  "lsm_Delete env e key =
     (case mt_Delete (lsm_mem e) (randomLevel (env_flips env (lsm_draws e))) key of
        None \<Rightarrow> None
      | Some mem \<Rightarrow>
          maybeFlushLocked env
            (e\<lparr>lsm_wal := wal_Append (lsm_wal e) \<lparr>ent_Key = key, ent_Value = [], ent_Op = OpDelete\<rparr>,
               lsm_mem := mem, lsm_draws := lsm_draws e + 1\<rparr>))"

definition lsm_Commit :: "lsm_env \<Rightarrow> lsm \<Rightarrow> batch_op list \<Rightarrow> (lsm \<times> error option) option" where
  "lsm_Commit env e bs =
     (let ents = map batch_entry bs
      in case applyEntriesToMemTable env (lsm_mem e, lsm_draws e) ents of
           None \<Rightarrow> None
         | Some (mem, draws) \<Rightarrow>
             maybeFlushLocked env
               (e\<lparr>lsm_wal := wal_WriteAll (lsm_wal e) ents, lsm_mem := mem, lsm_draws := draws\<rparr>))"

text \<open>The loops of \<open>Get\<close> over the readers of a level.\<close>

fun get_readers :: "table list \<Rightarrow> bytes \<Rightarrow> bytes result option" where
  "get_readers [] key = None"
| "get_readers (r # rs) key =
     (case table_Get r key of
        Inl err \<Rightarrow> Some (Inl err)
      | Inr (value, found, tombstone) \<Rightarrow>
          if found then Some (if tombstone then Inl ErrKeyNotFound else Inr value)
          else get_readers rs key)"

fun get_levels :: "table list list \<Rightarrow> bytes \<Rightarrow> bytes result option" where
  "get_levels [] key = None"
| "get_levels (level # ls) key =
     (case get_readers level key of None \<Rightarrow> get_levels ls key | Some r \<Rightarrow> Some r)"

definition levelSlice :: "lsm \<Rightarrow> nat \<Rightarrow> table list list" where
  "levelSlice e from = (if from \<ge> length (lsm_levels e) then [] else drop from (lsm_levels e))"

definition lsm_Get :: "lsm \<Rightarrow> bytes \<Rightarrow> bytes result option" where
  "lsm_Get e key =
     (case mt_Get (lsm_mem e) key of
        None \<Rightarrow> None
      | Some (value, found, tombstone) \<Rightarrow>
          if found then Some (if tombstone then Inl ErrKeyNotFound else Inr value)
          else
            (case (if lsm_levels e \<noteq> [] then get_readers (lsm_levels e ! 0) key else None) of
               Some r \<Rightarrow> Some r
             | None \<Rightarrow>
                 (case get_levels (levelSlice e 1) key of
                    Some r \<Rightarrow> Some r
                  | None \<Rightarrow> Some (Inl ErrKeyNotFound))))"

definition newMergedIteratorLocked :: "lsm \<Rightarrow> source_iter merge_iter option" where
  "newMergedIteratorLocked e =
     map_option (\<lambda>es.
         NewMergeIterator source_ops
           (snap_NewIterator es #
            map sst_NewIterator (if lsm_levels e \<noteq> [] then lsm_levels e ! 0 else []) @
            map sst_NewIterator (concat (levelSlice e 1))))
       (mt_Snapshot (lsm_mem e))"

definition lsm_Close :: "lsm_env \<Rightarrow> lsm \<Rightarrow> (lsm \<times> error option) option" where
  "lsm_Close env e =
     (case flushActiveMemTableLocked env e of
        None \<Rightarrow> None
      | Some (e', Some err) \<Rightarrow> Some (e', Some err)
      | Some (e', None) \<Rightarrow> Some (e'\<lparr>lsm_levels := []\<rparr>, None))"

record lsmOptions =
  opt_MemTableThreshold :: int
  opt_L0Threshold :: int

text \<open>What a directory holds between two runs of the engine.\<close>

record lsm_dir =
  dir_files :: "bytes \<rightharpoonup> table"
  dir_meta :: metaStore
  dir_wal :: bytes

definition OpenLSM :: "lsm_env \<Rightarrow> lsmOptions \<Rightarrow> lsm_dir \<Rightarrow> lsm result option" where
  "OpenLSM env opts dir =
     (let threshold = (if opt_MemTableThreshold opts \<le> 0 then 4 * 2 ^ 20 else opt_MemTableThreshold opts);
          nextID = scanDirForNextID (sorted_list_of_set (dom (dir_files dir)));
          engine = \<lparr>lsm_comp = NewCompactor (dir_files dir) (dir_meta dir) nextID (opt_L0Threshold opts),
                    lsm_wal = dir_wal dir, lsm_mem = NewMemTable, lsm_levels = [],
                    lsm_memTableThreshold = threshold, lsm_draws = 0\<rparr>
      in case reloadLevels engine of
           (_, Some err) \<Rightarrow> Some (Inl err)
         | (e, None) \<Rightarrow>
             (case replayWALIntoMemTable env (lsm_wal e) (lsm_mem e, lsm_draws e) of
                None \<Rightarrow> None
              | Some (Inl err) \<Rightarrow> Some (Inl err)
              | Some (Inr (mem, draws)) \<Rightarrow> Some (Inr (e\<lparr>lsm_mem := mem, lsm_draws := draws\<rparr>))))"

section \<open>Replay\<close>

definition apply_entry :: "entry \<Rightarrow> (bytes \<rightharpoonup> bytes \<times> bool) \<Rightarrow> (bytes \<rightharpoonup> bytes \<times> bool)" where
  "apply_entry ent m =
     (if ent_Op ent = OpPut then m(ent_Key ent \<mapsto> (ent_Value ent, False))
      else if ent_Op ent = OpDelete then m(ent_Key ent \<mapsto> ([], True))
      else m)"

definition replay :: "entry list \<Rightarrow> (bytes \<rightharpoonup> bytes \<times> bool) \<Rightarrow> (bytes \<rightharpoonup> bytes \<times> bool)" where
  "replay ents m = fold apply_entry ents m"

abbreviation mem_ready :: "memTable \<Rightarrow> bool" where
  "mem_ready mem \<equiv> mt_inv mem \<and> \<not> mt_frozen mem"

lemma applyEntries_ok:
  "mem_ready mem \<Longrightarrow> \<exists>mem' draws'. applyEntries env ents (mem, draws) = Some (mem', draws') \<and>
     mem_ready mem' \<and> mt_view mem' = replay ents (mt_view mem)"
proof (induction ents arbitrary: mem draws)
  case (Cons ent ents)
  let ?lvl = "randomLevel (env_flips env draws)"
  let ?r = "if ent_Op ent = OpPut then mt_Put mem ?lvl (ent_Key ent) (ent_Value ent)
    else if ent_Op ent = OpDelete then mt_Delete mem ?lvl (ent_Key ent) else Some mem"
  have "\<exists>mem1. ?r = Some mem1 \<and> mem_ready mem1 \<and> mt_view mem1 = apply_entry ent (mt_view mem)"
    using mt_Put_ok [of mem ?lvl "ent_Key ent" "ent_Value ent"] mt_Delete_ok [of mem ?lvl "ent_Key ent"]
      Cons.prems randomLevel_bounds [of "env_flips env draws"] by (auto simp: apply_entry_def)
  then obtain mem1 where m1: "?r = Some mem1" "mem_ready mem1" "mt_view mem1 = apply_entry ent (mt_view mem)" by blast
  from Cons.IH [OF m1(2), of "draws + 1"] show ?case
    by (simp add: m1(1) Let_def replay_def m1(3) [symmetric])
qed (simp add: replay_def)

lemma live_map_upd [simp]:
  "live_map (m(k \<mapsto> (v, False))) = (live_map m)(k \<mapsto> v)" "live_map (m(k \<mapsto> (v, True))) = (live_map m)(k := None)"
  by (auto simp: live_map_def fun_eq_iff)

lemma finite_live_map: "finite (dom m) \<Longrightarrow> finite (dom (live_map m))"
  by (rule finite_subset [of _ "dom m"]) (auto simp: live_map_def split: option.splits)

lemma live_map_batch:
  "live_map (raw ++ replay (map batch_entry bs) m) = apply_batch bs (live_map (raw ++ m))"
proof (induction bs arbitrary: m)
  case (Cons b bs)
  show ?case
  proof (cases b)
    case (BatchPut k v)
    have "apply_entry (batch_entry b) m = m(k \<mapsto> (v, False))" unfolding BatchPut by (simp add: apply_entry_def)
    then show ?thesis using Cons [of "m(k \<mapsto> (v, False))"] unfolding BatchPut by (simp add: replay_def del: fun_upd_apply)
  next
    case (BatchDelete k)
    have "apply_entry (batch_entry b) m = m(k \<mapsto> ([], True))" unfolding BatchDelete by (simp add: apply_entry_def)
    then show ?thesis using Cons [of "m(k \<mapsto> ([], True))"] unfolding BatchDelete by (simp add: replay_def del: fun_upd_apply)
  qed
qed (simp add: replay_def)

lemma live_entries:
  assumes "finite (dom m)"
  shows "map (\<lambda>c. (fst c, fst (snd c))) (live (entries m)) = entries (live_map m)"
proof (rule entries_eqI [symmetric])
  show "finite (dom (live_map m))" by (rule finite_live_map [OF assms])
  show "sorted_wrt (<) (map fst (map (\<lambda>c. (fst c, fst (snd c))) (live (entries m))))"
    using live_sorted [OF sorted_wrt_entries] by (simp add: comp_def)
  show "set (map (\<lambda>c. (fst c, fst (snd c))) (live (entries m))) = {(k, v). live_map m k = Some v}"
    using set_entries [OF assms] by (force simp: live_def live_map_def split: option.splits if_splits)
qed

section \<open>The engines are finite maps\<close>

lemma finite_mt_view [simp]: "finite (dom (mt_view m))"
  by (simp add: mt_view_def ents_map_def finite_dom_map_of)

definition kv_view :: "basicKV \<Rightarrow> bytes \<rightharpoonup> bytes" where
  "kv_view kv = live_map (mt_view (kv_mem kv))"

definition kv_inv :: "basicKV \<Rightarrow> bool" where
  "kv_inv kv \<longleftrightarrow> mem_ready (kv_mem kv)"

lemma kv_Put_ok:
  assumes "kv_inv kv"
  shows "\<exists>kv'. kv_Put env kv k v = Some kv' \<and> kv_inv kv' \<and> kv_view kv' = (kv_view kv)(k \<mapsto> v)"
  using mt_Put_ok [of "kv_mem kv" "randomLevel (env_flips env (kv_draws kv))" k v] assms
    randomLevel_bounds [of "env_flips env (kv_draws kv)"]
  by (auto simp: kv_Put_def kv_inv_def kv_view_def)

lemma kv_Delete_ok:
  assumes "kv_inv kv"
  shows "\<exists>kv'. kv_Delete env kv k = Some kv' \<and> kv_inv kv' \<and> kv_view kv' = (kv_view kv)(k := None)"
  using mt_Delete_ok [of "kv_mem kv" "randomLevel (env_flips env (kv_draws kv))" k] assms
    randomLevel_bounds [of "env_flips env (kv_draws kv)"]
  by (auto simp: kv_Delete_def kv_inv_def kv_view_def)

lemma kv_Commit_ok:
  assumes "kv_inv kv"
  shows "\<exists>kv'. kv_Commit env kv bs = Some kv' \<and> kv_inv kv' \<and> kv_view kv' = apply_batch bs (kv_view kv)"
  using applyEntries_ok [of "kv_mem kv" env "map batch_entry bs" "kv_draws kv"] assms
    live_map_batch [of Map.empty bs "mt_view (kv_mem kv)"]
  by (auto simp: kv_Commit_def applyEntriesToMemTable_def kv_inv_def kv_view_def)

lemma kv_Get_ok:
  "kv_inv kv \<Longrightarrow> kv_Get kv k = Some (case kv_view kv k of None \<Rightarrow> Inl ErrKeyNotFound | Some v \<Rightarrow> Inr v)"
  by (auto simp: kv_Get_def kv_inv_def mt_Get_ok kv_view_def live_map_def split: option.split)

definition lsm_raw :: "lsm \<Rightarrow> bytes \<rightharpoonup> bytes \<times> bool" where
  "lsm_raw e = merged (map tcells (concat (lsm_levels e))) ++ mt_view (lsm_mem e)"

definition lsm_view :: "lsm \<Rightarrow> bytes \<rightharpoonup> bytes" where
  "lsm_view e = live_map (lsm_raw e)"

definition levels_of :: "compactor \<Rightarrow> table list list" where
  "levels_of c = map (map (\<lambda>n. the (cp_files c n))) (cp_levels c)"

definition lsm_inv :: "lsm_env \<Rightarrow> lsm \<Rightarrow> bool" where
  "lsm_inv env e \<longleftrightarrow>
     mem_ready (lsm_mem e) \<and> cp_inv (lsm_comp e) \<and> sizing_ok (env_sizing env) \<and>
     grows env (cp_L0Threshold (lsm_comp e)) \<and> lsm_levels e = levels_of (lsm_comp e)"

lemma levels_raw: "merged (map tcells (concat (levels_of c))) = cp_raw c"
  by (simp add: levels_of_def cp_raw_def map_concat comp_def)

lemma levels_ok: "cp_inv c \<Longrightarrow> t \<in> set (concat (levels_of c)) \<Longrightarrow> table_ok t"
  by (fastforce simp: levels_of_def cp_inv_def)

lemma open_levels_ok:
  "\<forall>n \<in> set (concat ls). \<exists>t. files n = Some t \<Longrightarrow> open_levels files ls = Inr (map (map (\<lambda>n. the (files n))) ls)"
  by (induction ls) (auto simp: open_tables_ok)

lemma reloadLevels_ok:
  assumes "cp_inv (lsm_comp e)"
  shows "reloadLevels e = (e\<lparr>lsm_levels := levels_of (lsm_comp e)\<rparr>, None)"
proof -
  have "open_levels (cp_files (lsm_comp e)) (cp_levels (lsm_comp e)) = Inr (levels_of (lsm_comp e))"
    unfolding levels_of_def by (rule open_levels_ok) (use assms in \<open>unfold cp_inv_def, blast\<close>)
  then show ?thesis by (simp add: reloadLevels_def cp_levels_def)
qed

lemma flush_ok:
  assumes inv: "lsm_inv env e"
  shows "\<exists>e'. flushActiveMemTableLocked env e = Some (e', None) \<and> lsm_inv env e' \<and> lsm_view e' = lsm_view e \<and>
    (mt_length (lsm_mem e) \<noteq> 0 \<longrightarrow> lsm_wal e' = [] \<and> lsm_mem e' = NewMemTable) \<and>
    (mt_length (lsm_mem e) = 0 \<longrightarrow> e' = e)"
proof (cases "mt_length (lsm_mem e) = 0")
  case True
  then show ?thesis using inv by (simp add: flushActiveMemTableLocked_def)
next
  case False
  have i: "mt_inv (mt_Freeze (lsm_mem e))" "cp_inv (lsm_comp e)" "sizing_ok (env_sizing env)"
    "grows env (cp_L0Threshold (lsm_comp e))" "lsm_levels e = levels_of (lsm_comp e)"
    using inv by (simp_all add: lsm_inv_def mt_Freeze_def)
  obtain c1 where c1: "FlushMemTable env (lsm_comp e) (mt_Freeze (lsm_mem e)) = Some c1" "cp_inv c1"
    "cp_raw c1 = cp_raw (lsm_comp e) ++ mt_view (lsm_mem e)" "cp_L0Threshold c1 = cp_L0Threshold (lsm_comp e)"
    using FlushMemTable_ok [OF i(2,1,3)] by (auto simp: mt_Freeze_def)
  obtain c2 where c2: "MaybeTriggerCompaction env c1 = Some (c2, None)" "cp_inv c2" "fewer_tombs (cp_raw c1) (cp_raw c2)"
    "cp_L0Threshold c2 = cp_L0Threshold c1" using MaybeTriggerCompaction_ok [OF c1(2) i(3)] i(4) c1(4) by auto
  define e2 where "e2 = e\<lparr>lsm_comp := c2, lsm_mem := NewMemTable, lsm_wal := [], lsm_levels := levels_of c2\<rparr>"
  have run: "flushActiveMemTableLocked env e = Some (e2, None)"
    using False c1(1) c2(1)
    by (simp add: flushActiveMemTableLocked_def Let_def reloadLevels_ok c1(2) c2(2) wal_Truncate_def e2_def)
  have "lsm_inv env e2" using c2 c1(4) i by (simp add: lsm_inv_def e2_def mt_inv_New) (simp add: NewMemTable_def)
  moreover have "lsm_view e2 = lsm_view e"
    using fewer_tombs_live [OF c2(3), of Map.empty]
    by (simp add: lsm_view_def lsm_raw_def e2_def levels_raw i(5) mt_inv_New c1(3))
  ultimately show ?thesis using run False by (auto simp: e2_def)
qed

abbreviation flushed_or :: "lsm \<Rightarrow> bytes \<Rightarrow> memTable \<Rightarrow> bool" where
  "flushed_or e w mem \<equiv> lsm_wal e = w \<and> lsm_mem e = mem \<or> lsm_wal e = [] \<and> lsm_mem e = NewMemTable"

lemma maybeFlush_ok:
  assumes "lsm_inv env e"
  shows "\<exists>e'. maybeFlushLocked env e = Some (e', None) \<and> lsm_inv env e' \<and> lsm_view e' = lsm_view e \<and>
    flushed_or e' (lsm_wal e) (lsm_mem e)"
  using flush_ok [OF assms] assms by (auto simp: maybeFlushLocked_def)

lemma lsm_write:
  assumes "lsm_inv env e" and "mem_ready mem"
  shows "\<exists>e'. maybeFlushLocked env (e\<lparr>lsm_wal := w, lsm_mem := mem, lsm_draws := d\<rparr>) = Some (e', None) \<and>
    lsm_inv env e' \<and> lsm_view e' = live_map (merged (map tcells (concat (lsm_levels e))) ++ mt_view mem) \<and>
    flushed_or e' w mem"
proof -
  let ?e = "e\<lparr>lsm_wal := w, lsm_mem := mem, lsm_draws := d\<rparr>"
  have "lsm_inv env ?e" using assms by (simp add: lsm_inv_def)
  then show ?thesis using maybeFlush_ok [of env ?e] by (simp add: lsm_view_def lsm_raw_def)
qed

lemma lsm_Put_ok:
  assumes inv: "lsm_inv env e"
  shows "\<exists>e' mem. lsm_Put env e k v = Some (e', None) \<and> lsm_inv env e' \<and> lsm_view e' = (lsm_view e)(k \<mapsto> v) \<and>
    mt_view mem = apply_entry (batch_entry (BatchPut k v)) (mt_view (lsm_mem e)) \<and>
    flushed_or e' (lsm_wal e @ entry_Encode (batch_entry (BatchPut k v))) mem"
proof -
  obtain mem where m: "mt_Put (lsm_mem e) (randomLevel (env_flips env (lsm_draws e))) k v = Some mem"
    "mem_ready mem" "mt_view mem = (mt_view (lsm_mem e))(k \<mapsto> (v, False))"
    using mt_Put_ok [of "lsm_mem e"] inv randomLevel_bounds unfolding lsm_inv_def by blast
  let ?ent = "batch_entry (BatchPut k v)"
  obtain e' where "lsm_Put env e k v = Some (e', None)" "lsm_inv env e'" "flushed_or e' (lsm_wal e @ entry_Encode ?ent) mem"
    "lsm_view e' = live_map (merged (map tcells (concat (lsm_levels e))) ++ mt_view mem)"
    using lsm_write [OF inv m(2), where w = "wal_Append (lsm_wal e) ?ent" and d = "lsm_draws e + 1"] m(1)
    by (auto simp: lsm_Put_def wal_Append_def)
  then show ?thesis
    by (intro exI [of _ e'] exI [of _ mem]) (simp add: m(3) lsm_view_def [of e] lsm_raw_def apply_entry_def)
qed

lemma lsm_Delete_ok:
  assumes inv: "lsm_inv env e"
  shows "\<exists>e' mem. lsm_Delete env e k = Some (e', None) \<and> lsm_inv env e' \<and> lsm_view e' = (lsm_view e)(k := None) \<and>
    mt_view mem = apply_entry (batch_entry (BatchDelete k)) (mt_view (lsm_mem e)) \<and>
    flushed_or e' (lsm_wal e @ entry_Encode (batch_entry (BatchDelete k))) mem"
proof -
  obtain mem where m: "mt_Delete (lsm_mem e) (randomLevel (env_flips env (lsm_draws e))) k = Some mem"
    "mem_ready mem" "mt_view mem = (mt_view (lsm_mem e))(k \<mapsto> ([], True))"
    using mt_Delete_ok [of "lsm_mem e"] inv randomLevel_bounds unfolding lsm_inv_def by blast
  let ?ent = "batch_entry (BatchDelete k)"
  obtain e' where "lsm_Delete env e k = Some (e', None)" "lsm_inv env e'" "flushed_or e' (lsm_wal e @ entry_Encode ?ent) mem"
    "lsm_view e' = live_map (merged (map tcells (concat (lsm_levels e))) ++ mt_view mem)"
    using lsm_write [OF inv m(2), where w = "wal_Append (lsm_wal e) ?ent" and d = "lsm_draws e + 1"] m(1)
    by (auto simp: lsm_Delete_def wal_Append_def)
  then show ?thesis
    by (intro exI [of _ e'] exI [of _ mem]) (simp add: m(3) lsm_view_def [of e] lsm_raw_def apply_entry_def)
qed

lemma lsm_Commit_ok:
  assumes inv: "lsm_inv env e"
  shows "\<exists>e' mem. lsm_Commit env e bs = Some (e', None) \<and> lsm_inv env e' \<and> lsm_view e' = apply_batch bs (lsm_view e) \<and>
    mt_view mem = replay (map batch_entry bs) (mt_view (lsm_mem e)) \<and>
    flushed_or e' (wal_WriteAll (lsm_wal e) (map batch_entry bs)) mem"
proof -
  obtain mem d where m: "applyEntries env (map batch_entry bs) (lsm_mem e, lsm_draws e) = Some (mem, d)"
    "mem_ready mem" "mt_view mem = replay (map batch_entry bs) (mt_view (lsm_mem e))"
    using applyEntries_ok [of "lsm_mem e"] inv unfolding lsm_inv_def by blast
  obtain e' where "lsm_Commit env e bs = Some (e', None)" "lsm_inv env e'"
    "flushed_or e' (wal_WriteAll (lsm_wal e) (map batch_entry bs)) mem"
    "lsm_view e' = live_map (merged (map tcells (concat (lsm_levels e))) ++ mt_view mem)"
    using lsm_write [OF inv m(2), where w = "wal_WriteAll (lsm_wal e) (map batch_entry bs)" and d = d] m(1)
    by (auto simp: lsm_Commit_def applyEntriesToMemTable_def Let_def)
  then show ?thesis
    by (intro exI [of _ e'] exI [of _ mem]) (simp add: m(3) lsm_view_def [of e] lsm_raw_def live_map_batch)
qed

definition get_raw :: "(bytes \<times> bool) option \<Rightarrow> bytes result option" where
  "get_raw x = map_option (\<lambda>(v, t). if t then Inl ErrKeyNotFound else Inr v) x"

lemma get_readers_ok:
  "\<forall>t \<in> set ts. table_ok t \<Longrightarrow> get_readers ts k = get_raw (merged (map tcells ts) k)"
proof (induction ts)
  case (Cons t ts)
  have "ents_map (tbl_records t) = map_of (tcells t)" by (simp add: ents_map_def tcells_def)
  then show ?case
    using Cons table_Get_ok [of t k]
    by (auto simp: get_raw_def get_result_def map_add_def split: option.split prod.split)
qed (simp add: get_raw_def)

lemma get_levels_ok:
  "\<forall>t \<in> set (concat ls). table_ok t \<Longrightarrow> get_levels ls k = get_raw (merged (map tcells (concat ls)) k)"
proof (induction ls)
  case (Cons l ls)
  then show ?case
    using get_readers_ok [of l k]
    by (auto simp: merged_append get_raw_def map_add_def split: option.split)
qed (simp add: get_raw_def)

lemma lsm_Get_ok:
  assumes "lsm_inv env e"
  shows "lsm_Get e k = Some (case lsm_view e k of None \<Rightarrow> Inl ErrKeyNotFound | Some v \<Rightarrow> Inr v)"
proof -
  have ok: "\<forall>t \<in> set (concat (lsm_levels e)). table_ok t" using assms levels_ok by (auto simp: lsm_inv_def)
  have mi: "mt_inv (lsm_mem e)" using assms by (simp add: lsm_inv_def)
  define q where "q = (if lsm_levels e \<noteq> [] then get_readers (lsm_levels e ! 0) k else None)"
  have "(case q of Some r \<Rightarrow> Some r | None \<Rightarrow> get_levels (levelSlice e 1) k) = get_levels (lsm_levels e) k"
    by (cases "lsm_levels e") (auto simp: q_def levelSlice_def split: option.split)
  then have lv: "(case q of Some r \<Rightarrow> Some r | None \<Rightarrow> get_levels (levelSlice e 1) k) =
      get_raw (merged (map tcells (concat (lsm_levels e))) k)"
    using get_levels_ok [OF ok] by simp
  show ?thesis
  proof (cases "mt_view (lsm_mem e) k")
    case None
    then show ?thesis
      using lv mi
      by (auto simp: lsm_Get_def q_def [symmetric] mt_Get_ok lsm_view_def live_map_def lsm_raw_def map_add_def get_raw_def
          split: option.splits)
  next
    case (Some x)
    then show ?thesis
      using mi by (cases x) (auto simp: lsm_Get_def mt_Get_ok lsm_view_def live_map_def lsm_raw_def)
  qed
qed

section \<open>Iterators over the live content\<close>

definition strip :: "cell \<Rightarrow> bytes \<times> bytes" where
  "strip c = (fst c, fst (snd c))"

lemma strip_dropWhile: "dropWhile (\<lambda>p. fst p < k) (map strip cs) = map strip (dropWhile (\<lambda>c. fst c < k) cs)"
  by (simp add: dropWhile_map comp_def strip_def)

lemma live_entries_strip: "finite (dom m) \<Longrightarrow> map strip (live (entries m)) = entries (live_map m)"
  using live_entries [of m] by (simp add: strip_def [abs_def])

lemma newMergedIterator_ok:
  assumes "lsm_inv env e"
  shows "\<exists>it. newMergedIteratorLocked e = Some it \<and> src.merge.filter_ok it \<and>
    map strip (live (src.merge_all it)) = entries (lsm_view e)"
proof -
  let ?es = "mt_entries (lsm_mem e)" and ?ts = "concat (lsm_levels e)"
  let ?is = "snap_NewIterator ?es # map sst_NewIterator ?ts"
  have inv: "mt_inv (lsm_mem e)" "\<forall>t \<in> set ?ts. table_ok t" using assms levels_ok by (auto simp: lsm_inv_def)
  have "map sst_NewIterator (if lsm_levels e \<noteq> [] then lsm_levels e ! 0 else []) @
      map sst_NewIterator (concat (levelSlice e 1)) = map sst_NewIterator ?ts"
    by (cases "lsm_levels e") (simp_all add: levelSlice_def)
  then have it: "newMergedIteratorLocked e = Some (with_winner source_ops ?is)"
    using mt_Snapshot_ok [OF inv(1)] by (simp add: newMergedIteratorLocked_def NewMergeIterator_def)
  have ok: "src.merge_ok (with_winner source_ops ?is)"
    by (rule src.with_winner_ok)
      (use inv sst_NewIterator_ok(1) mt_entries_sorted in \<open>auto simp: snap_NewIterator_def\<close>)
  have "merged (map (\<lambda>t. []) ts) = Map.empty" for ts :: "table list" by (induction ts) auto
  then have "src.merge_rest (with_winner source_ops ?is) = []"
    by (simp add: src.merge_rest_def with_winner_def sst_NewIterator_def snap_NewIterator_def comp_def)
  then have f: "src.merge.filter_ok (with_winner source_ops ?is)" using ok by (simp add: src.merge.filter_ok_def)
  have "src.merge_all (with_winner source_ops ?is) = entries (lsm_raw e)"
    by (simp add: src.merge_all_def with_winner_def sst_NewIterator_ok(2) comp_def snap_NewIterator_def
        lsm_raw_def mt_view_def ents_map_def)
  then show ?thesis
    using it f live_entries_strip [of "lsm_raw e"] by (simp add: lsm_view_def lsm_raw_def)
qed

section \<open>The engine interface\<close>

definition or_panic :: "'e \<Rightarrow> ('e \<times> error option) option \<Rightarrow> 'e \<times> error option" where
  "or_panic e r = (case r of None \<Rightarrow> (e, Some (Msg ''panic'')) | Some x \<Rightarrow> x)"

definition got :: "'a result option \<Rightarrow> 'a result" where
  "got r = (case r of None \<Rightarrow> Inl (Msg ''panic'') | Some x \<Rightarrow> x)"

definition lsm_engine :: "lsm_env \<Rightarrow> (lsm, source_iter merge_iter) engine_ops" where
  "lsm_engine env =
     (let io = filter_ops (merge_ops source_ops)
      in \<lparr>eng_Put = (\<lambda>e k v. or_panic e (lsm_Put env e k v)),
          eng_Get = (\<lambda>e k. got (lsm_Get e k)),
          eng_Delete = (\<lambda>e k. or_panic e (lsm_Delete env e k)),
          eng_NewIterator = (\<lambda>e. got (map_option Inr (newMergedIteratorLocked e))),
          eng_Commit = (\<lambda>e bs. or_panic e (lsm_Commit env e bs)),
          it_Seek = (\<lambda>i k. returned i (ri_Seek io i k)),
          it_Next = (\<lambda>i. returned i (ri_Next io i)),
          it_Valid = ri_Valid io, it_Key = ri_Key io, it_Value = ri_Value io, it_IsTombstone = ri_IsTombstone io\<rparr>)"

definition kv_engine :: "lsm_env \<Rightarrow> (basicKV, source_iter) engine_ops" where
  "kv_engine env =
     (let io = filter_ops source_ops
      in \<lparr>eng_Put = (\<lambda>e k v. or_panic e (map_option (\<lambda>e'. (e', None)) (kv_Put env e k v))),
          eng_Get = (\<lambda>e k. got (kv_Get e k)),
          eng_Delete = (\<lambda>e k. or_panic e (map_option (\<lambda>e'. (e', None)) (kv_Delete env e k))),
          eng_NewIterator = (\<lambda>e. Inr (kv_NewIterator e)),
          eng_Commit = (\<lambda>e bs. or_panic e (map_option (\<lambda>e'. (e', None)) (kv_Commit env e bs))),
          it_Seek = (\<lambda>i k. returned i (ri_Seek io i k)),
          it_Next = (\<lambda>i. returned i (ri_Next io i)),
          it_Valid = ri_Valid io, it_Key = ri_Key io, it_Value = ri_Value io, it_IsTombstone = ri_IsTombstone io\<rparr>)"

definition live_of :: "('i \<Rightarrow> cell list) \<Rightarrow> 'i \<Rightarrow> (bytes \<times> bytes) list" where
  "live_of f i = map strip (live (f i))"

lemma live_of_Cons:
  "live_of f i = (k, v) # r \<Longrightarrow> \<exists>t r'. live (f i) = (k, v, t) # r' \<and> r = map strip r'"
  by (auto simp: live_of_def strip_def map_eq_Cons_conv)

context filtered_iterator
begin

lemma live_laws:
  assumes "filter_ok i"
  shows "\<exists>i'. returned i (ri_Seek (filter_ops ops) i k) = (live_of rest_cells i' \<noteq> [], i') \<and> filter_ok i' \<and>
      live_of all_cells i' = live_of all_cells i \<and>
      live_of rest_cells i' = dropWhile (\<lambda>p. fst p < k) (live_of all_cells i)"
    and "live_of rest_cells i \<noteq> [] \<Longrightarrow>
      \<exists>i'. returned i (ri_Next (filter_ops ops) i) = (live_of rest_cells i' \<noteq> [], i') \<and> filter_ok i' \<and>
      live_of all_cells i' = live_of all_cells i \<and> live_of rest_cells i' = tl (live_of rest_cells i)"
    and "ri_Valid (filter_ops ops) i \<longleftrightarrow> live_of rest_cells i \<noteq> []"
    and "live_of rest_cells i = (key, v) # r \<Longrightarrow> ri_Key (filter_ops ops) i = key"
    and "live_of rest_cells i = (key, v) # r \<Longrightarrow> ri_Value (filter_ops ops) i = v"
  using filt.Seek [OF assms, of k] filt.Next [OF assms] filt.Valid [OF assms] filt.Cell [OF assms]
  by (auto simp: live_of_def returned_def strip_dropWhile map_tl strip_def map_eq_Cons_conv)

end

lemmas merged_laws = src.mfilt.live_laws
lemmas engine_defs = lsm_engine_def kv_engine_def or_panic_def got_def Let_def

lemma live_of_merge: "live_of src.merge_all it = map strip (live (src.merge_all it))"
  by (simp add: live_of_def)

interpretation lsm_eng: storage_engine "lsm_engine env" "lsm_inv env" lsm_view
  src.merge.filter_ok "live_of src.merge_all" "live_of src.merge_rest" for env
proof unfold_locales
  fix e k v bs i r
  show "lsm_inv env e \<Longrightarrow> finite (dom (lsm_view e))"
    by (simp add: lsm_view_def lsm_raw_def finite_live_map)
  show "lsm_inv env e \<Longrightarrow>
      eng_Get (lsm_engine env) e k = (case lsm_view e k of None \<Rightarrow> Inl ErrKeyNotFound | Some v \<Rightarrow> Inr v)"
    by (simp add: engine_defs lsm_Get_ok)
  show "lsm_inv env e \<Longrightarrow>
      \<exists>e'. eng_Put (lsm_engine env) e k v = (e', None) \<and> lsm_inv env e' \<and> lsm_view e' = (lsm_view e)(k \<mapsto> v)"
    using lsm_Put_ok [of env e k v] by (auto simp: engine_defs)
  show "lsm_inv env e \<Longrightarrow>
      \<exists>e'. eng_Delete (lsm_engine env) e k = (e', None) \<and> lsm_inv env e' \<and> lsm_view e' = (lsm_view e)(k := None)"
    using lsm_Delete_ok [of env e k] by (auto simp: engine_defs)
  show "lsm_inv env e \<Longrightarrow>
      \<exists>e'. eng_Commit (lsm_engine env) e bs = (e', None) \<and> lsm_inv env e' \<and> lsm_view e' = apply_batch bs (lsm_view e)"
    using lsm_Commit_ok [of env e bs] by (auto simp: engine_defs)
  show "lsm_inv env e \<Longrightarrow>
      \<exists>i. eng_NewIterator (lsm_engine env) e = Inr i \<and> src.merge.filter_ok i \<and> live_of src.merge_all i = entries (lsm_view e)"
    using newMergedIterator_ok [of env e] by (auto simp: engine_defs live_of_merge)
qed (simp_all add: lsm_engine_def Let_def merged_laws)

interpretation src_filt: filtered_iterator source_ops source_ok source_all source_rest ..

lemma kv_NewIterator_ok:
  assumes "kv_inv kv"
  shows "src.filter_ok (kv_NewIterator kv)" and "live_of source_all (kv_NewIterator kv) = entries (kv_view kv)"
proof -
  have inv: "mt_inv (kv_mem kv)" using assms by (simp add: kv_inv_def)
  have "mt_collect h None [] = Some []" for h by (subst mt_collect.simps) simp
  then have "source_rest (kv_NewIterator kv) = []" by (simp add: kv_NewIterator_def mt_NewIterator_def)
  then show "src.filter_ok (kv_NewIterator kv)"
    using mt_NewIterator_ok(1) [OF inv] by (simp add: src.filter_ok_def kv_NewIterator_def)
  have "cells (mt_entries (kv_mem kv)) = entries (mt_view (kv_mem kv))"
    using mt_entries_sorted [OF inv] unfolding mt_view_def ents_map_def
    by (intro entries_eqI [symmetric])
      (auto simp: comp_def finite_dom_map_of map_of_eq_Some_iff strict_sorted_iff dest: map_of_SomeD)
  then show "live_of source_all (kv_NewIterator kv) = entries (kv_view kv)"
    by (simp add: live_of_def kv_NewIterator_def mt_NewIterator_ok(2) live_entries_strip kv_view_def)
qed

interpretation kv_eng: storage_engine "kv_engine env" kv_inv kv_view src.filter_ok
  "live_of source_all" "live_of source_rest" for env
proof unfold_locales
  fix e k v bs
  show "kv_inv e \<Longrightarrow> finite (dom (kv_view e))" by (simp add: kv_view_def finite_live_map)
  show "kv_inv e \<Longrightarrow>
      eng_Get (kv_engine env) e k = (case kv_view e k of None \<Rightarrow> Inl ErrKeyNotFound | Some v \<Rightarrow> Inr v)"
    by (simp add: engine_defs kv_Get_ok)
  show "kv_inv e \<Longrightarrow>
      \<exists>e'. eng_Put (kv_engine env) e k v = (e', None) \<and> kv_inv e' \<and> kv_view e' = (kv_view e)(k \<mapsto> v)"
    using kv_Put_ok [of e env k v] by (auto simp: engine_defs)
  show "kv_inv e \<Longrightarrow>
      \<exists>e'. eng_Delete (kv_engine env) e k = (e', None) \<and> kv_inv e' \<and> kv_view e' = (kv_view e)(k := None)"
    using kv_Delete_ok [of e env k] by (auto simp: engine_defs)
  show "kv_inv e \<Longrightarrow>
      \<exists>e'. eng_Commit (kv_engine env) e bs = (e', None) \<and> kv_inv e' \<and> kv_view e' = apply_batch bs (kv_view e)"
    using kv_Commit_ok [of e env bs] by (auto simp: engine_defs)
  show "kv_inv e \<Longrightarrow>
      \<exists>i. eng_NewIterator (kv_engine env) e = Inr i \<and> src.filter_ok i \<and> live_of source_all i = entries (kv_view e)"
    using kv_NewIterator_ok [of e] by (auto simp: engine_defs)
qed (simp_all add: kv_engine_def Let_def src_filt.live_laws)

section \<open>Recovery\<close>

definition dir_raw :: "lsm_dir \<Rightarrow> bytes \<rightharpoonup> bytes \<times> bool" where
  "dir_raw d = merged (map (\<lambda>n. tcells (the (dir_files d n))) (concat (md_Levels (ms_Load (dir_meta d)))))"

text \<open>A directory that can be opened: the metadata names readable files, and every SSTable id has
  at most six digits.\<close>

definition dir_ok :: "lsm_dir \<Rightarrow> bool" where
  "dir_ok d \<longleftrightarrow>
     ms_inv (dir_meta d) \<and> distinct (concat (md_Levels (ms_Load (dir_meta d)))) \<and> finite (dom (dir_files d)) \<and>
     (\<forall>n \<in> set (concat (md_Levels (ms_Load (dir_meta d)))). \<exists>t. dir_files d n = Some t \<and> table_ok t) \<and>
     (\<forall>n \<in> dom (dir_files d). \<exists>i < 1000000. n = sstableFilename i)"

definition opts_ok :: "lsm_env \<Rightarrow> lsmOptions \<Rightarrow> bool" where
  "opts_ok env opts \<longleftrightarrow> sizing_ok (env_sizing env) \<and>
     grows env (nat (if opt_L0Threshold opts \<le> 0 then 4 else opt_L0Threshold opts))"

lemma New_ready: "mem_ready NewMemTable"
  by (simp add: mt_inv_New) (simp add: NewMemTable_def)

lemma OpenLSM_ok:
  assumes d: "dir_ok d" and o: "opts_ok env opts" and wal: "wal_ReadAll (dir_wal d) = Some (Inr es)"
  shows "\<exists>e. OpenLSM env opts d = Some (Inr e) \<and> lsm_inv env e \<and>
    lsm_view e = live_map (dir_raw d ++ replay es Map.empty)"
proof -
  let ?nx = "scanDirForNextID (sorted_list_of_set (dom (dir_files d)))"
  define c where "c = NewCompactor (dir_files d) (dir_meta d) ?nx (opt_L0Threshold opts)"
  have "\<exists>i < ?nx. n = sstableFilename i" if n: "n \<in> dom (dir_files d)" for n
  proof -
    obtain i where i: "i < 1000000" "n = sstableFilename i" using d n unfolding dir_ok_def by blast
    have "sstableFilename i \<in> set (sorted_list_of_set (dom (dir_files d)))"
      using d n i(2) by (simp add: dir_ok_def)
    then show ?thesis using scanDir_above i by blast
  qed
  then have inv: "cp_inv c"
    using d unfolding cp_inv_def dir_ok_def by (simp add: c_def NewCompactor_def cp_levels_def)
  have raw: "cp_raw c = dir_raw d" by (simp add: cp_raw_def dir_raw_def cp_levels_def c_def NewCompactor_def)
  obtain mem draws where m: "applyEntries env es (NewMemTable, 0) = Some (mem, draws)" "mem_ready mem"
    "mt_view mem = replay es Map.empty"
    using applyEntries_ok [OF New_ready, of env es 0] by (auto simp: mt_inv_New(3))
  define e0 where "e0 = \<lparr>lsm_comp = c, lsm_wal = dir_wal d, lsm_mem = NewMemTable, lsm_levels = [],
    lsm_memTableThreshold = if opt_MemTableThreshold opts \<le> 0 then 4 * 2 ^ 20 else opt_MemTableThreshold opts,
    lsm_draws = 0\<rparr>"
  define e where "e = e0\<lparr>lsm_levels := levels_of c, lsm_mem := mem, lsm_draws := draws\<rparr>"
  have "OpenLSM env opts d = Some (Inr e)"
    using reloadLevels_ok [of e0] inv wal m(1)
    by (simp add: OpenLSM_def Let_def c_def [symmetric] e0_def e_def replayWALIntoMemTable_def applyEntriesToMemTable_def)
  moreover have "lsm_inv env e"
    using inv m(2) o by (simp add: lsm_inv_def e_def e0_def opts_ok_def) (simp add: c_def NewCompactor_def)
  moreover have "lsm_view e = live_map (dir_raw d ++ replay es Map.empty)"
    by (simp add: lsm_view_def lsm_raw_def e_def e0_def levels_raw raw m(3))
  ultimately show ?thesis by blast
qed

text \<open>The log holds exactly the writes since the last flush, each small enough for its header.\<close>

definition lsm_logged :: "lsm \<Rightarrow> bool" where
  "lsm_logged e \<longleftrightarrow> (\<exists>es. (\<forall>ent \<in> set es. entry_ok ent) \<and> lsm_wal e = concat (map entry_Encode es) \<and>
     mt_view (lsm_mem e) = replay es Map.empty)"

definition dir_of :: "compactor \<Rightarrow> bytes \<Rightarrow> lsm_dir" where
  "dir_of c wal = \<lparr>dir_files = cp_files c, dir_meta = cp_meta c, dir_wal = wal\<rparr>"

lemma dir_of_ok:
  assumes "cp_inv c" and "cp_nextID c \<le> 1000000"
  shows "dir_ok (dir_of c wal)" and "dir_raw (dir_of c wal) = cp_raw c"
proof -
  have "dom (cp_files c) \<subseteq> sstableFilename ` {..<cp_nextID c}" using assms(1) unfolding cp_inv_def by blast
  then have "finite (dom (cp_files c))" by (rule finite_subset) simp
  moreover have "\<forall>n \<in> dom (cp_files c). \<exists>i < 1000000. n = sstableFilename i"
    using assms unfolding cp_inv_def by (meson less_le_trans)
  ultimately show "dir_ok (dir_of c wal)"
    using assms(1) unfolding cp_inv_def dir_ok_def by (simp add: dir_of_def cp_levels_def)
  show "dir_raw (dir_of c wal) = cp_raw c" by (simp add: dir_raw_def cp_raw_def dir_of_def cp_levels_def)
qed

lemma logged_torn:
  assumes "lsm_logged e" and "entry_ok ent" and "n < length (entry_Encode ent)"
  obtains es where "wal_ReadAll (lsm_wal e @ take n (entry_Encode ent)) = Some (Inr es)"
    and "mt_view (lsm_mem e) = replay es Map.empty"
proof -
  obtain es where es: "\<forall>x \<in> set es. entry_ok x" "lsm_wal e = concat (map entry_Encode es)"
    "mt_view (lsm_mem e) = replay es Map.empty" using assms(1) unfolding lsm_logged_def by blast
  have "wal_ReadAll (lsm_wal e @ take n (entry_Encode ent)) = Some (Inr es)"
    unfolding es(2) by (rule wal_ReadAll_torn) (use es(1) assms(2,3) in auto)
  then show thesis using that es(3) by blast
qed

lemma lsm_wal_read:
  assumes "lsm_logged e"
  obtains es where "wal_ReadAll (lsm_wal e) = Some (Inr es)" and "mt_view (lsm_mem e) = replay es Map.empty"
proof -
  let ?ent = "\<lparr>ent_Key = [], ent_Value = [], ent_Op = 0\<rparr>"
  have "entry_ok ?ent" "0 < length (entry_Encode ?ent)" by (simp_all add: entry_ok_def entry_Encode_length)
  from logged_torn [OF assms this] show thesis using that by simp metis
qed

lemma lsm_view_raw:
  "lsm_inv env e \<Longrightarrow> mt_view (lsm_mem e) = replay es Map.empty \<Longrightarrow>
   lsm_view e = live_map (cp_raw (lsm_comp e) ++ replay es Map.empty)"
  by (simp add: lsm_view_def lsm_raw_def lsm_inv_def levels_raw)

lemma reopen_dir:
  assumes "cp_inv c" and "cp_nextID c \<le> 1000000" and "opts_ok env opts" and "wal_ReadAll wal = Some (Inr es)"
  shows "\<exists>e. OpenLSM env opts (dir_of c wal) = Some (Inr e) \<and> lsm_inv env e \<and>
    lsm_view e = live_map (cp_raw c ++ replay es Map.empty)"
  using OpenLSM_ok [OF dir_of_ok(1) [OF assms(1,2)] assms(3), of wal es] assms(4) dir_of_ok(2) [OF assms(1,2), of wal]
  by (simp add: dir_of_def)

text \<open>What the directory holds if the machine stops during a flush: before the new file, with the
  file but the old metadata, with the slot under write lost, with the new metadata and
  the old log, and after the log is cleared.\<close>

definition flush_crash_dirs :: "lsm_env \<Rightarrow> lsm \<Rightarrow> bytes option \<Rightarrow> lsm_dir list" where
  "flush_crash_dirs env e torn =
     (case flush_write env (lsm_comp e) (mt_Freeze (lsm_mem e)) of
        None \<Rightarrow> []
      | Some (name, c1) \<Rightarrow>
          (let meta = ms_Load (cp_meta c1);
               lost = c1\<lparr>cp_meta := save_with (\<lambda>buf. torn) (cp_meta c1)
                          (meta\<lparr>md_Levels := prepend_l0 name (md_Levels meta)\<rparr>)\<rparr>
           in [dir_of (lsm_comp e) (lsm_wal e), dir_of c1 (lsm_wal e), dir_of lost (lsm_wal e),
               dir_of (flush_official name c1) (lsm_wal e),
               dir_of (flush_official name c1) (wal_Truncate (lsm_wal e))]))"

lemma lost_slot_ok:
  fixes m :: metaData
  assumes "cp_inv c" and "readSlot torn = Inl err"
  defines "c' \<equiv> c\<lparr>cp_meta := save_with (\<lambda>buf. torn) (cp_meta c) m\<rparr>"
  shows "cp_inv c'" and "cp_raw c' = cp_raw c"
proof -
  have ms: "ms_inv (cp_meta c)" using assms(1) by (simp add: cp_inv_def)
  have "cp_levels c' = cp_levels c"
    using ms_Load_crash [OF ms, of "\<lambda>buf. torn"] assms(2) by (simp add: cp_levels_def c'_def)
  moreover have "ms_inv (cp_meta c')" using ms_inv_crash [OF ms, of "\<lambda>buf. torn"] assms(2) by (simp add: c'_def)
  ultimately show "cp_inv c'" "cp_raw c' = cp_raw c"
    using assms(1) by (simp_all add: cp_inv_def cp_raw_def c'_def)
qed

lemma map_add_twice: "m ++ x ++ x = m ++ x"
  by (auto simp: map_add_def fun_eq_iff split: option.split)

section \<open>Every reachable engine\<close>

definition empty_dir :: lsm_dir where
  "empty_dir = \<lparr>dir_files = Map.empty, dir_meta = NewMetaStore, dir_wal = []\<rparr>"

text \<open>\<open>lsm_reach env opts e m\<close>: some sequence of calls and clean restarts leads from an empty
  directory to \<open>e\<close>, and \<open>m\<close> is what a map would hold after the same writes. Keys and values
  fit the length fields of the log.\<close>

inductive lsm_reach :: "lsm_env \<Rightarrow> lsmOptions \<Rightarrow> lsm \<Rightarrow> (bytes \<rightharpoonup> bytes) \<Rightarrow> bool" for env opts where
  reach_open: "OpenLSM env opts empty_dir = Some (Inr e) \<Longrightarrow> lsm_reach env opts e Map.empty"
| reach_Put: "lsm_reach env opts e m \<Longrightarrow> entry_ok (batch_entry (BatchPut k v)) \<Longrightarrow>
    lsm_Put env e k v = Some (e', r) \<Longrightarrow> lsm_reach env opts e' (m(k \<mapsto> v))"
| reach_Delete: "lsm_reach env opts e m \<Longrightarrow> entry_ok (batch_entry (BatchDelete k)) \<Longrightarrow>
    lsm_Delete env e k = Some (e', r) \<Longrightarrow> lsm_reach env opts e' (m(k := None))"
| reach_Commit: "lsm_reach env opts e m \<Longrightarrow> \<forall>b \<in> set bs. entry_ok (batch_entry b) \<Longrightarrow>
    lsm_Commit env e bs = Some (e', r) \<Longrightarrow> lsm_reach env opts e' (apply_batch bs m)"
| reach_restart: "lsm_reach env opts e m \<Longrightarrow> cp_nextID (lsm_comp e) \<le> 1000000 \<Longrightarrow>
    OpenLSM env opts (dir_of (lsm_comp e) (lsm_wal e)) = Some (Inr e') \<Longrightarrow> lsm_reach env opts e' m"

lemma logged_step:
  assumes "lsm_logged e" and "\<forall>ent \<in> set ents. entry_ok ent"
    and "mt_view mem = replay ents (mt_view (lsm_mem e))"
    and "flushed_or e' (lsm_wal e @ concat (map entry_Encode ents)) mem"
  shows "lsm_logged e'"
proof -
  obtain es where es: "\<forall>x \<in> set es. entry_ok x" "lsm_wal e = concat (map entry_Encode es)"
    "mt_view (lsm_mem e) = replay es Map.empty" using assms(1) unfolding lsm_logged_def by blast
  from assms(4) show ?thesis
  proof
    assume "lsm_wal e' = lsm_wal e @ concat (map entry_Encode ents) \<and> lsm_mem e' = mem"
    then show ?thesis using es assms(2,3) unfolding lsm_logged_def
      by (intro exI [of _ "es @ ents"]) (auto simp: replay_def)
  next
    assume "lsm_wal e' = [] \<and> lsm_mem e' = NewMemTable"
    then show ?thesis unfolding lsm_logged_def
      by (intro exI [of _ "[]"]) (simp add: mt_inv_New replay_def)
  qed
qed

lemma replay_simps [simp]: "replay [] m = m" "replay (ent # ents) m = replay ents (apply_entry ent m)"
  by (simp_all add: replay_def)

lemma empty_dir_ok: "dir_ok empty_dir" "dir_raw empty_dir = Map.empty"
  by (simp_all add: dir_ok_def dir_raw_def empty_dir_def ms_inv_New zeroMeta_def)

lemma wal_ReadAll_Nil: "wal_ReadAll [] = Some (Inr [])"
  using wal_ReadAll_WriteAll [of "[]"] by (simp add: wal_WriteAll_def)

lemma live_map_empty [simp]: "live_map Map.empty = Map.empty"
  by (simp add: live_map_def fun_eq_iff)

lemma OpenLSM_wal:
  assumes "OpenLSM env opts d = Some (Inr e)"
  shows "lsm_wal e = dir_wal d"
  using assms by (auto simp: OpenLSM_def reloadLevels_def Let_def split: prod.splits option.splits sum.splits)

lemma OpenLSM_mem:
  assumes "OpenLSM env opts d = Some (Inr e)" and "wal_ReadAll (dir_wal d) = Some (Inr es)"
  shows "mt_view (lsm_mem e) = replay es Map.empty"
proof -
  obtain draws where "applyEntries env es (NewMemTable, 0) = Some (lsm_mem e, draws)"
    using assms
    by (auto simp: OpenLSM_def reloadLevels_def Let_def replayWALIntoMemTable_def applyEntriesToMemTable_def
        split: prod.splits option.splits sum.splits)
  then show ?thesis using applyEntries_ok [OF New_ready, of env es 0] by (auto simp: mt_inv_New(3))
qed

lemma OpenLSM_logged:
  assumes "dir_ok d" and "opts_ok env opts" and "\<forall>x \<in> set es. entry_ok x" and "dir_wal d = concat (map entry_Encode es)"
    and "OpenLSM env opts d = Some (Inr e)"
  shows "lsm_inv env e" and "lsm_logged e" and "lsm_view e = live_map (dir_raw d ++ replay es Map.empty)"
proof -
  have rd: "wal_ReadAll (dir_wal d) = Some (Inr es)"
    using wal_ReadAll_WriteAll [OF assms(3)] by (simp add: wal_WriteAll_concat assms(4))
  show "lsm_inv env e" "lsm_view e = live_map (dir_raw d ++ replay es Map.empty)"
    using OpenLSM_ok [OF assms(1,2) rd] assms(5) by simp_all
  have "mt_view (lsm_mem e) = replay es Map.empty"
    using OpenLSM_mem [OF assms(5) rd] by simp
  then show "lsm_logged e" using OpenLSM_wal [OF assms(5)] assms(3,4) unfolding lsm_logged_def by metis
qed

lemma lsm_reach_ok:
  assumes "lsm_reach env opts e m" and "opts_ok env opts"
  shows "lsm_inv env e \<and> lsm_logged e \<and> lsm_view e = m"
  using assms
proof (induction rule: lsm_reach.induct)
  case (reach_open e)
  then show ?case
    using OpenLSM_logged [OF empty_dir_ok(1) reach_open(2), of "[]"] empty_dir_ok(2) by (simp add: empty_dir_def)
next
  case (reach_Put e m k v e' r)
  obtain e1 mem where "lsm_Put env e k v = Some (e1, None)" "lsm_inv env e1" "lsm_view e1 = (lsm_view e)(k \<mapsto> v)"
    "mt_view mem = apply_entry (batch_entry (BatchPut k v)) (mt_view (lsm_mem e))"
    "flushed_or e1 (lsm_wal e @ entry_Encode (batch_entry (BatchPut k v))) mem"
    using lsm_Put_ok [of env e k v] reach_Put by blast
  then show ?case using logged_step [of e "[batch_entry (BatchPut k v)]" mem e1] reach_Put by simp
next
  case (reach_Delete e m k e' r)
  obtain e1 mem where "lsm_Delete env e k = Some (e1, None)" "lsm_inv env e1" "lsm_view e1 = (lsm_view e)(k := None)"
    "mt_view mem = apply_entry (batch_entry (BatchDelete k)) (mt_view (lsm_mem e))"
    "flushed_or e1 (lsm_wal e @ entry_Encode (batch_entry (BatchDelete k))) mem"
    using lsm_Delete_ok [of env e k] reach_Delete by blast
  then show ?case using logged_step [of e "[batch_entry (BatchDelete k)]" mem e1] reach_Delete by simp
next
  case (reach_Commit e m bs e' r)
  obtain e1 mem where "lsm_Commit env e bs = Some (e1, None)" "lsm_inv env e1" "lsm_view e1 = apply_batch bs (lsm_view e)"
    "mt_view mem = replay (map batch_entry bs) (mt_view (lsm_mem e))"
    "flushed_or e1 (wal_WriteAll (lsm_wal e) (map batch_entry bs)) mem"
    using lsm_Commit_ok [of env e bs] reach_Commit by blast
  then show ?case
    using logged_step [of e "map batch_entry bs" mem e1] reach_Commit by (simp add: wal_WriteAll_concat)
next
  case (reach_restart e m e')
  then obtain es where es: "\<forall>x \<in> set es. entry_ok x" "lsm_wal e = concat (map entry_Encode es)"
    "mt_view (lsm_mem e) = replay es Map.empty" unfolding lsm_logged_def by blast
  have inv: "lsm_inv env e" "cp_inv (lsm_comp e)" "lsm_view e = m" using reach_restart by (simp_all add: lsm_inv_def)
  note d = dir_of_ok [OF inv(2) reach_restart(2), of "lsm_wal e"]
  from OpenLSM_logged [OF d(1) reach_restart(5) es(1) _ reach_restart(3)] es(2)
  show ?case using d(2) lsm_view_raw [OF inv(1) es(3)] inv(3) by (simp add: dir_of_def)
qed

section \<open>Properties\<close>

text \<open>The default options, with a filter of eight bits and nodes of height one.\<close>

definition env0 :: lsm_env where
  "env0 = \<lparr>env_sizing = (\<lambda>n. (8, 1)), env_grow = (\<lambda>t. t * 10), env_flips = (\<lambda>n. [])\<rparr>"

definition opts0 :: lsmOptions where
  "opts0 = \<lparr>opt_MemTableThreshold = 0, opt_L0Threshold = 0\<rparr>"

lemma opts0_ok: "opts_ok env0 opts0"
proof -
  have "((\<lambda>t. t * 10) ^^ n) (4 :: nat) = 4 * 10 ^ n" for n by (induction n) simp_all
  then show ?thesis by (simp add: opts_ok_def opts0_def env0_def sizing_ok_def grows_def)
qed

definition engine0 :: lsm where
  "engine0 = \<lparr>lsm_comp = NewCompactor Map.empty NewMetaStore 0 0, lsm_wal = [], lsm_mem = NewMemTable,
     lsm_levels = [], lsm_memTableThreshold = 4 * 2 ^ 20, lsm_draws = 0\<rparr>"

lemma open0: "OpenLSM env0 opts0 empty_dir = Some (Inr engine0)"
proof -
  have "reloadLevels engine0 = (engine0, None)"
    by (simp add: reloadLevels_def engine0_def NewCompactor_def ms_inv_New zeroMeta_def)
  from this [unfolded engine0_def] show ?thesis
    by (simp add: OpenLSM_def opts0_def empty_dir_def scanDirForNextID_def replayWALIntoMemTable_def wal_ReadAll_Nil
        applyEntriesToMemTable_def engine0_def)
qed

lemma engine0_empty: "lsm_inv env0 engine0" "lsm_view engine0 = Map.empty"
  using lsm_reach_ok [OF lsm_reach.reach_open [OF open0] opts0_ok] by simp_all

lemma Put0: "\<exists>mem. mt_Put NewMemTable 1 [1] [2] = Some mem \<and> mt_size mem = 2"
  by (simp add: mt_Put_def findPath_def NewMemTable_def newMemNode_def mt_walk.simps fwd_def insertNode_def Let_def
      extend_update_def set_fwd_def numeral_eq_Suc)

text \<open>A reachable engine that holds one key.\<close>

lemma reach0:
  obtains e where "lsm_reach env0 opts0 e [[1] \<mapsto> [2]]" and "cp_nextID (lsm_comp e) = 0"
proof -
  obtain mem where mem: "mt_Put NewMemTable 1 [1] [2] = Some mem" "mt_size mem = 2" using Put0 by blast
  have lvl: "randomLevel (env_flips env0 0) = 1" by (simp add: env0_def randomLevel_def)
  have "\<exists>e. lsm_Put env0 engine0 [1] [2] = Some (e, None) \<and> lsm_comp e = lsm_comp engine0"
    using mem lvl by (simp add: lsm_Put_def maybeFlushLocked_def engine0_def)
  then obtain e where e: "lsm_Put env0 engine0 [1] [2] = Some (e, None)" "lsm_comp e = lsm_comp engine0" by blast
  have "lsm_reach env0 opts0 e (Map.empty([1] \<mapsto> [2]))"
    by (rule reach_Put [OF reach_open [OF open0] _ e(1)]) (simp add: entry_ok_def)
  then show thesis using that e(2) by (simp add: engine0_def NewCompactor_def)
qed

text \<open>(C1) In every reachable state of the LSM engine \<open>Get\<close> answers as the map of the writes so
  far does, whatever flushes, compactions and restarts lie between, and every further
  write returns without error.\<close>

theorem lsm_engine_is_map:
  assumes "opts_ok env opts" and "lsm_reach env opts e m"
  shows "lsm_Get e k = Some (case m k of None \<Rightarrow> Inl ErrKeyNotFound | Some v \<Rightarrow> Inr v) \<and>
    (\<exists>e'. lsm_Put env e k v = Some (e', None)) \<and> (\<exists>e'. lsm_Delete env e k = Some (e', None)) \<and>
    (\<exists>e'. lsm_Commit env e bs = Some (e', None))"
  using lsm_reach_ok [OF assms(2,1)] lsm_Get_ok [of env e k] lsm_Put_ok [of env e k v] lsm_Delete_ok [of env e k]
    lsm_Commit_ok [of env e bs] by blast

theorem lsm_engine_is_map_witness:
  "\<exists>e. lsm_reach env0 opts0 e [[1] \<mapsto> [2]] \<and> lsm_Get e [1] = Some (Inr [2])"
proof -
  obtain e where r: "lsm_reach env0 opts0 e [[1] \<mapsto> [2]]" by (rule reach0)
  from lsm_engine_is_map [OF opts0_ok r, of "[1]"] r show ?thesis by auto
qed

text \<open>(C17) A crash that tears the log entry being appended loses nothing else: reopening the
  directory gives an engine with exactly the acknowledged writes.\<close>

theorem lsm_torn_tail_recovery:
  assumes "opts_ok env opts" and "lsm_reach env opts e m" and "cp_nextID (lsm_comp e) \<le> 1000000"
    and "entry_ok ent" and "n < length (entry_Encode ent)"
  shows "\<exists>e'. OpenLSM env opts (dir_of (lsm_comp e) (lsm_wal e @ take n (entry_Encode ent))) = Some (Inr e') \<and>
    (\<forall>k. lsm_Get e' k = lsm_Get e k)"
proof -
  have inv: "lsm_inv env e" "lsm_logged e" "cp_inv (lsm_comp e)"
    using lsm_reach_ok [OF assms(2,1)] by (simp_all add: lsm_inv_def)
  obtain es where es: "wal_ReadAll (lsm_wal e @ take n (entry_Encode ent)) = Some (Inr es)"
    "mt_view (lsm_mem e) = replay es Map.empty" by (rule logged_torn [OF inv(2) assms(4,5)])
  from reopen_dir [OF inv(3) assms(3,1) es(1)] show ?thesis
    using lsm_view_raw [OF inv(1) es(2)] lsm_Get_ok inv(1) by metis
qed

theorem lsm_torn_tail_recovery_witness:
  "\<exists>e e'. lsm_reach env0 opts0 e [[1] \<mapsto> [2]] \<and>
     OpenLSM env0 opts0 (dir_of (lsm_comp e) (lsm_wal e @ take 3 (entry_Encode (batch_entry (BatchDelete [1]))))) =
       Some (Inr e') \<and> lsm_Get e' [1] = lsm_Get e [1]"
proof -
  obtain e where r: "lsm_reach env0 opts0 e [[1] \<mapsto> [2]]" "cp_nextID (lsm_comp e) = 0" by (rule reach0)
  have "entry_ok (batch_entry (BatchDelete [1]))" "3 < length (entry_Encode (batch_entry (BatchDelete [1])))"
    by (simp_all add: entry_ok_def entry_Encode_length)
  from lsm_torn_tail_recovery [OF opts0_ok r(1) _ this] r show ?thesis by fastforce
qed



end
