(* ===== verification/Mvcc.thy ===== *)
theory Mvcc
  imports Mvcc_Key Lsm_Engine
begin

text \<open>
  Multi-version reads and writes (\<open>internal/storage/mvcc\<close>: \<open>mvcc.go\<close>, \<open>intent.go\<close>,
  \<open>gc.go\<close>). Every operation takes the method table of its engine, as the code takes a
  \<open>storage.Engine\<close>, and threads the engine's state. The lock \<open>mvccMu\<close> makes each operation
  one step. Loops over an iterator are \<open>partial_function\<close>s; \<open>None\<close> is a loop that never
  returns.
\<close>

section \<open>Errors\<close>

definition newWriteIntentError :: "bytes \<Rightarrow> mvccMetadata \<Rightarrow> error" where
  "newWriteIntentError key meta =
     WriteIntentError key (case m_Txn meta of None \<Rightarrow> 0 | Some t \<Rightarrow> t) (m_TxnTimestamp meta)"

definition newWriteTooOldError :: "bytes \<Rightarrow> timestamp \<Rightarrow> timestamp \<Rightarrow> error" where
  "newWriteTooOldError key requested existing = WriteTooOldError key requested existing"

definition newUncertaintyError :: "bytes \<Rightarrow> timestamp \<Rightarrow> timestamp \<Rightarrow> timestamp \<Rightarrow> error" where
  "newUncertaintyError key readTS maxTS existingTS = UncertaintyError key readTS maxTS existingTS"

section \<open>Reading\<close>

record readOptions =
  ro_Txn :: "txnid option"
  ro_MaxTimestamp :: timestamp

text \<open>\<open>txn != nil && *txn == *meta.Txn\<close>\<close>

definition ownIntent :: "txnid option \<Rightarrow> mvccMetadata \<Rightarrow> bool" where
  "ownIntent txn meta \<longleftrightarrow> txn \<noteq> None \<and> txn = m_Txn meta"

text \<open>Step 3 of \<open>MVCCGet\<close>.\<close>

definition get_version :: "('e, 'i) engine_ops \<Rightarrow> 'e \<Rightarrow> bytes \<Rightarrow> timestamp \<Rightarrow> bytes result" where
  "get_version ops e key timestamp =
     (case eng_NewIterator ops e of
        Inl err \<Rightarrow> Inl err
      | Inr iter \<Rightarrow>
          (case it_Seek ops iter (enc key timestamp) of
             (ok, iter') \<Rightarrow>
               if \<not> ok then Inl ErrKeyNotFound
               else (case mvcc_Decode (it_Key ops iter') of
                       Inl err \<Rightarrow> Inl err
                     | Inr (found, versioned) \<Rightarrow>
                         if \<not> versioned \<or> mk_Key found \<noteq> key then Inl ErrKeyNotFound
                         else (case decodeMVCCValue (it_Value ops iter') of
                                 (value, isTombstone) \<Rightarrow>
                                   if isTombstone then Inl ErrKeyNotFound else Inr value))))"

definition MVCCGet :: "('e, 'i) engine_ops \<Rightarrow> 'e \<Rightarrow> bytes \<Rightarrow> timestamp \<Rightarrow> readOptions \<Rightarrow> bytes result" where
  "MVCCGet ops e key timestamp opts =
     (case eng_Get ops e (EncodeMeta key) of
        Inl err \<Rightarrow> if errors_Is err ErrKeyNotFound then Inl ErrKeyNotFound else Inl err
      | Inr metaVal \<Rightarrow>
          (case DecodeMetadata metaVal of
             Inl err \<Rightarrow> Inl err
           | Inr meta \<Rightarrow>
               if ts_IsEmpty timestamp then
                 (case m_InlineValue meta of Some v \<Rightarrow> Inr v | None \<Rightarrow> Inl ErrKeyNotFound)
               else if HasIntent meta \<and> ts_LessEq (m_TxnTimestamp meta) timestamp \<and> \<not> ownIntent (ro_Txn opts) meta
               then Inl (newWriteIntentError key meta)
               else if \<not> ts_IsEmpty (ro_MaxTimestamp opts) \<and> ts_Less timestamp (m_Timestamp meta) \<and>
                       ts_LessEq (m_Timestamp meta) (ro_MaxTimestamp opts) \<and>
                       \<not> (HasIntent meta \<and> ownIntent (ro_Txn opts) meta)
               then Inl (newUncertaintyError key timestamp (ro_MaxTimestamp opts) (m_Timestamp meta))
               else get_version ops e key timestamp))"

section \<open>Writing\<close>

text \<open>Step 1 of \<open>MVCCPut\<close> and \<open>MVCCDelete\<close>: the zero record when there is no metadata.\<close>

definition read_meta :: "('e, 'i) engine_ops \<Rightarrow> 'e \<Rightarrow> bytes \<Rightarrow> mvccMetadata result" where
  "read_meta ops e key =
     (case eng_Get ops e (EncodeMeta key) of
        Inr metaVal \<Rightarrow> DecodeMetadata metaVal
      | Inl err \<Rightarrow> if errors_Is err ErrKeyNotFound then Inr zeroMetadata else Inl err)"

text \<open>Steps 2a and 2b: conflicting intent, committed version at or after our timestamp.\<close>

definition write_conflict :: "bytes \<Rightarrow> timestamp \<Rightarrow> txnid option \<Rightarrow> mvccMetadata \<Rightarrow> error option" where
  "write_conflict key timestamp txn meta =
     (if HasIntent meta then
        (if \<not> ownIntent txn meta then Some (newWriteIntentError key meta) else None)
      else if \<not> ts_IsEmpty (m_Timestamp meta) \<and> ts_LessEq timestamp (m_Timestamp meta)
      then Some (newWriteTooOldError key timestamp (m_Timestamp meta))
      else None)"

definition with_txn :: "txnid option \<Rightarrow> timestamp \<Rightarrow> mvccMetadata \<Rightarrow> mvccMetadata" where
  "with_txn txn timestamp meta =
     meta\<lparr>m_Txn := txn, m_TxnTimestamp := (if txn \<noteq> None then timestamp else ts_zero)\<rparr>"

definition MVCCPut :: "('e, 'i) engine_ops \<Rightarrow> 'e \<Rightarrow> bytes \<Rightarrow> timestamp \<Rightarrow> bytes \<Rightarrow> txnid option \<Rightarrow> 'e \<times> error option" where
  "MVCCPut ops e key timestamp value txn =
     (case read_meta ops e key of
        Inl err \<Rightarrow> (e, Some err)
      | Inr meta \<Rightarrow>
          if ts_IsEmpty timestamp then
            eng_Put ops e (EncodeMeta key)
              (metadata_Encode (meta\<lparr>m_InlineValue := Some value, m_KeyBytes := of_nat (length key),
                                     m_ValBytes := of_nat (length value)\<rparr>))
          else
            (case write_conflict key timestamp txn meta of
               Some err \<Rightarrow> (e, Some err)
             | None \<Rightarrow>
                 (case eng_Put ops e (enc key timestamp) (encodeMVCCValue value) of
                    (e1, Some err) \<Rightarrow> (e1, Some err)
                  | (e1, None) \<Rightarrow>
                      eng_Put ops e1 (EncodeMeta key)
                        (metadata_Encode (with_txn txn timestamp
                           (meta\<lparr>m_Timestamp := timestamp, m_Deleted := False, m_InlineValue := None,
                                 m_KeyBytes := of_nat (length key), m_ValBytes := of_nat (length value)\<rparr>))))))"

definition MVCCDelete :: "('e, 'i) engine_ops \<Rightarrow> 'e \<Rightarrow> bytes \<Rightarrow> timestamp \<Rightarrow> txnid option \<Rightarrow> 'e \<times> error option" where
  "MVCCDelete ops e key timestamp txn =
     (case read_meta ops e key of
        Inl err \<Rightarrow> (e, Some err)
      | Inr meta \<Rightarrow>
          (case write_conflict key timestamp txn meta of
             Some err \<Rightarrow> (e, Some err)
           | None \<Rightarrow>
               (case eng_Put ops e (enc key timestamp) encodeMVCCTombstone of
                  (e1, Some err) \<Rightarrow> (e1, Some err)
                | (e1, None) \<Rightarrow>
                    eng_Put ops e1 (EncodeMeta key)
                      (metadata_Encode (with_txn txn timestamp
                         (meta\<lparr>m_Timestamp := timestamp, m_Deleted := True,
                               m_KeyBytes := of_nat (length key), m_ValBytes := 0\<rparr>))))))"

section \<open>Scanning\<close>

type_synonym keyValue = "bytes \<times> bytes"

text \<open>The loop of \<open>MVCCScan\<close>; an end of \<open>None\<close> is Go's nil.\<close>

partial_function (option) scan_loop ::
  "('e, 'i) engine_ops \<Rightarrow> 'e \<Rightarrow> bytes option \<Rightarrow> timestamp \<Rightarrow> readOptions \<Rightarrow> 'i \<Rightarrow> keyValue list
   \<Rightarrow> keyValue list result option" where
  "scan_loop ops e endk timestamp opts iter results =
     (if \<not> it_Valid ops iter then Some (Inr results)
      else case mvcc_Decode (it_Key ops iter) of
          Inl err \<Rightarrow> Some (Inl err)
        | Inr (mk, versioned) \<Rightarrow>
            if versioned then scan_loop ops e endk timestamp opts (snd (it_Next ops iter)) results
            else if (case endk of None \<Rightarrow> False | Some x \<Rightarrow> \<not> bytesLess (mk_Key mk) x) then Some (Inr results)
            else
              (case (case MVCCGet ops e (mk_Key mk) timestamp opts of
                       Inr value \<Rightarrow> Inr (results @ [(mk_Key mk, value)])
                     | Inl err \<Rightarrow> if errors_Is err ErrKeyNotFound then Inr results else Inl err) of
                 Inl err \<Rightarrow> Some (Inl err)
               | Inr results' \<Rightarrow>
                   (case it_Seek ops iter (EncodeMeta (nextKeyPrefix (mk_Key mk))) of
                      (ok, iter') \<Rightarrow>
                        if \<not> ok then Some (Inr results')
                        else scan_loop ops e endk timestamp opts iter' results')))"

definition MVCCScan ::
  "('e, 'i) engine_ops \<Rightarrow> 'e \<Rightarrow> bytes \<Rightarrow> bytes option \<Rightarrow> timestamp \<Rightarrow> readOptions \<Rightarrow> keyValue list result option" where
  "MVCCScan ops e start endk timestamp opts =
     (case eng_NewIterator ops e of
        Inl err \<Rightarrow> Some (Inl err)
      | Inr iter \<Rightarrow>
          (case it_Seek ops iter (EncodeMeta start) of
             (ok, iter') \<Rightarrow>
               if \<not> ok then Some (Inr []) else scan_loop ops e endk timestamp opts iter' []))"

section \<open>Intents\<close>

datatype mvccTxnStatus = TxnCommitted | TxnAborted | TxnStatus_other int

definition resolveCommit ::
  "('e, 'i) engine_ops \<Rightarrow> 'e \<Rightarrow> bytes \<Rightarrow> mvccMetadata \<Rightarrow> timestamp \<Rightarrow> timestamp \<Rightarrow> 'e \<times> error option" where
  "resolveCommit ops e key meta intentTimestamp commitTimestamp =
     (case (if \<not> ts_Equal intentTimestamp commitTimestamp then
              (case eng_Get ops e (enc key intentTimestamp) of
                 Inl err \<Rightarrow> (e, Some (Wrap ''read intent value'' err))
               | Inr oldVal \<Rightarrow>
                   (case eng_Put ops e (enc key commitTimestamp) oldVal of
                      (e1, Some err) \<Rightarrow> (e1, Some err)
                    | (e1, None) \<Rightarrow> eng_Delete ops e1 (enc key intentTimestamp)))
            else (e, None)) of
        (e1, Some err) \<Rightarrow> (e1, Some err)
      | (e1, None) \<Rightarrow>
          eng_Put ops e1 (EncodeMeta key)
            (metadata_Encode (meta\<lparr>m_Txn := None, m_TxnTimestamp := ts_zero, m_Timestamp := commitTimestamp\<rparr>)))"

definition findPreviousVersion ::
  "('e, 'i) engine_ops \<Rightarrow> 'e \<Rightarrow> bytes \<Rightarrow> timestamp \<Rightarrow> (timestamp \<times> bool) option result" where
  "findPreviousVersion ops e key afterTimestamp =
     (case eng_NewIterator ops e of
        Inl err \<Rightarrow> Inl err
      | Inr iter \<Rightarrow>
          (case it_Seek ops iter (enc key afterTimestamp) of
             (ok, iter1) \<Rightarrow>
               if \<not> ok then Inr None
               else (case it_Next ops iter1 of
                       (ok2, iter2) \<Rightarrow>
                         if \<not> ok2 then Inr None
                         else (case mvcc_Decode (it_Key ops iter2) of
                                 Inl err \<Rightarrow> Inl err
                               | Inr (found, versioned) \<Rightarrow>
                                   if \<not> versioned \<or> mk_Key found \<noteq> key then Inr None
                                   else Inr (Some (mk_Timestamp found, snd (decodeMVCCValue (it_Value ops iter2))))))))"

definition resolveAbort :: "('e, 'i) engine_ops \<Rightarrow> 'e \<Rightarrow> bytes \<Rightarrow> timestamp \<Rightarrow> 'e \<times> error option" where
  "resolveAbort ops e key intentTimestamp =
     (case findPreviousVersion ops e key intentTimestamp of
        Inl err \<Rightarrow> (e, Some err)
      | Inr prev \<Rightarrow>
          (case eng_Delete ops e (enc key intentTimestamp) of
             (e1, Some err) \<Rightarrow> (e1, Some err)
           | (e1, None) \<Rightarrow>
               (case prev of
                  None \<Rightarrow> eng_Delete ops e1 (EncodeMeta key)
                | Some (prevTimestamp, prevIsTombstone) \<Rightarrow>
                    eng_Put ops e1 (EncodeMeta key)
                      (metadata_Encode (zeroMetadata\<lparr>m_Timestamp := prevTimestamp, m_Deleted := prevIsTombstone,
                                                     m_KeyBytes := of_nat (length key)\<rparr>)))))"

definition MVCCResolveWriteIntent ::
  "('e, 'i) engine_ops \<Rightarrow> 'e \<Rightarrow> bytes \<Rightarrow> txnid \<Rightarrow> mvccTxnStatus \<Rightarrow> timestamp \<Rightarrow> 'e \<times> error option" where
  "MVCCResolveWriteIntent ops e key txnID status commitTimestamp =
     (case eng_Get ops e (EncodeMeta key) of
        Inl err \<Rightarrow> if errors_Is err ErrKeyNotFound then (e, None) else (e, Some err)
      | Inr metaVal \<Rightarrow>
          (case DecodeMetadata metaVal of
             Inl err \<Rightarrow> (e, Some err)
           | Inr meta \<Rightarrow>
               if \<not> HasIntent meta \<or> m_Txn meta \<noteq> Some txnID then (e, None)
               else (case status of
                       TxnCommitted \<Rightarrow> resolveCommit ops e key meta (m_TxnTimestamp meta) commitTimestamp
                     | TxnAborted \<Rightarrow> resolveAbort ops e key (m_TxnTimestamp meta)
                     | TxnStatus_other n \<Rightarrow> (e, Some (Msg ''mvcc: unknown txn status'')))))"

definition MVCCPushIntent ::
  "('e, 'i) engine_ops \<Rightarrow> 'e \<Rightarrow> bytes \<Rightarrow> txnid \<Rightarrow> timestamp \<Rightarrow> 'e \<times> error option" where
  "MVCCPushIntent ops e key txnID newTimestamp =
     (case eng_Get ops e (EncodeMeta key) of
        Inl err \<Rightarrow> if errors_Is err ErrKeyNotFound then (e, None) else (e, Some (Wrap ''push intent: read metadata'' err))
      | Inr metaVal \<Rightarrow>
          (case DecodeMetadata metaVal of
             Inl err \<Rightarrow> (e, Some (Wrap ''push intent: decode metadata'' err))
           | Inr meta \<Rightarrow>
               if \<not> HasIntent meta \<or> m_Txn meta \<noteq> Some txnID then (e, None)
               else if ts_LessEq newTimestamp (m_TxnTimestamp meta) then (e, None)
               else (case eng_Get ops e (enc key (m_TxnTimestamp meta)) of
                       Inl err \<Rightarrow> (e, Some (Wrap ''push intent: read intent entry'' err))
                     | Inr raw \<Rightarrow>
                         (case eng_Put ops e (enc key newTimestamp) raw of
                            (e1, Some err) \<Rightarrow> (e1, Some (Wrap ''push intent: write new entry'' err))
                          | (e1, None) \<Rightarrow>
                              (case eng_Delete ops e1 (enc key (m_TxnTimestamp meta)) of
                                 (e2, Some err) \<Rightarrow> (e2, Some (Wrap ''push intent: delete old entry'' err))
                               | (e2, None) \<Rightarrow>
                                   eng_Put ops e2 (EncodeMeta key)
                                     (metadata_Encode (meta\<lparr>m_Timestamp := newTimestamp,
                                                           m_TxnTimestamp := newTimestamp\<rparr>)))))))"

section \<open>Garbage collection\<close>

type_synonym versionInfo = "timestamp \<times> bool"

partial_function (option) collect_loop ::
  "('e, 'i) engine_ops \<Rightarrow> bytes \<Rightarrow> 'i \<Rightarrow> versionInfo list \<Rightarrow> versionInfo list option" where
  "collect_loop ops key iter versions =
     (if \<not> it_Valid ops iter then Some versions
      else case mvcc_Decode (it_Key ops iter) of
          Inl err \<Rightarrow> Some versions
        | Inr (mk, versioned) \<Rightarrow>
            if \<not> versioned \<or> mk_Key mk \<noteq> key then Some versions
            else collect_loop ops key (snd (it_Next ops iter))
                   (versions @ [(mk_Timestamp mk, snd (decodeMVCCValue (it_Value ops iter)))]))"

definition collectVersions :: "('e, 'i) engine_ops \<Rightarrow> 'e \<Rightarrow> bytes \<Rightarrow> versionInfo list result option" where
  "collectVersions ops e key =
     (case eng_NewIterator ops e of
        Inl err \<Rightarrow> Some (Inl err)
      | Inr iter \<Rightarrow>
          (case it_Seek ops iter (EncodeMeta key) of
             (ok, iter1) \<Rightarrow>
               if \<not> ok then Some (Inr [])
               else (case mvcc_Decode (it_Key ops iter1) of
                       Inl err \<Rightarrow> Some (Inl err)
                     | Inr (mk, versioned) \<Rightarrow>
                         if \<not> versioned then
                           (case it_Next ops iter1 of
                              (ok2, iter2) \<Rightarrow>
                                if \<not> ok2 then Some (Inr []) else map_option Inr (collect_loop ops key iter2 []))
                         else if mk_Key mk \<noteq> key then Some (Inr [])
                         else map_option Inr (collect_loop ops key iter1 []))))"

fun delete_versions :: "('e, 'i) engine_ops \<Rightarrow> bytes \<Rightarrow> versionInfo list \<Rightarrow> 'e \<Rightarrow> 'e \<times> error option" where
  "delete_versions ops key [] e = (e, None)"
| "delete_versions ops key (v # vs) e =
     (case eng_Delete ops e (enc key (fst v)) of
        (e1, Some err) \<Rightarrow> (e1, Some err)
      | (e1, None) \<Rightarrow> delete_versions ops key vs e1)"

definition gcKey :: "('e, 'i) engine_ops \<Rightarrow> 'e \<Rightarrow> bytes \<Rightarrow> timestamp \<Rightarrow> ('e \<times> error option) option" where
  "gcKey ops e key gcThreshold =
     (case collectVersions ops e key of
        None \<Rightarrow> None
      | Some (Inl err) \<Rightarrow> Some (e, Some err)
      | Some (Inr []) \<Rightarrow> Some (e, None)
      | Some (Inr (newest # older)) \<Rightarrow>
          if snd newest \<and> ts_LessEq (fst newest) gcThreshold then
            (case delete_versions ops key (newest # older) e of
               (e1, Some err) \<Rightarrow> Some (e1, Some err)
             | (e1, None) \<Rightarrow> Some (eng_Delete ops e1 (EncodeMeta key)))
          else
            Some (delete_versions ops key (filter (\<lambda>v. ts_LessEq (fst v) gcThreshold) older) e))"

partial_function (option) gc_loop ::
  "('e, 'i) engine_ops \<Rightarrow> timestamp \<Rightarrow> 'i \<Rightarrow> 'e \<Rightarrow> ('e \<times> error option) option" where
  "gc_loop ops gcThreshold iter e =
     (if \<not> it_Valid ops iter then Some (e, None)
      else case mvcc_Decode (it_Key ops iter) of
          Inl err \<Rightarrow> gc_loop ops gcThreshold (snd (it_Next ops iter)) e
        | Inr (mk, versioned) \<Rightarrow>
            if versioned then gc_loop ops gcThreshold (snd (it_Next ops iter)) e
            else (case gcKey ops e (mk_Key mk) gcThreshold of
                    None \<Rightarrow> None
                  | Some (e1, Some err) \<Rightarrow> Some (e1, Some err)
                  | Some (e1, None) \<Rightarrow>
                      (case it_Seek ops iter (EncodeMeta (nextKeyPrefix (mk_Key mk))) of
                         (ok, iter') \<Rightarrow>
                           if \<not> ok then Some (e1, None) else gc_loop ops gcThreshold iter' e1)))"

definition MVCCGarbageCollect :: "('e, 'i) engine_ops \<Rightarrow> 'e \<Rightarrow> timestamp \<Rightarrow> ('e \<times> error option) option" where
  "MVCCGarbageCollect ops e gcThreshold =
     (case eng_NewIterator ops e of
        Inl err \<Rightarrow> Some (e, Some err)
      | Inr iter \<Rightarrow>
          (case it_Seek ops iter [] of
             (ok, iter') \<Rightarrow> if \<not> ok then Some (e, None) else gc_loop ops gcThreshold iter' e))"

end
