(* ===== verification/Mvcc_Reads.thy ===== *)
theory Mvcc_Reads
  imports Mvcc
begin

text \<open>
  What the MVCC operations mean. Each raw key has a finite map from timestamps to stored
  values (\<open>versions\<close>) and a metadata record. A read at a timestamp sees the newest version at or
  below it (\<open>visible\<close>). The operations are proved once, for any engine that keeps the
  contract of \<open>storage_engine\<close>.
\<close>

section \<open>Layout of the store\<close>

text \<open>
  \<open>keys_ok K\<close>: the raw keys of \<open>K\<close> can be told apart in the encoding. It holds for keys
  without a zero byte.
\<close>

definition keys_ok :: "bytes set \<Rightarrow> bool" where
  "keys_ok K \<longleftrightarrow> (\<forall>k \<in> K. key_ok k \<and> (\<forall>k' \<in> K. \<forall>s. k' \<noteq> EncodeMeta k @ s))"

lemma keys_ok_no_zero: "keys_ok {k. 0 \<notin> set k}"
proof -
  have "key_ok k" if "0 \<notin> set k" for k
  proof -
    have "k ! (length k - 12) \<noteq> 0" if "12 \<le> length k"
      using \<open>0 \<notin> set k\<close> that nth_mem [of "length k - 12" k] by force
    then show ?thesis by (auto simp: key_ok_def)
  qed
  then show ?thesis by (auto simp: keys_ok_def EncodeMeta_def)
qed

lemma keys_ok_key_ok: "keys_ok K \<Longrightarrow> k \<in> K \<Longrightarrow> key_ok k"
  by (simp add: keys_ok_def)

lemma keys_ok_prefix:
  assumes "keys_ok K" "k \<in> K" "k' \<in> K" and eq: "EncodeMeta k @ s = EncodeMeta k' @ s'"
  shows "k = k'"
proof -
  have np: "k' \<noteq> EncodeMeta k @ u" "k \<noteq> EncodeMeta k' @ u" for u
    using assms(1-3) unfolding keys_ok_def by blast+
  consider "length k < length k'" | "length k' < length k" | "length k = length k'" by linarith
  then show ?thesis
  proof cases
    case 1
    from arg_cong [OF eq, of "take (length k')"] 1 have "k' = EncodeMeta k @ take (length k' - length k - 1) s"
      by (simp add: EncodeMeta_def take_Cons')
    with np show ?thesis by blast
  next
    case 2
    from arg_cong [OF eq, of "take (length k)"] 2 have "k = EncodeMeta k' @ take (length k - length k' - 1) s'"
      by (simp add: EncodeMeta_def take_Cons')
    with np show ?thesis by blast
  next
    case 3
    from arg_cong [OF eq, of "take (length k)"] 3 show ?thesis by (simp add: EncodeMeta_def)
  qed
qed

lemma interval_prefix:
  fixes P :: "'a::linorder list"
  shows "P @ a \<le> x \<Longrightarrow> x \<le> P @ b \<Longrightarrow> \<exists>s. x = P @ s"
proof (induction P arbitrary: x)
  case (Cons p P)
  then show ?case by (cases x) auto
qed simp

text \<open>An entry of the store: metadata or a version of a key of \<open>K\<close>.\<close>

definition ts_valid :: "timestamp \<Rightarrow> bool" where
  "ts_valid t \<longleftrightarrow> ts_ok t \<and> t \<noteq> ts_zero"

definition entry_of :: "bytes \<Rightarrow> bytes \<Rightarrow> bool" where
  "entry_of k x \<longleftrightarrow> x = EncodeMeta k \<or> (\<exists>t. ts_valid t \<and> x = enc k t)"

definition store_ok :: "bytes set \<Rightarrow> (bytes \<rightharpoonup> bytes) \<Rightarrow> bool" where
  "store_ok K V \<longleftrightarrow> (\<forall>x \<in> dom V. \<exists>k \<in> K. entry_of k x)"

definition versions :: "(bytes \<rightharpoonup> bytes) \<Rightarrow> bytes \<Rightarrow> (timestamp \<rightharpoonup> bytes)" where
  "versions V k = (\<lambda>t. if ts_valid t then V (enc k t) else None)"

lemma ts_valid_nonzero [simp]: "ts_valid t \<Longrightarrow> t \<noteq> ts_zero" "ts_valid t \<Longrightarrow> ts_zero \<noteq> t" "\<not> ts_valid ts_zero"
  by (auto simp: ts_valid_def)

lemma enc_prefix: "ts_valid t \<Longrightarrow> enc k t = EncodeMeta k @ encodeTimestampDesc t"
  by (simp add: enc_version)

lemma entry_of_prefix: "entry_of k x \<Longrightarrow> \<exists>s. x = EncodeMeta k @ s"
  unfolding entry_of_def using enc_prefix by fastforce

lemma entry_of_meta [simp]: "entry_of k (EncodeMeta k)" and entry_of_enc [simp]: "ts_valid t \<Longrightarrow> entry_of k (enc k t)"
  by (auto simp: entry_of_def)

lemma entry_of_unique:
  assumes "keys_ok K" "k \<in> K" "k' \<in> K" "entry_of k x" "entry_of k' x"
  shows "k = k'"
  using entry_of_prefix [OF assms(4)] entry_of_prefix [OF assms(5)] keys_ok_prefix [OF assms(1-3)] by metis

lemma entry_of_prefix_unique:
  assumes "keys_ok K" "k \<in> K" "k' \<in> K" "entry_of k' (EncodeMeta k @ s)"
  shows "k = k'"
  using entry_of_prefix [OF assms(4)] keys_ok_prefix [OF assms(1-3)] by metis

lemma Decode_entry:
  assumes "key_ok k" "entry_of k x"
  obtains "x = EncodeMeta k" and "mvcc_Decode x = Inr (\<lparr>mk_Key = k, mk_Timestamp = ts_zero\<rparr>, False)"
  | t where "ts_valid t" and "x = enc k t" and "mvcc_Decode x = Inr (\<lparr>mk_Key = k, mk_Timestamp = t\<rparr>, True)"
  using assms that unfolding entry_of_def by (auto simp: Decode_meta Decode_enc)

lemma enc_le: "ts_valid t \<Longrightarrow> ts_valid u \<Longrightarrow> enc k t \<le> enc k u \<longleftrightarrow> u \<le> t"
  using enc_less [of u t k] by (auto simp: ts_valid_def not_less [symmetric])

lemma meta_less_enc: "ts_valid t \<Longrightarrow> EncodeMeta k < enc k t"
proof -
  assume "ts_valid t"
  moreover have "encodeTimestampDesc t \<noteq> []" using length_encodeTimestampDesc [of t] by force
  ultimately show ?thesis by (simp add: enc_prefix less_append)
qed

lemma finite_versions:
  assumes "finite (dom V)"
  shows "finite (dom (versions V k))"
proof (rule finite_imageD)
  show "finite (enc k ` dom (versions V k))"
    by (rule finite_subset [OF _ assms]) (auto simp: versions_def split: if_splits)
  show "inj_on (enc k) (dom (versions V k))" by (auto simp: inj_on_def enc_inj)
qed

section \<open>Updates of one key\<close>

named_theorems mvcc_upd

lemma versions_upd_version [mvcc_upd]:
  assumes "keys_ok K" "k \<in> K" "k' \<in> K" "ts_valid t"
  shows "versions (V(enc k t := r)) k' = (if k = k' then (versions V k)(t := r) else versions V k')"
proof (cases "k = k'")
  case True
  then show ?thesis using assms(4) by (auto simp: versions_def enc_inj fun_eq_iff)
next
  case False
  then have "enc k' u \<noteq> enc k t" if "ts_valid u" for u
    using entry_of_unique [OF assms(1-3), of "enc k t"] entry_of_enc [OF assms(4), of k] entry_of_enc [OF that, of k'] by auto
  then show ?thesis using False by (auto simp: versions_def fun_eq_iff)
qed

lemma versions_upd_meta [mvcc_upd]:
  assumes "keys_ok K" "k \<in> K" "k' \<in> K"
  shows "versions (V(EncodeMeta k := r)) k' = versions V k'"
proof -
  have "enc k' t \<noteq> EncodeMeta k" if "ts_valid t" for t
    using entry_of_unique [OF assms, of "enc k' t"] entry_of_enc [OF that, of k'] entry_of_meta [of k]
      meta_less_enc [OF that, of k'] by auto
  then show ?thesis by (auto simp: versions_def fun_eq_iff)
qed

lemma meta_upd_version [mvcc_upd]:
  assumes "keys_ok K" "k \<in> K" "k' \<in> K" "ts_valid t"
  shows "(V(enc k t := r)) (EncodeMeta k') = V (EncodeMeta k')"
  using entry_of_unique [OF assms(1-3), of "EncodeMeta k'"] entry_of_enc [OF assms(4), of k] entry_of_meta [of k']
    meta_less_enc [OF assms(4), of k] by auto

lemma meta_upd_meta [mvcc_upd]: "(V(EncodeMeta k := r)) (EncodeMeta k') = (if k = k' then r else V (EncodeMeta k'))"
  by (simp add: EncodeMeta_def)

lemma store_ok_upd [mvcc_upd]:
  "store_ok K V \<Longrightarrow> k \<in> K \<Longrightarrow> store_ok K (V(EncodeMeta k := r))"
  "store_ok K V \<Longrightarrow> k \<in> K \<Longrightarrow> ts_valid t \<Longrightarrow> store_ok K (V(enc k t := r))"
  by (auto simp: store_ok_def intro!: bexI [of _ k] split: if_splits)

section \<open>The newest version at or below a timestamp\<close>

definition upto :: "(timestamp \<rightharpoonup> bytes) \<Rightarrow> timestamp \<Rightarrow> timestamp set" where
  "upto vs ts = {t \<in> dom vs. t \<le> ts}"

definition read_at :: "(timestamp \<rightharpoonup> bytes) \<Rightarrow> timestamp \<Rightarrow> bytes option" where
  "read_at vs ts = (if upto vs ts = {} then None else vs (Max (upto vs ts)))"

definition live_value :: "bytes option \<Rightarrow> bytes option" where
  "live_value r = (case r of None \<Rightarrow> None
     | Some raw \<Rightarrow> (case decodeMVCCValue raw of (v, isTombstone) \<Rightarrow> if isTombstone then None else Some v))"

definition visible :: "(timestamp \<rightharpoonup> bytes) \<Rightarrow> timestamp \<Rightarrow> bytes option" where
  "visible vs ts = live_value (read_at vs ts)"

definition found :: "bytes option \<Rightarrow> bytes result" where
  "found r = (case r of None \<Rightarrow> Inl ErrKeyNotFound | Some v \<Rightarrow> Inr v)"

lemma live_value_simps [simp]:
  "live_value None = None" "live_value (Some (encodeMVCCValue v)) = Some v" "live_value (Some encodeMVCCTombstone) = None"
  by (simp_all add: live_value_def decodeMVCCValue_def encodeMVCCValue_def encodeMVCCTombstone_def)

lemma upto_finite: "finite (dom vs) \<Longrightarrow> finite (upto vs ts)"
  by (simp add: upto_def)

lemma upto_Max:
  assumes "finite (dom vs)" "t \<in> dom vs" "t \<le> ts" "\<And>u. u \<in> dom vs \<Longrightarrow> u \<le> ts \<Longrightarrow> u \<le> t"
  shows "Max (upto vs ts) = t" and "upto vs ts \<noteq> {}"
proof -
  show "Max (upto vs ts) = t"
    by (rule Max_eqI) (use assms upto_finite in \<open>auto simp: upto_def\<close>)
  show "upto vs ts \<noteq> {}" using assms by (auto simp: upto_def)
qed

lemma read_at_eqI:
  assumes "finite (dom vs)" "vs t = Some r" "t \<le> ts" "\<And>u. u \<in> dom vs \<Longrightarrow> u \<le> ts \<Longrightarrow> u \<le> t"
  shows "read_at vs ts = Some r"
  using upto_Max [OF assms(1) _ assms(3,4)] assms(2) by (auto simp: read_at_def)

lemma read_at_None: "(\<And>u. u \<in> dom vs \<Longrightarrow> \<not> u \<le> ts) \<Longrightarrow> read_at vs ts = None"
  by (auto simp: read_at_def upto_def)

lemma read_at_empty [simp]: "read_at Map.empty ts = None"
  by (rule read_at_None) simp

lemma read_at_upd_newest:
  assumes "finite (dom vs)" "t \<le> ts" "\<And>u. u \<in> dom vs \<Longrightarrow> u \<le> t"
  shows "read_at (vs(t \<mapsto> r)) ts = Some r"
  by (rule read_at_eqI [where t = t]) (use assms in \<open>auto split: if_splits\<close>)

lemma upto_upd_above: "\<not> t \<le> ts \<Longrightarrow> upto (vs(t := r)) ts = upto vs ts"
  by (cases r) (auto simp: upto_def)

lemma read_at_upd_above:
  assumes "finite (dom vs)" "\<not> t \<le> ts"
  shows "read_at (vs(t := r)) ts = read_at vs ts"
proof (cases "upto vs ts = {}")
  case False
  then have "Max (upto vs ts) \<noteq> t"
    using Max_in [OF upto_finite [OF assms(1)] False] assms(2) by (auto simp: upto_def)
  then show ?thesis using assms(2) by (simp add: read_at_def upto_upd_above)
qed (use assms(2) in \<open>simp add: read_at_def upto_upd_above\<close>)

section \<open>Reads over any engine\<close>

context storage_engine
begin

lemma seek_first:
  assumes "inv e"
  obtains i i' where "eng_NewIterator ops e = Inr i" and "it_Seek ops i x = (rest i' \<noteq> [], i')" and "iok i'"
    and "rest i' = entries (from_key x (view e))" and "whole i' = entries (view e)"
proof -
  obtain i where i: "eng_NewIterator ops e = Inr i" "iok i" "whole i = entries (view e)"
    using NewIterator [OF assms] by blast
  obtain i' where "it_Seek ops i x = (rest i' \<noteq> [], i')" "iok i'" "whole i' = whole i"
    "rest i' = dropWhile (\<lambda>p. fst p < x) (whole i)"
    using Seek [OF i(2)] by blast
  with i show thesis using that dropWhile_entries [OF view_finite [OF assms]] by simp
qed

lemma seek_version_none:
  assumes "finite (dom V)" "from_key (enc k ts) V = Map.empty" "ts_valid ts"
  shows "read_at (versions V k) ts = None"
proof (rule read_at_None)
  fix u assume u: "u \<in> dom (versions V k)"
  then have v: "ts_valid u" "V (enc k u) \<noteq> None" by (auto simp: versions_def split: if_splits)
  have "from_key (enc k ts) V (enc k u) = None" using assms(2) by simp
  then show "\<not> u \<le> ts" using v assms(3) enc_le [of ts u k] by (simp add: from_key_apply split: if_splits)
qed

text \<open>The first entry at or after \<open>Encode(key, ts)\<close> is the newest version at or below \<open>ts\<close>, if it is a version of \<open>key\<close>.\<close>

lemma seek_version_hit:
  assumes fin: "finite (dom V)" and K: "keys_ok K" "k \<in> K" "k' \<in> K" and ts: "ts_valid ts"
    and first: "entries (from_key (enc k ts) V) = (x, raw) # r" and x: "entry_of k' x"
  shows "if k' = k then x = enc k (Max (upto (versions V k) ts)) \<and> ts_valid (Max (upto (versions V k) ts)) \<and>
             read_at (versions V k) ts = Some raw
         else read_at (versions V k) ts = None"
proof -
  have f: "from_key (enc k ts) V x = Some raw" "\<And>y. y \<in> dom (from_key (enc k ts) V) \<Longrightarrow> x \<le> y"
    using first entries_Cons_iff [OF finite_from_key [OF fin]] by auto
  have ge: "enc k ts \<le> x" and Vx: "V x = Some raw" using f(1) by (auto simp: from_key_apply split: if_splits)
  have below: "x \<le> enc k u" if "u \<in> dom (versions V k)" "u \<le> ts" for u
  proof (rule f(2))
    show "enc k u \<in> dom (from_key (enc k ts) V)"
      using that ts enc_le [of ts u k] by (auto simp: versions_def dom_def from_key_apply split: if_splits)
  qed
  show ?thesis
  proof (cases "k' = k")
    case True
    have "x \<noteq> EncodeMeta k" using ge meta_less_enc [OF ts, of k] by auto
    then obtain t where t: "ts_valid t" "x = enc k t" using x True by (auto simp: entry_of_def)
    have le: "t \<le> ts" using ge t ts enc_le by simp
    have v: "versions V k t = Some raw" using t Vx by (simp add: versions_def)
    have mx: "u \<le> t" if "u \<in> dom (versions V k)" "u \<le> ts" for u
      using below [OF that] t that enc_le [of t u k] by (auto simp: versions_def split: if_splits)
    have "Max (upto (versions V k) ts) = t"
      by (rule upto_Max(1)) (use fin finite_versions v le mx in auto)
    then show ?thesis using True t read_at_eqI [OF finite_versions [OF fin] v le mx] by simp
  next
    case False
    have "read_at (versions V k) ts = None"
    proof (rule read_at_None, rule notI)
      fix u assume u: "u \<in> dom (versions V k)" "u \<le> ts"
      then have "ts_valid u" by (auto simp: versions_def split: if_splits)
      then obtain s where "x = EncodeMeta k @ s"
        using interval_prefix [of "EncodeMeta k" _ x] ge below [OF u] ts by (metis enc_prefix)
      then show False using entry_of_prefix_unique [OF K] x False by auto
    qed
    then show ?thesis using False by simp
  qed
qed

lemma get_version_visible:
  assumes "inv e" "store_ok K (view e)" "keys_ok K" "k \<in> K" "ts_valid ts"
  shows "get_version ops e k ts = found (visible (versions (view e) k) ts)"
proof -
  obtain i i' where i: "eng_NewIterator ops e = Inr i" "it_Seek ops i (enc k ts) = (rest i' \<noteq> [], i')" "iok i'"
    "rest i' = entries (from_key (enc k ts) (view e))"
    by (rule seek_first [OF assms(1)])
  have fin: "finite (dom (view e))" by (rule view_finite [OF assms(1)])
  show ?thesis
  proof (cases "rest i'")
    case Nil
    then have "from_key (enc k ts) (view e) = Map.empty"
      using i(4) entries_eq_Nil_iff [of "from_key (enc k ts) (view e)"] fin by simp
    then show ?thesis using i Nil seek_version_none [OF fin _ assms(5)]
      by (simp add: get_version_def found_def visible_def)
  next
    case (Cons p r)
    obtain x raw where p: "p = (x, raw)" by (cases p)
    have first: "entries (from_key (enc k ts) (view e)) = (x, raw) # r" using i(4) Cons p by simp
    have "x \<in> dom (view e)"
      using first entries_Cons_iff [of "from_key (enc k ts) (view e)"] fin by (auto simp: from_key_apply split: if_splits)
    then obtain k' where k': "k' \<in> K" "entry_of k' x" using assms(2) by (auto simp: store_ok_def)
    note hit = seek_version_hit [OF fin assms(3,4) k'(1) assms(5) first k'(2)]
    have kv: "it_Key ops i' = x" "it_Value ops i' = raw" using Key Value i(3) Cons p by blast+
    show ?thesis
    proof (cases "k' = k")
      case True
      then obtain t where "t \<noteq> ts_zero" "x = enc k t" "read_at (versions (view e) k) ts = Some raw"
        using hit by (metis ts_valid_nonzero(1))
      then show ?thesis using i Cons kv
        by (auto simp: get_version_def visible_def live_value_def found_def Decode_enc split: prod.splits)
    next
      case False
      have "get_version ops e k ts = Inl ErrKeyNotFound"
        using Decode_entry [OF keys_ok_key_ok [OF assms(3) k'(1)] k'(2)] i Cons kv False
        by (cases rule: Decode_entry [OF keys_ok_key_ok [OF assms(3) k'(1)] k'(2)])
          (simp_all add: get_version_def)
      then show ?thesis using hit False by (simp add: visible_def found_def)
    qed
  qed
qed

end

end
