(* ===== verification/Mvcc_Writes.thy ===== *)
theory Mvcc_Writes
  imports Mvcc_Reads
begin

text \<open>
  The invariant between metadata and versions (the comment on \<open>MVCCMetadata\<close>), and what
  writes, intent resolution and pushes do to it and to every reader.
\<close>

lemma upto_empty_iff:
  assumes "finite (dom vs)"
  shows "upto vs ts = {} \<longleftrightarrow> read_at vs ts = None"
  using Max_in [OF upto_finite [OF assms], of ts] by (auto simp: read_at_def upto_def)

section \<open>Metadata describes the newest version\<close>

definition meta_at :: "(bytes \<rightharpoonup> bytes) \<Rightarrow> bytes \<Rightarrow> mvccMetadata result" where
  "meta_at V k = (case V (EncodeMeta k) of None \<Rightarrow> Inr zeroMetadata | Some b \<Rightarrow> DecodeMetadata b)"

definition meta_ok :: "(timestamp \<rightharpoonup> bytes) \<Rightarrow> mvccMetadata \<Rightarrow> bool" where
  "meta_ok vs m \<longleftrightarrow>
     (\<forall>t \<in> dom vs. t \<le> m_Timestamp m) \<and>
     (m_Timestamp m \<noteq> ts_zero \<longrightarrow> m_Timestamp m \<in> dom vs \<and> (m_Deleted m \<longleftrightarrow> live_value (vs (m_Timestamp m)) = None)) \<and>
     (HasIntent m \<longrightarrow> m_TxnTimestamp m = m_Timestamp m \<and> m_Timestamp m \<noteq> ts_zero)"

definition coherent :: "(bytes \<rightharpoonup> bytes) \<Rightarrow> bytes \<Rightarrow> bool" where
  "coherent V k \<longleftrightarrow> (\<exists>m. meta_at V k = Inr m \<and> meta_ok (versions V k) m)"

definition mvcc_ok :: "bytes set \<Rightarrow> (bytes \<rightharpoonup> bytes) \<Rightarrow> bool" where
  "mvcc_ok K V \<longleftrightarrow> store_ok K V \<and> (\<forall>k \<in> K. coherent V k)"

text \<open>The metadata of a key of a coherent store.\<close>

definition meta_of :: "(bytes \<rightharpoonup> bytes) \<Rightarrow> bytes \<Rightarrow> mvccMetadata" where
  "meta_of V k = (case meta_at V k of Inr m \<Rightarrow> m | Inl _ \<Rightarrow> zeroMetadata)"

abbreviation newest :: "(bytes \<rightharpoonup> bytes) \<Rightarrow> bytes \<Rightarrow> timestamp" where
  "newest V k \<equiv> m_Timestamp (meta_of V k)"

lemma norm_inline_sel [simp]:
  "m_Timestamp (norm_inline m) = m_Timestamp m" "m_Deleted (norm_inline m) = m_Deleted m"
  "m_Txn (norm_inline m) = m_Txn m" "m_TxnTimestamp (norm_inline m) = m_TxnTimestamp m"
  "HasIntent (norm_inline m) = HasIntent m"
  by (simp_all add: norm_inline_def HasIntent_def)

lemma meta_ok_norm [simp]: "meta_ok vs (norm_inline m) = meta_ok vs m"
  by (simp add: meta_ok_def)

lemma HasIntent_zero [simp]: "HasIntent zeroMetadata = False" "m_Timestamp zeroMetadata = ts_zero"
  by (simp_all add: HasIntent_def zeroMetadata_def)

lemma mvcc_okD:
  assumes "mvcc_ok K V"
  shows "store_ok K V" and "k \<in> K \<Longrightarrow> meta_at V k = Inr (meta_of V k)" and "k \<in> K \<Longrightarrow> meta_ok (versions V k) (meta_of V k)"
  using assms by (auto simp: mvcc_ok_def coherent_def meta_of_def split: sum.splits)

lemma versions_valid: "t \<in> dom (versions V k) \<Longrightarrow> ts_valid t"
  by (auto simp: versions_def split: if_splits)

lemma meta_okD:
  assumes "meta_ok vs m"
  shows "t \<in> dom vs \<Longrightarrow> t \<le> m_Timestamp m"
    and "m_Timestamp m \<noteq> ts_zero \<Longrightarrow> m_Timestamp m \<in> dom vs"
    and "HasIntent m \<Longrightarrow> m_TxnTimestamp m = m_Timestamp m" and "HasIntent m \<Longrightarrow> m_Timestamp m \<in> dom vs"
  using assms by (auto simp: meta_ok_def)

text \<open>A key whose newest timestamp is zero has no version.\<close>

lemma newest_zero:
  assumes "mvcc_ok K V" "k \<in> K" "newest V k = ts_zero"
  shows "versions V k = Map.empty"
proof -
  have "t \<notin> dom (versions V k)" for t
  proof
    assume t: "t \<in> dom (versions V k)"
    then have "t \<le> ts_zero" using meta_okD(1) mvcc_okD(3) assms by metis
    moreover have "ts_zero \<le> t" "t \<noteq> ts_zero"
      using versions_valid [OF t] ts_ok_ge_zero by (auto simp: ts_valid_def)
    ultimately show False by simp
  qed
  then show ?thesis by (auto simp: dom_def)
qed

lemma meta_at_upd_meta [mvcc_upd]:
  "meta_at (V(EncodeMeta k := r)) k' =
     (if k = k' then (case r of None \<Rightarrow> Inr zeroMetadata | Some b \<Rightarrow> DecodeMetadata b) else meta_at V k')"
  by (simp add: meta_at_def EncodeMeta_def)

lemma meta_at_upd_version [mvcc_upd]:
  "keys_ok K \<Longrightarrow> k \<in> K \<Longrightarrow> k' \<in> K \<Longrightarrow> ts_valid t \<Longrightarrow> meta_at (V(enc k t := r)) k' = meta_at V k'"
  by (simp add: meta_at_def meta_upd_version del: fun_upd_apply)

text \<open>
  Every operation on a key \<open>k\<close> leaves the other keys alone and gives \<open>k\<close> new versions and
  new metadata.
\<close>

definition changed :: "bytes set \<Rightarrow> bytes \<Rightarrow> (bytes \<rightharpoonup> bytes) \<Rightarrow> (timestamp \<rightharpoonup> bytes) \<Rightarrow> mvccMetadata \<Rightarrow> (bytes \<rightharpoonup> bytes) \<Rightarrow> bool" where
  "changed K k V vs m V' \<longleftrightarrow> store_ok K V' \<and> meta_at V' k = Inr m \<and> versions V' k = vs \<and>
     (\<forall>k' \<in> K. k' \<noteq> k \<longrightarrow> V' (EncodeMeta k') = V (EncodeMeta k') \<and> versions V' k' = versions V k')"

lemma changed_other:
  assumes "changed K k V vs m V'" "k' \<in> K" "k' \<noteq> k"
  shows "meta_at V' k' = meta_at V k'" and "versions V' k' = versions V k'"
  using assms by (auto simp: changed_def meta_at_def)

lemma changed_mvcc_ok:
  assumes "mvcc_ok K V" "changed K k V vs m V'" "meta_ok vs m"
  shows "mvcc_ok K V'"
proof -
  have "coherent V' k'" if "k' \<in> K" for k'
    using assms that changed_other [OF assms(2) that]
    by (cases "k' = k") (auto simp: mvcc_ok_def coherent_def changed_def)
  then show ?thesis using assms(2) by (simp add: mvcc_ok_def changed_def)
qed

lemma changed_meta_of:
  assumes "changed K k V vs m V'"
  shows "meta_of V' k = m" and "k' \<in> K \<Longrightarrow> k' \<noteq> k \<Longrightarrow> meta_of V' k' = meta_of V k'"
  using assms changed_other(1) [OF assms] by (auto simp: changed_def meta_of_def)

lemma changed_trans:
  "changed K k V vs m V' \<Longrightarrow> changed K k V' vs' m' V'' \<Longrightarrow> changed K k V vs' m' V''"
  unfolding changed_def by metis

section \<open>Reads\<close>

definition read_conflict :: "bytes \<Rightarrow> timestamp \<Rightarrow> readOptions \<Rightarrow> mvccMetadata \<Rightarrow> error option" where
  "read_conflict k ts opts m =
     (if HasIntent m \<and> m_TxnTimestamp m \<le> ts \<and> ro_Txn opts \<noteq> m_Txn m then Some (newWriteIntentError k m)
      else if ro_MaxTimestamp opts \<noteq> ts_zero \<and> ts < m_Timestamp m \<and> m_Timestamp m \<le> ro_MaxTimestamp opts \<and>
        \<not> (HasIntent m \<and> ro_Txn opts = m_Txn m) then Some (newUncertaintyError k ts (ro_MaxTimestamp opts) (m_Timestamp m))
      else None)"

lemma ownIntent_eq: "HasIntent m \<Longrightarrow> ownIntent txn m \<longleftrightarrow> txn = m_Txn m"
  by (auto simp: ownIntent_def HasIntent_def split: option.splits)

lemma ts_valid_gt_zero: "ts_valid t \<Longrightarrow> \<not> t < ts_zero"
  using ts_ok_ge_zero by (simp add: ts_valid_def not_less)

lemma read_conflict_no_version: "\<not> HasIntent m \<Longrightarrow> m_Timestamp m = ts_zero \<Longrightarrow> ts_valid ts \<Longrightarrow> read_conflict k ts opts m = None"
  by (simp add: read_conflict_def ts_valid_gt_zero)

context storage_engine
begin

lemma read_meta_eq: "inv e \<Longrightarrow> read_meta ops e k = meta_at (view e) k"
  by (simp add: read_meta_def meta_at_def Get split: option.splits)

lemma MVCCGet_view:
  assumes inv: "inv e" and ok: "mvcc_ok K (view e)" and K: "keys_ok K" "k \<in> K" and ts: "ts_valid ts"
  shows "MVCCGet ops e k ts opts =
     (case read_conflict k ts opts (meta_of (view e) k) of
        Some err \<Rightarrow> Inl err
      | None \<Rightarrow> found (visible (versions (view e) k) ts))"
proof (cases "view e (EncodeMeta k)")
  case None
  then have z: "meta_of (view e) k = zeroMetadata" by (simp add: meta_of_def meta_at_def)
  then have "versions (view e) k = Map.empty" using newest_zero [OF ok K(2)] by simp
  then show ?thesis using z None ts
    by (simp add: MVCCGet_def Get [OF inv] read_conflict_no_version visible_def found_def)
next
  case (Some b)
  have d: "DecodeMetadata b = Inr (meta_of (view e) k)"
    using mvcc_okD(2) [OF ok K(2)] Some by (simp add: meta_at_def)
  note gv = get_version_visible [OF inv mvcc_okD(1) [OF ok] K ts]
  show ?thesis
    using Some d gv ts ownIntent_eq [of "meta_of (view e) k" "ro_Txn opts"]
    by (auto simp: MVCCGet_def Get [OF inv] read_conflict_def)
qed

lemma MVCCGet_cong:
  assumes "inv e" "mvcc_ok K (view e)" "inv e'" "mvcc_ok K (view e')" "keys_ok K" "k \<in> K" "ts_valid ts"
    and "read_conflict k ts opts (meta_of (view e') k) = read_conflict k ts opts (meta_of (view e) k)"
    and "visible (versions (view e') k) ts = visible (versions (view e) k) ts"
  shows "MVCCGet ops e' k ts opts = MVCCGet ops e k ts opts"
  using assms by (simp add: MVCCGet_view split: option.split)

lemma MVCCGet_unchanged:
  assumes "inv e" "mvcc_ok K (view e)" "inv e'" "mvcc_ok K (view e')" "keys_ok K" "k' \<in> K" "ts_valid ts"
    and "changed K k (view e) vs m (view e')" and "k' \<noteq> k"
  shows "MVCCGet ops e' k' ts opts = MVCCGet ops e k' ts opts"
  using assms changed_meta_of(2) [OF assms(8,6,9)] by (intro MVCCGet_cong [where K = K]) (auto simp: changed_def)

section \<open>Writes\<close>

text \<open>The two writes to the engine at the end of a put, a delete, a commit.\<close>

lemma put_put:
  assumes "inv e"
  shows "\<exists>e'. (case eng_Put ops e x a of (e1, Some err) \<Rightarrow> (e1, Some err) | (e1, None) \<Rightarrow> eng_Put ops e1 y b) = (e', None) \<and>
    inv e' \<and> view e' = (view e)(x \<mapsto> a, y \<mapsto> b)"
proof -
  obtain e1 where e1: "eng_Put ops e x a = (e1, None)" "inv e1" "view e1 = (view e)(x \<mapsto> a)" using Put [OF assms] by blast
  obtain e2 where "eng_Put ops e1 y b = (e2, None)" "inv e2" "view e2 = (view e1)(y \<mapsto> b)" using Put [OF e1(2)] by blast
  with e1 show ?thesis by simp
qed

lemma changed_write:
  assumes "store_ok K V" "keys_ok K" "k \<in> K" "ts_valid ts"
  shows "changed K k V ((versions V k)(ts \<mapsto> raw)) (norm_inline m) (V(enc k ts \<mapsto> raw, EncodeMeta k \<mapsto> metadata_Encode m))"
  using assms by (auto simp: changed_def mvcc_upd DecodeMetadata_Encode simp del: fun_upd_apply)

lemma MVCCPut_view:
  assumes inv: "inv e" and ok: "mvcc_ok K (view e)" and K: "keys_ok K" "k \<in> K" and ts: "ts_valid ts"
  shows "case write_conflict k ts txn (meta_of (view e) k) of
      Some err \<Rightarrow> MVCCPut ops e k ts v txn = (e, Some err)
    | None \<Rightarrow> \<exists>e' m. MVCCPut ops e k ts v txn = (e', None) \<and> inv e' \<and>
        changed K k (view e) ((versions (view e) k)(ts \<mapsto> encodeMVCCValue v)) m (view e') \<and>
        m_Timestamp m = ts \<and> \<not> m_Deleted m \<and> m_Txn m = txn \<and> m_TxnTimestamp m = (if txn \<noteq> None then ts else ts_zero)"
proof (cases "write_conflict k ts txn (meta_of (view e) k)")
  case None
  let ?m = "with_txn txn ts ((meta_of (view e) k)\<lparr>m_Timestamp := ts, m_Deleted := False, m_InlineValue := None,
              m_KeyBytes := of_nat (length k), m_ValBytes := of_nat (length v)\<rparr>)"
  obtain e' where e': "MVCCPut ops e k ts v txn = (e', None)" "inv e'"
      "view e' = (view e)(enc k ts \<mapsto> encodeMVCCValue v, EncodeMeta k \<mapsto> metadata_Encode ?m)"
    using put_put [OF inv, where x = "enc k ts" and a = "encodeMVCCValue v" and y = "EncodeMeta k" and b = "metadata_Encode ?m"] None ts
      mvcc_okD(2) [OF ok K(2)]
    by (auto simp: MVCCPut_def read_meta_eq [OF inv])
  have "changed K k (view e) ((versions (view e) k)(ts \<mapsto> encodeMVCCValue v)) (norm_inline ?m) (view e')"
    unfolding e'(3) by (rule changed_write [OF mvcc_okD(1) [OF ok] K ts])
  with e' None show ?thesis by (auto simp: with_txn_def intro!: exI [of _ e'] exI [of _ "norm_inline ?m"])
qed (use ts mvcc_okD(2) [OF ok K(2)] in \<open>simp add: MVCCPut_def read_meta_eq [OF inv]\<close>)

lemma MVCCDelete_view:
  assumes inv: "inv e" and ok: "mvcc_ok K (view e)" and K: "keys_ok K" "k \<in> K" and ts: "ts_valid ts"
  shows "case write_conflict k ts txn (meta_of (view e) k) of
      Some err \<Rightarrow> MVCCDelete ops e k ts txn = (e, Some err)
    | None \<Rightarrow> \<exists>e' m. MVCCDelete ops e k ts txn = (e', None) \<and> inv e' \<and>
        changed K k (view e) ((versions (view e) k)(ts \<mapsto> encodeMVCCTombstone)) m (view e') \<and>
        m_Timestamp m = ts \<and> m_Deleted m \<and> m_Txn m = txn \<and> m_TxnTimestamp m = (if txn \<noteq> None then ts else ts_zero)"
proof (cases "write_conflict k ts txn (meta_of (view e) k)")
  case None
  let ?m = "with_txn txn ts ((meta_of (view e) k)\<lparr>m_Timestamp := ts, m_Deleted := True,
              m_KeyBytes := of_nat (length k), m_ValBytes := 0\<rparr>)"
  obtain e' where e': "MVCCDelete ops e k ts txn = (e', None)" "inv e'"
      "view e' = (view e)(enc k ts \<mapsto> encodeMVCCTombstone, EncodeMeta k \<mapsto> metadata_Encode ?m)"
    using put_put [OF inv, where x = "enc k ts" and a = encodeMVCCTombstone and y = "EncodeMeta k" and b = "metadata_Encode ?m"] None
      mvcc_okD(2) [OF ok K(2)]
    by (auto simp: MVCCDelete_def read_meta_eq [OF inv])
  have "changed K k (view e) ((versions (view e) k)(ts \<mapsto> encodeMVCCTombstone)) (norm_inline ?m) (view e')"
    unfolding e'(3) by (rule changed_write [OF mvcc_okD(1) [OF ok] K ts])
  with e' None show ?thesis by (auto simp: with_txn_def intro!: exI [of _ e'] exI [of _ "norm_inline ?m"])
qed (use mvcc_okD(2) [OF ok K(2)] in \<open>simp add: MVCCDelete_def read_meta_eq [OF inv]\<close>)

end

text \<open>A write at or above the newest version keeps the invariant and is what later readers see.\<close>

lemma meta_ok_write:
  assumes "meta_ok vs m0" "m_Timestamp m0 \<le> ts" "ts_valid ts" "m_Timestamp m = ts"
    "m_Deleted m \<longleftrightarrow> live_value (Some raw) = None" "HasIntent m \<longrightarrow> m_TxnTimestamp m = ts"
  shows "meta_ok (vs(ts \<mapsto> raw)) m"
  using assms meta_okD(1) [OF assms(1)] by (auto simp: meta_ok_def intro: order_trans)

lemma HasIntent_Txn: "HasIntent m \<longleftrightarrow> m_Txn m \<noteq> None \<and> m_Txn m \<noteq> Some 0"
  by (auto simp: HasIntent_def TxnID_IsZero_def split: option.splits)

section \<open>Intents\<close>

context storage_engine
begin

text \<open>An intent on \<open>k\<close>: its metadata entry and its version.\<close>

lemma intent_entry:
  assumes "mvcc_ok K V" "k \<in> K" "HasIntent (meta_of V k)"
  obtains b raw where "V (EncodeMeta k) = Some b" and "DecodeMetadata b = Inr (meta_of V k)"
    and "m_TxnTimestamp (meta_of V k) = newest V k" and "ts_valid (newest V k)"
    and "V (enc k (newest V k)) = Some raw" and "versions V k (newest V k) = Some raw"
proof -
  have m: "meta_ok (versions V k) (meta_of V k)" and at: "meta_at V k = Inr (meta_of V k)"
    using mvcc_okD assms by blast+
  obtain b where b: "V (EncodeMeta k) = Some b" "DecodeMetadata b = Inr (meta_of V k)"
    using at assms(3) by (cases "V (EncodeMeta k)") (auto simp: meta_at_def)
  have d: "newest V k \<in> dom (versions V k)" by (rule meta_okD(4) [OF m assms(3)])
  then show thesis
    using that b meta_okD(3) [OF m assms(3)] versions_valid [OF d] by (auto simp: versions_def)
qed

lemma findPreviousVersion_view:
  assumes inv: "inv e" and ok: "store_ok K (view e)" and K: "keys_ok K" "k \<in> K" and ts: "ts_valid ts"
    and at: "view e (enc k ts) \<noteq> None"
  defines "vs \<equiv> (versions (view e) k)(ts := None)"
  shows "findPreviousVersion ops e k ts =
    Inr (if upto vs ts = {} then None else Some (Max (upto vs ts), live_value (read_at vs ts) = None))"
proof -
  let ?V = "(view e)(enc k ts := None)"
  have fin: "finite (dom (view e))" "finite (dom ?V)" using view_finite [OF inv] by simp_all
  have vs: "versions ?V k = vs" using versions_upd_version [OF K(1,2,2) ts] by (simp add: vs_def)
  obtain i i1 where i: "eng_NewIterator ops e = Inr i" "it_Seek ops i (enc k ts) = (rest i1 \<noteq> [], i1)" "iok i1"
    "rest i1 = entries (from_key (enc k ts) (view e))"
    by (rule seek_first [OF inv])
  have "entries (from_key (enc k ts) (view e)) = (enc k ts, the (view e (enc k ts))) # entries ((from_key (enc k ts) (view e))(enc k ts := None))"
    using at fin by (auto simp: entries_Cons_iff from_key_apply split: if_splits)
  moreover have "(from_key (enc k ts) (view e))(enc k ts := None) = from_key (enc k ts) ?V"
    by (auto simp: fun_eq_iff from_key_apply)
  ultimately have r1: "rest i1 \<noteq> []" "tl (rest i1) = entries (from_key (enc k ts) ?V)" using i(4) by simp_all
  obtain i2 where i2: "it_Next ops i1 = (rest i2 \<noteq> [], i2)" "iok i2" "rest i2 = entries (from_key (enc k ts) ?V)"
    using Next [OF i(3) r1(1)] r1(2) by auto
  show ?thesis
  proof (cases "rest i2")
    case Nil
    then have "from_key (enc k ts) ?V = Map.empty"
      using i2(3) entries_eq_Nil_iff [of "from_key (enc k ts) ?V"] fin by simp
    from seek_version_none [OF fin(2) this ts] have "read_at vs ts = None" by (simp add: vs)
    then have "upto vs ts = {}" using upto_empty_iff finite_versions [OF fin(2), of k] by (simp add: vs)
    then show ?thesis using i i2 r1 Nil by (simp add: findPreviousVersion_def)
  next
    case (Cons p r)
    obtain x raw where p: "p = (x, raw)" by (cases p)
    have first: "entries (from_key (enc k ts) ?V) = (x, raw) # r" using i2(3) Cons p by simp
    have "x \<in> dom (view e)"
      using first entries_Cons_iff [OF finite_from_key [OF fin(2)]] by (auto simp: from_key_apply split: if_splits)
    then obtain k' where k': "k' \<in> K" "entry_of k' x" using ok by (auto simp: store_ok_def)
    note hit = seek_version_hit [OF fin(2) K k'(1) ts first k'(2), unfolded vs]
    have kv: "it_Key ops i2 = x" "it_Value ops i2 = raw" using Key Value i2(2) Cons p by blast+
    have ne: "upto vs ts = {} \<longleftrightarrow> read_at vs ts = None"
      using upto_empty_iff finite_versions [OF fin(2), of k] by (simp add: vs)
    show ?thesis
    proof (cases "k' = k")
      case True
      then show ?thesis using hit i i2 r1 Cons kv ne
        by (auto simp: findPreviousVersion_def Decode_enc live_value_def split: prod.splits)
    next
      case False
      have "findPreviousVersion ops e k ts = Inr None"
        by (cases rule: Decode_entry [OF keys_ok_key_ok [OF K(1) k'(1)] k'(2)])
          (use i i2 r1 Cons kv False in \<open>simp_all add: findPreviousVersion_def\<close>)
      then show ?thesis using hit False ne by simp
    qed
  qed
qed

lemma resolve_commit_view:
  assumes inv: "inv e" and ok: "mvcc_ok K (view e)" and K: "keys_ok K" "k \<in> K" and c: "ts_valid c"
    and m: "HasIntent (meta_of (view e) k)" "m_Txn (meta_of (view e) k) = Some T"
  shows "\<exists>e' m'. MVCCResolveWriteIntent ops e k T TxnCommitted c = (e', None) \<and> inv e' \<and>
     changed K k (view e) ((versions (view e) k)(newest (view e) k := None, c := versions (view e) k (newest (view e) k))) m' (view e') \<and>
     m_Timestamp m' = c \<and> m_Txn m' = None \<and> m_Deleted m' = m_Deleted (meta_of (view e) k)"
proof -
  let ?t = "newest (view e) k" and ?m = "meta_of (view e) k"
  let ?m' = "?m\<lparr>m_Txn := None, m_TxnTimestamp := ts_zero, m_Timestamp := c\<rparr>"
  obtain b raw where at: "view e (EncodeMeta k) = Some b" "DecodeMetadata b = Inr ?m" "m_TxnTimestamp ?m = ?t"
    "ts_valid ?t" "view e (enc k ?t) = Some raw" "versions (view e) k ?t = Some raw"
    by (rule intent_entry [OF ok K(2) m(1)])
  let ?V = "if ?t = c then view e else (view e)(enc k c \<mapsto> raw, enc k ?t := None)"
  have "\<exists>e1. inv e1 \<and> view e1 = ?V \<and> MVCCResolveWriteIntent ops e k T TxnCommitted c = eng_Put ops e1 (EncodeMeta k) (metadata_Encode ?m')"
  proof (cases "?t = c")
    case True
    then show ?thesis using inv m at by (auto simp: MVCCResolveWriteIntent_def resolveCommit_def Get [OF inv])
  next
    case False
    obtain e1 where e1: "eng_Put ops e (enc k c) raw = (e1, None)" "inv e1" "view e1 = (view e)(enc k c \<mapsto> raw)"
      using Put [OF inv] by blast
    obtain e2 where "eng_Delete ops e1 (enc k ?t) = (e2, None)" "inv e2" "view e2 = (view e1)(enc k ?t := None)"
      using Delete [OF e1(2)] by blast
    then show ?thesis using e1 m at False
      by (auto simp: MVCCResolveWriteIntent_def resolveCommit_def Get [OF inv])
  qed
  then obtain e1 where e1: "inv e1" "view e1 = ?V"
    "MVCCResolveWriteIntent ops e k T TxnCommitted c = eng_Put ops e1 (EncodeMeta k) (metadata_Encode ?m')" by blast
  obtain e' where e': "eng_Put ops e1 (EncodeMeta k) (metadata_Encode ?m') = (e', None)" "inv e'"
    "view e' = ?V(EncodeMeta k \<mapsto> metadata_Encode ?m')"
    using Put [OF e1(1)] unfolding e1(2) by blast
  have "(versions (view e) k)(?t \<mapsto> raw) = versions (view e) k" using at(6) by (simp add: fun_upd_idem)
  then have "changed K k (view e) ((versions (view e) k)(?t := None, c := versions (view e) k ?t)) (norm_inline ?m') (view e')"
    unfolding e'(3) using mvcc_okD(1) [OF ok] K c at
    by (auto simp: changed_def mvcc_upd DecodeMetadata_Encode fun_upd_twist simp del: fun_upd_apply)
  then show ?thesis using e1 e' by (auto intro!: exI [of _ "norm_inline ?m'"])
qed

lemma resolve_abort_view:
  assumes inv: "inv e" and ok: "mvcc_ok K (view e)" and K: "keys_ok K" "k \<in> K"
    and m: "HasIntent (meta_of (view e) k)" "m_Txn (meta_of (view e) k) = Some T"
  shows "\<exists>e' m'. MVCCResolveWriteIntent ops e k T TxnAborted c = (e', None) \<and> inv e' \<and>
     changed K k (view e) ((versions (view e) k)(newest (view e) k := None)) m' (view e') \<and>
     m_Txn m' = None \<and> meta_ok ((versions (view e) k)(newest (view e) k := None)) m'"
proof -
  let ?t = "newest (view e) k" and ?m = "meta_of (view e) k"
  let ?vs = "(versions (view e) k)(?t := None)"
  obtain b raw where at: "view e (EncodeMeta k) = Some b" "DecodeMetadata b = Inr ?m" "m_TxnTimestamp ?m = ?t"
    "ts_valid ?t" "view e (enc k ?t) = Some raw" "versions (view e) k ?t = Some raw"
    by (rule intent_entry [OF ok K(2) m(1)])
  have le: "u \<le> ?t" if "u \<in> dom ?vs" for u
    using that meta_okD(1) [OF mvcc_okD(3) [OF ok K(2)]] by (auto split: if_splits)
  then have up: "upto ?vs ?t = dom ?vs" by (auto simp: upto_def)
  have fin: "finite (dom ?vs)" using finite_versions [OF view_finite [OF inv]] by simp
  obtain e1 where e1: "eng_Delete ops e (enc k ?t) = (e1, None)" "inv e1" "view e1 = (view e)(enc k ?t := None)"
    using Delete [OF inv] by blast
  note fp = findPreviousVersion_view [OF inv mvcc_okD(1) [OF ok] K at(4)]
  show ?thesis
  proof (cases "dom ?vs = {}")
    case True
    obtain e' where e': "eng_Delete ops e1 (EncodeMeta k) = (e', None)" "inv e'" "view e' = (view e1)(EncodeMeta k := None)"
      using Delete [OF e1(2)] by blast
    have "changed K k (view e) ?vs zeroMetadata (view e')"
      unfolding e'(3) e1(3) using mvcc_okD(1) [OF ok] K at(4)
      by (auto simp: changed_def mvcc_upd simp del: fun_upd_apply)
    moreover have "meta_ok ?vs zeroMetadata" using True by (simp add: meta_ok_def del: dom_fun_upd)
    moreover have "MVCCResolveWriteIntent ops e k T TxnAborted c = (e', None)"
      using fp e1 e' at m True up by (simp add: MVCCResolveWriteIntent_def resolveAbort_def Get [OF inv])
    ultimately show ?thesis using e'(2) by (auto simp: zeroMetadata_def intro!: exI [of _ zeroMetadata])
  next
    case False
    let ?m' = "zeroMetadata\<lparr>m_Timestamp := Max (dom ?vs), m_Deleted := live_value (read_at ?vs ?t) = None, m_KeyBytes := of_nat (length k)\<rparr>"
    obtain e' where e': "eng_Put ops e1 (EncodeMeta k) (metadata_Encode ?m') = (e', None)" "inv e'"
      "view e' = (view e1)(EncodeMeta k \<mapsto> metadata_Encode ?m')"
      using Put [OF e1(2)] by blast
    have "changed K k (view e) ?vs (norm_inline ?m') (view e')"
      unfolding e'(3) e1(3) using mvcc_okD(1) [OF ok] K at(4)
      by (auto simp: changed_def mvcc_upd DecodeMetadata_Encode simp del: fun_upd_apply)
    moreover have "meta_ok ?vs (norm_inline ?m')"
      using False Max_in [OF fin] Max_ge [OF fin] up
      by (simp add: meta_ok_def HasIntent_Txn zeroMetadata_def read_at_def del: fun_upd_apply)
    moreover have "MVCCResolveWriteIntent ops e k T TxnAborted c = (e', None)"
      using fp e1 e' at m False up by (simp add: MVCCResolveWriteIntent_def resolveAbort_def Get [OF inv])
    ultimately show ?thesis using e'(2) by (auto simp: zeroMetadata_def intro!: exI [of _ "norm_inline ?m'"])
  qed
qed

lemma push_view:
  assumes inv: "inv e" and ok: "mvcc_ok K (view e)" and K: "keys_ok K" "k \<in> K" and n: "ts_valid n" "newest (view e) k < n"
    and m: "HasIntent (meta_of (view e) k)" "m_Txn (meta_of (view e) k) = Some T"
  shows "\<exists>e' m'. MVCCPushIntent ops e k T n = (e', None) \<and> inv e' \<and>
     changed K k (view e) ((versions (view e) k)(newest (view e) k := None, n := versions (view e) k (newest (view e) k))) m' (view e') \<and>
     m_Timestamp m' = n \<and> m_TxnTimestamp m' = n \<and> m_Txn m' = Some T \<and> m_Deleted m' = m_Deleted (meta_of (view e) k)"
proof -
  let ?t = "newest (view e) k" and ?m = "meta_of (view e) k"
  let ?m' = "?m\<lparr>m_Timestamp := n, m_TxnTimestamp := n\<rparr>"
  obtain b raw where at: "view e (EncodeMeta k) = Some b" "DecodeMetadata b = Inr ?m" "m_TxnTimestamp ?m = ?t"
    "ts_valid ?t" "view e (enc k ?t) = Some raw" "versions (view e) k ?t = Some raw"
    by (rule intent_entry [OF ok K(2) m(1)])
  obtain e1 where e1: "eng_Put ops e (enc k n) raw = (e1, None)" "inv e1" "view e1 = (view e)(enc k n \<mapsto> raw)"
    using Put [OF inv] by blast
  obtain e2 where e2: "eng_Delete ops e1 (enc k ?t) = (e2, None)" "inv e2" "view e2 = (view e1)(enc k ?t := None)"
    using Delete [OF e1(2)] by blast
  obtain e' where e': "eng_Put ops e2 (EncodeMeta k) (metadata_Encode ?m') = (e', None)" "inv e'"
    "view e' = (view e2)(EncodeMeta k \<mapsto> metadata_Encode ?m')"
    using Put [OF e2(2)] by blast
  have "changed K k (view e) ((versions (view e) k)(?t := None, n := versions (view e) k ?t)) (norm_inline ?m') (view e')"
    unfolding e'(3) e2(3) e1(3) using mvcc_okD(1) [OF ok] K n at
    by (auto simp: changed_def mvcc_upd DecodeMetadata_Encode fun_upd_twist simp del: fun_upd_apply)
  moreover have "MVCCPushIntent ops e k T n = (e', None)"
    using e1 e2 e' at m n by (auto simp: MVCCPushIntent_def Get [OF inv])
  ultimately show ?thesis using e'(2) m by (auto intro!: exI [of _ "norm_inline ?m'"])
qed

end

end
