(* ===== verification/Mvcc_Scan.thy ===== *)
theory Mvcc_Scan
  imports Mvcc_Writes
begin

text \<open>
  The two loops over the whole key space: \<open>MVCCScan\<close> equals one \<open>MVCCGet\<close> per stored key, and
  \<open>MVCCGarbageCollect\<close> applies its rules to every stored key. Both walk the metadata entries of
  an iterator and skip the versions in between.
\<close>

section \<open>The stored keys\<close>

fun metas :: "(bytes \<times> bytes) list \<Rightarrow> bytes list" where
  "metas [] = []"
| "metas ((x, v) # r) =
     (case mvcc_Decode x of
        Inr (mk, versioned) \<Rightarrow> if versioned then metas r else mk_Key mk # metas r
      | Inl err \<Rightarrow> metas r)"

definition stored_keys :: "bytes set \<Rightarrow> (bytes \<rightharpoonup> bytes) \<Rightarrow> bytes list" where
  "stored_keys K V = sorted_list_of_set {k \<in> K. EncodeMeta k \<in> dom V}"

lemma EncodeMeta_less: "EncodeMeta k < EncodeMeta k' \<longleftrightarrow> k < k'"
proof -
  have mono: "a @ [0] < b @ [0 :: byte]" if "a < b" for a b
    using that
  proof (induction a arbitrary: b)
    case Nil
    then show ?case using less_append [of _ "[]"] by (cases b) (auto simp: word_gt_0)
  next
    case (Cons x a)
    then show ?case by (cases b) auto
  qed
  show ?thesis
    by (cases k k' rule: linorder_cases) (use mono [of k k'] mono [of k' k] in \<open>simp_all add: EncodeMeta_def less_not_sym\<close>)
qed

lemma EncodeMeta_le: "EncodeMeta k \<le> EncodeMeta k' \<longleftrightarrow> k \<le> k'"
  using EncodeMeta_less [of k' k] by (simp add: not_less [symmetric])

definition all_entries :: "bytes set \<Rightarrow> (bytes \<times> bytes) list \<Rightarrow> bool" where
  "all_entries K r \<longleftrightarrow> (\<forall>p \<in> set r. \<exists>k \<in> K. entry_of k (fst p))"

lemma all_entries_entries: "finite (dom V) \<Longrightarrow> store_ok K V \<Longrightarrow> all_entries K (entries V)"
  by (auto simp: all_entries_def store_ok_def set_entries)

lemma metas_append: "metas (xs @ ys) = metas xs @ metas ys"
  by (induction xs rule: metas.induct) (auto split: sum.splits prod.splits)

lemma set_metas:
  assumes "all_entries K r" "keys_ok K"
  shows "set (metas r) = {k \<in> K. EncodeMeta k \<in> fst ` set r}"
  using assms(1)
proof (induction r)
  case (Cons p r)
  obtain x v where p: "p = (x, v)" by (cases p)
  have IH: "set (metas r) = {k \<in> K. EncodeMeta k \<in> fst ` set r}" using Cons by (simp add: all_entries_def)
  obtain k where k: "k \<in> K" "entry_of k x" using Cons by (auto simp: all_entries_def p)
  show ?case
  proof (cases rule: Decode_entry [OF keys_ok_key_ok [OF assms(2) k(1)] k(2)])
    case 1
    then show ?thesis using IH k by (auto simp: p EncodeMeta_def)
  next
    case (2 t)
    then have "x \<noteq> EncodeMeta k'" if "k' \<in> K" for k'
      using entry_of_unique [OF assms(2) k(1) that k(2)] meta_less_enc [OF 2(1), of k] entry_of_meta [of k'] by fastforce
    then have "{k' \<in> K. EncodeMeta k' = x} = {}" by auto
    then show ?thesis using IH 2 by (auto simp: p)
  qed
qed simp

lemma sorted_metas:
  assumes "all_entries K r" "keys_ok K" "sorted_wrt (<) (map fst r)"
  shows "sorted_wrt (<) (metas r)"
  using assms(1,3)
proof (induction r)
  case (Cons p r)
  obtain x v where p: "p = (x, v)" by (cases p)
  have ae: "all_entries K r" using Cons by (simp add: all_entries_def)
  have IH: "sorted_wrt (<) (metas r)" using Cons ae by simp
  obtain k where k: "k \<in> K" "entry_of k x" using Cons by (auto simp: all_entries_def p)
  show ?case
  proof (cases rule: Decode_entry [OF keys_ok_key_ok [OF assms(2) k(1)] k(2)])
    case 1
    have "k < k'" if "k' \<in> set (metas r)" for k'
    proof -
      have "EncodeMeta k < EncodeMeta k'" using that set_metas [OF ae assms(2)] Cons.prems 1 by (auto simp: p)
      then show ?thesis by (simp add: EncodeMeta_less)
    qed
    then show ?thesis using IH 1 by (simp add: p)
  qed (use IH in \<open>simp add: p\<close>)
qed simp

lemma metas_entries:
  assumes "finite (dom V)" "store_ok K V" "keys_ok K"
  shows "metas (entries V) = stored_keys K V"
proof -
  note ae = all_entries_entries [OF assms(1,2)]
  have "fst ` set (entries V) = dom V" using assms(1) by (force simp: set_entries)
  then have "set (metas (entries V)) = {k \<in> K. EncodeMeta k \<in> dom V}" using set_metas [OF ae assms(3)] by simp
  moreover have "sorted_wrt (<) (metas (entries V))" by (rule sorted_metas [OF ae assms(3) sorted_wrt_entries])
  ultimately show ?thesis
    using sorted_list_of_set.idem_if_sorted_distinct [of "metas (entries V)"]
    by (auto simp: stored_keys_def strict_sorted_iff)
qed

section \<open>Walking the metadata\<close>

definition suffix_at :: "(bytes \<times> bytes) list \<Rightarrow> (bytes \<times> bytes) list \<Rightarrow> bool" where
  "suffix_at w r \<longleftrightarrow> (\<exists>pre. w = pre @ r)"

lemma suffix_at_dropWhile [simp]: "suffix_at w (dropWhile P w)"
  unfolding suffix_at_def by (rule exI [of _ "takeWhile P w"]) simp

text \<open>Seeking past a metadata entry skips no other metadata.\<close>

lemma seek_next_key:
  assumes K: "keys_ok K" "k \<in> K" and ae: "all_entries K w" and so: "sorted_wrt (<) (map fst w)"
    and sx: "suffix_at w ((EncodeMeta k, v) # r)"
  defines "S \<equiv> EncodeMeta (nextKeyPrefix k)"
  shows "metas (dropWhile (\<lambda>p. fst p < S) w) = metas r" and "length (dropWhile (\<lambda>p. fst p < S) w) \<le> length r"
proof -
  have S: "S = EncodeMeta k @ [0]" by (simp add: S_def nextKeyPrefix_def EncodeMeta_def)
  have kS: "EncodeMeta k < S" unfolding S by (rule less_append) simp
  obtain pre where w: "w = pre @ (EncodeMeta k, v) # r" using sx by (auto simp: suffix_at_def)
  have lt: "fst p < S" if "p \<in> set (pre @ [(EncodeMeta k, v)])" for p
    using that so kS by (auto simp: w sorted_wrt_append intro: less_trans)
  have dw: "dropWhile (\<lambda>p. fst p < S) w = dropWhile (\<lambda>p. fst p < S) r"
    using lt dropWhile_append2 [of "pre @ [(EncodeMeta k, v)]" "\<lambda>p. fst p < S" r] by (auto simp: w)
  show "length (dropWhile (\<lambda>p. fst p < S) w) \<le> length r" unfolding dw by (rule length_dropWhile_le)
  let ?t = "takeWhile (\<lambda>p. fst p < S) r"
  have aer: "all_entries K r" "all_entries K ?t"
    using ae by (auto simp: all_entries_def w dest: set_takeWhileD)
  have "k' \<notin> set (metas ?t)" for k'
  proof
    assume "k' \<in> set (metas ?t)"
    then have k': "k' \<in> K" "EncodeMeta k' \<in> fst ` set ?t" using set_metas [OF aer(2) K(1)] by auto
    then have "EncodeMeta k' < S" "EncodeMeta k < EncodeMeta k'"
      using so by (auto simp: w sorted_wrt_append dest!: set_takeWhileD)
    then have "\<exists>s. EncodeMeta k' = EncodeMeta k @ s"
      by (intro interval_prefix [of "EncodeMeta k" "[]" "EncodeMeta k'" "[0]"]) (simp_all add: S less_imp_le)
    then obtain s where "EncodeMeta k' = EncodeMeta k @ s" ..
    then have "k = k'" using keys_ok_prefix [OF K k'(1), of s "[]"] by simp
    then show False using \<open>EncodeMeta k < EncodeMeta k'\<close> by simp
  qed
  then have "metas ?t = []" by (metis all_not_in_conv set_empty)
  then show "metas (dropWhile (\<lambda>p. fst p < S) w) = metas r"
    using metas_append [of ?t "dropWhile (\<lambda>p. fst p < S) r"] by (simp add: dw)
qed

section \<open>Scans\<close>

fun scan_gets :: "(bytes \<Rightarrow> bytes result) \<Rightarrow> bytes list \<Rightarrow> keyValue list result" where
  "scan_gets get [] = Inr []"
| "scan_gets get (k # ks) =
     (case get k of
        Inr v \<Rightarrow> map_sum id (Cons (k, v)) (scan_gets get ks)
      | Inl err \<Rightarrow> if errors_Is err ErrKeyNotFound then scan_gets get ks else Inl err)"

lemma map_sum_snoc [simp]: "map_sum id ((@) results) (map_sum id (Cons x) s) = map_sum id ((@) (results @ [x])) s"
  by (cases s) simp_all

lemma map_sum_append_Nil [simp]: "map_sum id ((@) []) s = s"
  by (cases s) simp_all

definition below :: "bytes option \<Rightarrow> bytes \<Rightarrow> bool" where
  "below endk k \<longleftrightarrow> (case endk of None \<Rightarrow> True | Some x \<Rightarrow> k < x)"

context storage_engine
begin

text \<open>An iterator over the entries of a store \<open>V\<close>, somewhere inside it.\<close>

definition at_store :: "bytes set \<Rightarrow> (bytes \<rightharpoonup> bytes) \<Rightarrow> 'i \<Rightarrow> bool" where
  "at_store K V i \<longleftrightarrow> iok i \<and> finite (dom V) \<and> store_ok K V \<and> keys_ok K \<and> whole i = entries V \<and> suffix_at (whole i) (rest i)"

lemma at_store_entries:
  assumes "at_store K V i"
  shows "all_entries K (whole i)" "all_entries K (rest i)" "sorted_wrt (<) (map fst (whole i))" "sorted_wrt (<) (map fst (rest i))"
proof -
  obtain pre where w: "whole i = pre @ rest i" using assms unfolding at_store_def suffix_at_def by blast
  show ae: "all_entries K (whole i)" and so: "sorted_wrt (<) (map fst (whole i))"
    using assms all_entries_entries [of V K] sorted_wrt_entries [of V] by (simp_all add: at_store_def)
  show "all_entries K (rest i)" "sorted_wrt (<) (map fst (rest i))"
    using ae so by (auto simp: w all_entries_def sorted_wrt_append)
qed

lemma at_store_head:
  assumes "at_store K V i" "rest i = p # r"
  obtains (meta) k v where "k \<in> K" and "p = (EncodeMeta k, v)" and "it_Key ops i = EncodeMeta k" and "it_Value ops i = v"
      and "mvcc_Decode (EncodeMeta k) = Inr (\<lparr>mk_Key = k, mk_Timestamp = ts_zero\<rparr>, False)" and "metas (rest i) = k # metas r"
  | (version) k t v where "k \<in> K" and "ts_valid t" and "p = (enc k t, v)" and "it_Key ops i = enc k t" and "it_Value ops i = v"
      and "mvcc_Decode (enc k t) = Inr (\<lparr>mk_Key = k, mk_Timestamp = t\<rparr>, True)" and "metas (rest i) = metas r"
proof -
  obtain x v where p: "p = (x, v)" by (cases p)
  have "all_entries K (rest i)" by (rule at_store_entries [OF assms(1)])
  then obtain k where k: "k \<in> K" "entry_of k x" using assms(2) p by (auto simp: all_entries_def)
  have kv: "it_Key ops i = x" "it_Value ops i = v" using assms Key Value p by (auto simp: at_store_def)
  have ko: "key_ok k" using keys_ok_key_ok assms(1) k(1) by (auto simp: at_store_def)
  show thesis
    by (cases rule: Decode_entry [OF ko k(2)]) (use k kv p assms(2) meta version in auto)
qed

lemma at_store_Next:
  assumes "at_store K V i" "rest i = p # r"
  shows "at_store K V (snd (it_Next ops i))" and "rest (snd (it_Next ops i)) = r" and "fst (it_Next ops i) \<longleftrightarrow> r \<noteq> []"
proof -
  obtain i' where i': "it_Next ops i = (rest i' \<noteq> [], i')" "iok i'" "whole i' = whole i" "rest i' = tl (rest i)"
    using Next [of i] assms by (auto simp: at_store_def)
  obtain pre where "whole i = pre @ rest i" using assms unfolding at_store_def suffix_at_def by blast
  then have "whole i' = (pre @ [p]) @ rest i'" using i' assms(2) by simp
  then have "suffix_at (whole i') (rest i')" unfolding suffix_at_def by blast
  then show "at_store K V (snd (it_Next ops i))" using assms i' by (simp add: at_store_def)
  show "rest (snd (it_Next ops i)) = r" "fst (it_Next ops i) \<longleftrightarrow> r \<noteq> []" using i' assms(2) by auto
qed

lemma at_store_Seek_next:
  assumes at: "at_store K V i" and r: "rest i = (EncodeMeta k, v) # r" and k: "k \<in> K"
  obtains i' where "it_Seek ops i (EncodeMeta (nextKeyPrefix k)) = (rest i' \<noteq> [], i')" and "at_store K V i'"
    and "metas (rest i') = metas r" and "length (rest i') < length (rest i)"
proof -
  obtain i' where i': "it_Seek ops i (EncodeMeta (nextKeyPrefix k)) = (rest i' \<noteq> [], i')" "iok i'" "whole i' = whole i"
    "rest i' = dropWhile (\<lambda>p. fst p < EncodeMeta (nextKeyPrefix k)) (whole i)"
    using Seek at unfolding at_store_def by blast
  have sx: "suffix_at (whole i) ((EncodeMeta k, v) # r)" and K: "keys_ok K" using at r by (auto simp: at_store_def)
  note nk = seek_next_key [OF K k at_store_entries(1,3) [OF at] sx]
  show thesis
  proof (rule that [OF i'(1)])
    show "at_store K V i'" using at i' by (simp add: at_store_def)
    show "metas (rest i') = metas r" "length (rest i') < length (rest i)" using nk i'(4) r by auto
  qed
qed

lemma at_store_Seek:
  assumes "inv e" "store_ok K (view e)" "keys_ok K"
  obtains i i' where "eng_NewIterator ops e = Inr i" and "it_Seek ops i x = (rest i' \<noteq> [], i')" and "at_store K (view e) i'"
    and "rest i' = dropWhile (\<lambda>p. fst p < x) (entries (view e))"
proof -
  obtain i i' where i: "eng_NewIterator ops e = Inr i" "it_Seek ops i x = (rest i' \<noteq> [], i')" "iok i'"
    "rest i' = entries (from_key x (view e))" "whole i' = entries (view e)"
    by (rule seek_first [OF assms(1)])
  moreover have r: "rest i' = dropWhile (\<lambda>p. fst p < x) (entries (view e))"
    using i(4) dropWhile_entries [OF view_finite [OF assms(1)]] by simp
  moreover have "at_store K (view e) i'"
    using assms view_finite [OF assms(1)] i(3,5) by (simp add: at_store_def r)
  ultimately show thesis using that by blast
qed

lemma scan_loop_eq:
  assumes "at_store K V i"
  shows "scan_loop ops e endk ts opts i results =
    Some (map_sum id ((@) results) (scan_gets (\<lambda>k. MVCCGet ops e k ts opts) (takeWhile (below endk) (metas (rest i)))))"
  using assms
proof (induction "length (rest i)" arbitrary: i results rule: less_induct)
  case less
  have v: "it_Valid ops i \<longleftrightarrow> rest i \<noteq> []" using less.prems Valid by (simp add: at_store_def)
  show ?case
  proof (cases "rest i")
    case Nil
    then show ?thesis using v by (subst scan_loop.simps) simp
  next
    case (Cons p r)
    show ?thesis
    proof (cases rule: at_store_head [OF less.prems Cons])
      case (2 k t w)
      note nx = at_store_Next [OF less.prems Cons]
      have "scan_loop ops e endk ts opts i results = scan_loop ops e endk ts opts (snd (it_Next ops i)) results"
        using v Cons 2 by (subst scan_loop.simps) simp
      then show ?thesis using less.hyps [OF _ nx(1), of results] nx(2) Cons 2 by simp
    next
      case (1 k w)
      obtain i' where i': "it_Seek ops i (EncodeMeta (nextKeyPrefix k)) = (rest i' \<noteq> [], i')" "at_store K V i'"
        "metas (rest i') = metas r" "length (rest i') < length (rest i)"
        by (rule at_store_Seek_next [OF less.prems _ 1(1)]) (use Cons 1 in auto)
      have go: "(case it_Seek ops i (EncodeMeta (nextKeyPrefix k)) of
            (ok, iter') \<Rightarrow> if \<not> ok then Some (Inr xs) else scan_loop ops e endk ts opts iter' xs) =
          Some (map_sum id ((@) xs) (scan_gets (\<lambda>k. MVCCGet ops e k ts opts) (takeWhile (below endk) (metas r))))" for xs
        using i' less.hyps [OF i'(4,2), of xs] by (cases "rest i'") auto
      show ?thesis
      proof (cases "below endk k")
        case True
        then show ?thesis using v Cons 1 go
          by (subst scan_loop.simps)
            (auto simp: below_def split: sum.splits option.splits)
      next
        case False
        then show ?thesis using v Cons 1
          by (subst scan_loop.simps) (auto simp: below_def split: option.splits)
      qed
    qed
  qed
qed

lemma MVCCScan_eq:
  assumes "inv e" "store_ok K (view e)" "keys_ok K"
  shows "MVCCScan ops e start endk ts opts =
    Some (scan_gets (\<lambda>k. MVCCGet ops e k ts opts) (filter (\<lambda>k. start \<le> k \<and> below endk k) (stored_keys K (view e))))"
proof -
  obtain i i' where i: "eng_NewIterator ops e = Inr i" "it_Seek ops i (EncodeMeta start) = (rest i' \<noteq> [], i')"
    "at_store K (view e) i'" "rest i' = dropWhile (\<lambda>p. fst p < EncodeMeta start) (entries (view e))"
    by (rule at_store_Seek [OF assms])
  note at = at_store_entries(2,4) [OF i(3)]
  have fin: "finite (dom (view e))" by (rule view_finite [OF assms(1)])
  have "metas (rest i') = filter (\<lambda>k. start \<le> k) (stored_keys K (view e))"
  proof (rule strict_sorted_equal)
    show "sorted_wrt (<) (metas (rest i'))" by (rule sorted_metas [OF at(1) assms(3) at(2)])
    have sk: "sorted_wrt (<) (stored_keys K (view e))"
      unfolding stored_keys_def by (rule strict_sorted_list_of_set)
    then show "sorted_wrt (<) (filter ((\<le>) start) (stored_keys K (view e)))" by (rule sorted_wrt_filter)
    have "fst ` set (rest i') = {x \<in> dom (view e). EncodeMeta start \<le> x}"
      using fin by (force simp: i(4) dropWhile_entries set_entries from_key_apply split: if_splits)
    then have "set (metas (rest i')) = {k \<in> K. EncodeMeta k \<in> dom (view e) \<and> start \<le> k}"
      using set_metas [OF at(1) assms(3)] by (auto simp: EncodeMeta_le)
    moreover have "set (stored_keys K (view e)) = {k \<in> K. EncodeMeta k \<in> dom (view e)}"
      using metas_entries [OF fin assms(2,3)] set_metas [OF all_entries_entries [OF fin assms(2)] assms(3)] fin
      by (force simp: set_entries)
    ultimately show "set (metas (rest i')) = set (filter ((\<le>) start) (stored_keys K (view e)))" by auto
  qed
  moreover have "takeWhile (below endk) xs = filter (below endk) xs" if "sorted_wrt (<) xs" for xs
    using that
  proof (induction xs)
    case (Cons x xs)
    have "filter (below endk) xs = []" if "\<not> below endk x"
      using Cons.prems that by (auto simp: below_def filter_empty_conv split: option.splits)
    then show ?case using Cons by simp
  qed simp
  moreover have "sorted_wrt (<) (metas (rest i'))" by (rule sorted_metas [OF at(1) assms(3) at(2)])
  ultimately have tw: "takeWhile (below endk) (metas (rest i')) = filter (\<lambda>k. start \<le> k \<and> below endk k) (stored_keys K (view e))"
    by (simp add: conj_commute)
  show ?thesis
    using i(1,2) scan_loop_eq [OF i(3), of e endk ts opts "[]"]
    by (cases "rest i' = []") (simp_all add: MVCCScan_def tw [symmetric])
qed

end

section \<open>Garbage collection\<close>

text \<open>The entries of one key from an iterator's position on.\<close>

fun run_of :: "bytes \<Rightarrow> (bytes \<times> bytes) list \<Rightarrow> versionInfo list" where
  "run_of k [] = []"
| "run_of k ((x, v) # r) =
     (case mvcc_Decode x of
        Inr (mk, versioned) \<Rightarrow>
          if versioned \<and> mk_Key mk = k then (mk_Timestamp mk, snd (decodeMVCCValue v)) # run_of k r else []
      | Inl err \<Rightarrow> [])"

lemma run_of_spec:
  assumes "all_entries K r" "keys_ok K" "k \<in> K" "sorted_wrt (<) (map fst r)" "\<forall>p \<in> set r. EncodeMeta k < fst p"
  shows "set (run_of k r) = {(t, live_value (Some v) = None) | t v. ts_valid t \<and> (enc k t, v) \<in> set r} \<and>
    sorted_wrt (>) (map fst (run_of k r))"
  using assms(1,4,5)
proof (induction r)
  case (Cons p r)
  obtain x v where p: "p = (x, v)" by (cases p)
  have IH: "set (run_of k r) = {(t, live_value (Some v) = None) | t v. ts_valid t \<and> (enc k t, v) \<in> set r}"
    "sorted_wrt (>) (map fst (run_of k r))" using Cons by (simp_all add: all_entries_def)
  obtain k' where k': "k' \<in> K" "entry_of k' x" using Cons.prems(1) by (auto simp: all_entries_def p)
  have gt: "EncodeMeta k < x" using Cons.prems(3) by (simp add: p)
  show ?case
  proof (cases "k' = k")
    case True
    then obtain t where t: "ts_valid t" "x = enc k t" using k'(2) gt by (auto simp: entry_of_def)
    have tomb: "snd (decodeMVCCValue v) \<longleftrightarrow> live_value (Some v) = None" by (simp add: live_value_def split: prod.splits)
    have "u < t" if ub: "(u, b) \<in> set (run_of k r)" for u b
    proof -
      obtain w where u: "ts_valid u" "(enc k u, w) \<in> set r" using ub unfolding IH(1) by blast
      then have "enc k t < enc k u" using Cons.prems(2) by (force simp: p t)
      then show ?thesis using enc_less [of t u k] t u by (simp add: ts_valid_def)
    qed
    then show ?thesis using IH t tomb by (auto simp: p Decode_enc enc_inj)
  next
    case False
    have "(enc k t, w) \<notin> set (p # r)" if "ts_valid t" for t w
    proof
      assume "(enc k t, w) \<in> set (p # r)"
      then have "x \<le> enc k t" using Cons.prems(2) by (auto simp: p less_imp_le)
      then have "\<exists>s. x = EncodeMeta k @ s"
        using interval_prefix [of "EncodeMeta k" "[]" x "encodeTimestampDesc t"] gt by (simp add: enc_prefix that)
      then show False using entry_of_prefix_unique [OF assms(2,3) k'(1)] k'(2) False by auto
    qed
    moreover have "run_of k (p # r) = []"
      by (cases rule: Decode_entry [OF keys_ok_key_ok [OF assms(2) k'(1)] k'(2)]) (use False in \<open>simp_all add: p\<close>)
    ultimately show ?thesis by auto
  qed
qed simp

definition dead :: "timestamp \<Rightarrow> (timestamp \<rightharpoonup> bytes) \<Rightarrow> bool" where
  "dead thr vs \<longleftrightarrow> dom vs \<noteq> {} \<and> live_value (vs (Max (dom vs))) = None \<and> Max (dom vs) \<le> thr"

definition gc_versions :: "timestamp \<Rightarrow> (timestamp \<rightharpoonup> bytes) \<Rightarrow> (timestamp \<rightharpoonup> bytes)" where
  "gc_versions thr vs = (if dead thr vs then Map.empty else vs |` {t. thr < t \<or> t = Max (dom vs)})"

context storage_engine
begin

lemma collect_loop_eq:
  assumes "at_store K V i"
  shows "collect_loop ops k i acc = Some (acc @ run_of k (rest i))"
  using assms
proof (induction "length (rest i)" arbitrary: i acc rule: less_induct)
  case less
  have v: "it_Valid ops i \<longleftrightarrow> rest i \<noteq> []" using less.prems Valid by (simp add: at_store_def)
  show ?case
  proof (cases "rest i")
    case Nil
    then show ?thesis using v by (subst collect_loop.simps) simp
  next
    case (Cons p r)
    note nx = at_store_Next [OF less.prems Cons]
    show ?thesis
    proof (cases rule: at_store_head [OF less.prems Cons])
      case 1
      then show ?thesis using v Cons by (subst collect_loop.simps) simp
    next
      case (2 k' t w)
      then show ?thesis using v Cons less.hyps [OF _ nx(1)] nx(2) by (subst collect_loop.simps) simp
    qed
  qed
qed

lemma collectVersions_eq:
  assumes "inv e" "store_ok K (view e)" "keys_ok K" "k \<in> K" "EncodeMeta k \<in> dom (view e)"
  obtains L where "collectVersions ops e k = Some (Inr L)" and "sorted_wrt (>) (map fst L)"
    and "set L = {(t, live_value (versions (view e) k t) = None) | t. t \<in> dom (versions (view e) k)}"
proof -
  let ?V = "view e"
  have fin: "finite (dom ?V)" by (rule view_finite [OF assms(1)])
  obtain i i' where i: "eng_NewIterator ops e = Inr i" "it_Seek ops i (EncodeMeta k) = (rest i' \<noteq> [], i')"
    "at_store K ?V i'" "rest i' = dropWhile (\<lambda>p. fst p < EncodeMeta k) (entries ?V)"
    by (rule at_store_Seek [OF assms(1-3)])
  have "entries (from_key (EncodeMeta k) ?V) = (EncodeMeta k, the (?V (EncodeMeta k))) # entries ((from_key (EncodeMeta k) ?V)(EncodeMeta k := None))"
    using assms(5) fin by (auto simp: entries_Cons_iff from_key_apply split: if_splits)
  then obtain r where r: "rest i' = (EncodeMeta k, the (?V (EncodeMeta k))) # r"
    "r = entries ((from_key (EncodeMeta k) ?V)(EncodeMeta k := None))"
    using i(4) fin by (simp add: dropWhile_entries)
  note nx = at_store_Next [OF i(3) r(1)]
  have ae: "all_entries K r" "sorted_wrt (<) (map fst r)" using at_store_entries(2,4) [OF nx(1)] nx(2) by simp_all
  have st: "(x, v) \<in> set r \<longleftrightarrow> ?V x = Some v \<and> EncodeMeta k < x" for x v
    using fin by (auto simp: r(2) set_entries from_key_apply split: if_splits)
  have "\<forall>p \<in> set r. EncodeMeta k < fst p" using st by auto
  note ro = run_of_spec [OF ae(1) assms(3,4) ae(2) this]
  show thesis
  proof
    show "collectVersions ops e k = Some (Inr (run_of k r))"
    proof -
      have "it_Key ops i' = EncodeMeta k" using Key r(1) i(3) unfolding at_store_def by blast
      moreover obtain b i2 where "it_Next ops i' = (b, i2)" "b \<longleftrightarrow> r \<noteq> []" using nx(3) by (cases "it_Next ops i'") auto
      ultimately show ?thesis
        using i(1,2) r(1) nx(1,2) collect_loop_eq [OF nx(1), of k "[]"] Decode_meta [OF keys_ok_key_ok [OF assms(3,4)]]
        by (cases "r = []") (simp_all add: collectVersions_def)
    qed
    show "sorted_wrt (>) (map fst (run_of k r))" using ro by simp
    have vv: "ts_valid t \<and> (enc k t, v) \<in> set r \<longleftrightarrow> versions ?V k t = Some v" for t v
      using st meta_less_enc by (auto simp: versions_def)
    have "set (run_of k r) = {(t, live_value (Some v) = None) | t v. versions ?V k t = Some v}"
      using ro unfolding vv by blast
    also have "\<dots> = {(t, live_value (versions ?V k t) = None) | t. t \<in> dom (versions ?V k)}"
      by (safe; fastforce)
    finally show "set (run_of k r) = {(t, live_value (versions ?V k t) = None) | t. t \<in> dom (versions ?V k)}" .
  qed
qed

lemma delete_versions_view:
  assumes "inv e" "store_ok K (view e)" "keys_ok K" "k \<in> K" "\<forall>v \<in> set L. ts_valid (fst v)" "meta_at (view e) k = Inr m"
  shows "\<exists>e'. delete_versions ops k L e = (e', None) \<and> inv e' \<and>
    changed K k (view e) (versions (view e) k |` (- fst ` set L)) m (view e')"
  using assms
proof (induction L arbitrary: e)
  case Nil
  then show ?case by (auto simp: changed_def restrict_map_def)
next
  case (Cons v L)
  obtain e1 where e1: "eng_Delete ops e (enc k (fst v)) = (e1, None)" "inv e1" "view e1 = (view e)(enc k (fst v) := None)"
    using Delete [OF Cons.prems(1)] by blast
  have c1: "changed K k (view e) ((versions (view e) k)(fst v := None)) m (view e1)"
    unfolding e1(3) using Cons.prems by (auto simp: changed_def mvcc_upd simp del: fun_upd_apply)
  have "store_ok K (view e1)" "meta_at (view e1) k = Inr m" using c1 by (simp_all add: changed_def)
  then have "\<exists>e'. delete_versions ops k L e1 = (e', None) \<and> inv e' \<and>
    changed K k (view e1) (versions (view e1) k |` (- fst ` set L)) m (view e')"
    using Cons.prems by (intro Cons.IH [OF e1(2)]) simp_all
  then obtain e' where e': "delete_versions ops k L e1 = (e', None)" "inv e'"
    "changed K k (view e1) (versions (view e1) k |` (- fst ` set L)) m (view e')" by blast
  have "versions (view e1) k |` (- fst ` set L) = versions (view e) k |` (- fst ` set (v # L))"
    using c1 by (auto simp: changed_def restrict_map_def fun_eq_iff)
  then show ?case using e1 e' changed_trans [OF c1 e'(3)] by simp
qed

lemma sorted_versions_hd:
  assumes "sorted_wrt (>) (map fst (n # older))" "set (n # older) = {(t, f t) | t. t \<in> dom vs}"
  shows "fst n = Max (dom vs)" "snd n = f (Max (dom vs))" "fst ` set older = dom vs - {Max (dom vs)}" "dom vs \<noteq> {}"
proof -
  have d: "fst ` set (n # older) = dom vs" using assms(2) by (force simp: image_def)
  then have fin: "finite (dom vs)" by (metis List.finite_set finite_imageI)
  show mx: "fst n = Max (dom vs)"
  proof (rule Max_eqI [symmetric, OF fin])
    fix t assume "t \<in> dom vs"
    then show "t \<le> fst n" unfolding d [symmetric] using assms(1) by (auto simp: less_imp_le)
  qed (use d in auto)
  have "n \<in> {(t, f t) | t. t \<in> dom vs}" unfolding assms(2) [symmetric] by simp
  then show "snd n = f (Max (dom vs))" using mx by auto
  have "fst n \<notin> fst ` set older" using assms(1) by force
  then have "fst ` set older = insert (fst n) (fst ` set older) - {fst n}" by (simp add: insert_Diff_if)
  moreover have "insert (fst n) (fst ` set older) = dom vs" using d by simp
  ultimately show "fst ` set older = dom vs - {Max (dom vs)}" by (metis mx)
  show "dom vs \<noteq> {}" using d by auto
qed

lemma gcKey_view:
  assumes inv: "inv e" and ok: "mvcc_ok K (view e)" and K: "keys_ok K" "k \<in> K" "EncodeMeta k \<in> dom (view e)"
  shows "\<exists>e'. gcKey ops e k thr = Some (e', None) \<and> inv e' \<and>
    changed K k (view e) (gc_versions thr (versions (view e) k))
      (if dead thr (versions (view e) k) then zeroMetadata else meta_of (view e) k) (view e')"
proof -
  let ?vs = "versions (view e) k" and ?f = "\<lambda>t. live_value (versions (view e) k t) = None"
  obtain L where L: "collectVersions ops e k = Some (Inr L)" "sorted_wrt (>) (map fst L)" "set L = {(t, ?f t) | t. t \<in> dom ?vs}"
    by (rule collectVersions_eq [OF inv mvcc_okD(1) [OF ok] K])
  have valid: "ts_valid (fst v)" if "v \<in> set L" for v using that versions_valid unfolding L(3) by fastforce
  note del = delete_versions_view [OF inv mvcc_okD(1) [OF ok] K(1,2) _ mvcc_okD(2) [OF ok K(2)]]
  show ?thesis
  proof (cases L)
    case Nil
    then have "?vs = Map.empty" using L(3) by (auto simp: dom_def)
    then have "changed K k (view e) (gc_versions thr ?vs) (meta_of (view e) k) (view e)" "\<not> dead thr ?vs"
      using mvcc_okD(1,2) [OF ok] K(2) by (auto simp: changed_def gc_versions_def dead_def)
    then show ?thesis using L(1) Nil inv by (auto simp: gcKey_def)
  next
    case (Cons n older)
    note hd = sorted_versions_hd [OF L(2,3) [unfolded Cons]]
    have dead: "snd n \<and> fst n \<le> thr \<longleftrightarrow> dead thr ?vs" using hd by (auto simp: dead_def)
    show ?thesis
    proof (cases "dead thr ?vs")
      case True
      obtain e1 where e1: "delete_versions ops k L e = (e1, None)" "inv e1"
        "changed K k (view e) (?vs |` (- fst ` set L)) (meta_of (view e) k) (view e1)"
        using del [of L] valid by blast
      obtain e' where e': "eng_Delete ops e1 (EncodeMeta k) = (e', None)" "inv e'" "view e' = (view e1)(EncodeMeta k := None)"
        using Delete [OF e1(2)] by blast
      have "fst ` set L = dom ?vs" unfolding L(3) by (force simp: image_def)
      then have "?vs |` (- fst ` set L) = Map.empty" by (auto simp: restrict_map_def fun_eq_iff)
      then have "changed K k (view e) Map.empty zeroMetadata (view e')"
        unfolding e'(3) using e1(3) K by (auto simp: changed_def mvcc_upd simp del: fun_upd_apply)
      then show ?thesis using L(1) Cons dead True e1 e' by (auto simp: gcKey_def gc_versions_def)
    next
      case False
      let ?D = "filter (\<lambda>v. ts_LessEq (fst v) thr) older"
      obtain e1 where e1: "delete_versions ops k ?D e = (e1, None)" "inv e1"
        "changed K k (view e) (?vs |` (- fst ` set ?D)) (meta_of (view e) k) (view e1)"
        using del [of ?D] valid Cons by auto
      have "fst ` set ?D = {t \<in> dom ?vs. t \<noteq> Max (dom ?vs) \<and> t \<le> thr}"
        using hd(3) by (auto simp: image_iff)
      then have "?vs |` (- fst ` set ?D) = gc_versions thr ?vs"
        using False by (auto simp: gc_versions_def restrict_map_def fun_eq_iff not_le dom_def)
      then show ?thesis using L(1) Cons dead False e1 by (auto simp: gcKey_def)
    qed
  qed
qed

text \<open>Collection keeps the newest version, so the metadata stays true.\<close>

lemma meta_ok_gc:
  assumes "meta_ok vs m" "m_Timestamp m = ts_zero \<longrightarrow> vs = Map.empty" "finite (dom vs)"
  shows "meta_ok (gc_versions thr vs) (if dead thr vs then zeroMetadata else m)"
proof (cases "dead thr vs")
  case False
  show ?thesis
  proof (cases "m_Timestamp m = ts_zero")
    case True
    then show ?thesis using assms False by (auto simp: gc_versions_def meta_ok_def)
  next
    case nz: False
    then have "m_Timestamp m = Max (dom vs)"
      using assms meta_okD(1,2) [OF assms(1)] by (intro Max_eqI [symmetric]) auto
    then show ?thesis using assms(1) False nz
      by (auto simp: gc_versions_def meta_ok_def restrict_map_def dom_def split: if_splits)
  qed
qed (simp add: gc_versions_def meta_ok_def)

lemma gc_loop_view:
  assumes "at_store K V i" "inv e" "mvcc_ok K (view e)" "\<forall>k \<in> set (metas (rest i)). EncodeMeta k \<in> dom (view e)"
  shows "\<exists>e'. gc_loop ops thr i e = Some (e', None) \<and> inv e' \<and> mvcc_ok K (view e') \<and>
    (\<forall>k \<in> K. versions (view e') k = (if k \<in> set (metas (rest i)) then gc_versions thr (versions (view e) k) else versions (view e) k) \<and>
      meta_of (view e') k = (if k \<in> set (metas (rest i)) \<and> dead thr (versions (view e) k) then zeroMetadata else meta_of (view e) k))"
  using assms
proof (induction "length (rest i)" arbitrary: i e rule: less_induct)
  case less
  have v: "it_Valid ops i \<longleftrightarrow> rest i \<noteq> []" and K: "keys_ok K" using less.prems(1) Valid by (auto simp: at_store_def)
  show ?case
  proof (cases "rest i")
    case Nil
    then show ?thesis using v less.prems by (subst gc_loop.simps) simp
  next
    case (Cons p r)
    show ?thesis
    proof (cases rule: at_store_head [OF less.prems(1) Cons])
      case (2 k t w)
      note nx = at_store_Next [OF less.prems(1) Cons]
      have "gc_loop ops thr i e = gc_loop ops thr (snd (it_Next ops i)) e"
        using v Cons 2 by (subst gc_loop.simps) simp
      then show ?thesis using less.hyps [OF _ nx(1) less.prems(2,3)] less.prems(4) nx(2) Cons 2 by simp
    next
      case (1 k w)
      let ?m = "if dead thr (versions (view e) k) then zeroMetadata else meta_of (view e) k"
      have kr: "k \<notin> set (metas r)"
        using sorted_metas [OF at_store_entries(2) [OF less.prems(1)] K at_store_entries(4) [OF less.prems(1)]] 1 by force
      obtain e1 where e1: "gcKey ops e k thr = Some (e1, None)" "inv e1"
        "changed K k (view e) (gc_versions thr (versions (view e) k)) ?m (view e1)"
        using gcKey_view [OF less.prems(2,3) K 1(1)] less.prems(4) 1 by auto
      have ok1: "mvcc_ok K (view e1)"
        by (rule changed_mvcc_ok [OF less.prems(3) e1(3)], rule meta_ok_gc)
          (use mvcc_okD(3) [OF less.prems(3) 1(1)] newest_zero [OF less.prems(3) 1(1)]
            finite_versions [OF view_finite [OF less.prems(2)]] in auto)
      obtain i' where i': "it_Seek ops i (EncodeMeta (nextKeyPrefix k)) = (rest i' \<noteq> [], i')" "at_store K V i'"
        "metas (rest i') = metas r" "length (rest i') < length (rest i)"
        by (rule at_store_Seek_next [OF less.prems(1) _ 1(1)]) (use Cons 1 in auto)
      have "\<forall>k' \<in> set (metas (rest i')). EncodeMeta k' \<in> dom (view e1)"
      proof
        fix k' assume "k' \<in> set (metas (rest i'))"
        then have k': "k' \<noteq> k" "EncodeMeta k' \<in> dom (view e)" "k' \<in> set (metas (rest i))" using kr i'(3) less.prems(4) 1 by auto
        moreover have "k' \<in> K" using k'(3) set_metas [OF at_store_entries(2) [OF less.prems(1)] K] by auto
        ultimately show "EncodeMeta k' \<in> dom (view e1)" using e1(3) by (auto simp: changed_def)
      qed
      from less.hyps [OF i'(4,2) e1(2) ok1 this] obtain e' where e': "gc_loop ops thr i' e1 = Some (e', None)" "inv e'" "mvcc_ok K (view e')"
        "\<And>k'. k' \<in> K \<Longrightarrow> versions (view e') k' = (if k' \<in> set (metas r) then gc_versions thr (versions (view e1) k') else versions (view e1) k') \<and>
          meta_of (view e') k' = (if k' \<in> set (metas r) \<and> dead thr (versions (view e1) k') then zeroMetadata else meta_of (view e1) k')"
        using i'(3) by auto
      have "gc_loop ops thr i e = Some (e', None)"
      proof (cases "rest i' = []")
        case True
        then have "gc_loop ops thr i' e1 = Some (e1, None)" using Valid i'(2) by (subst gc_loop.simps) (simp add: at_store_def)
        then show ?thesis using v Cons 1 e1 i' True e'(1) by (subst gc_loop.simps) simp
      next
        case False
        then show ?thesis using v Cons 1 e1 i' e'(1) by (subst gc_loop.simps) simp
      qed
      moreover have "versions (view e') k' = (if k' \<in> set (metas (rest i)) then gc_versions thr (versions (view e) k') else versions (view e) k') \<and>
        meta_of (view e') k' = (if k' \<in> set (metas (rest i)) \<and> dead thr (versions (view e) k') then zeroMetadata else meta_of (view e) k')"
        if "k' \<in> K" for k'
      proof (cases "k' = k")
        case True
        then show ?thesis using e'(4) [OF that] kr 1 e1(3) changed_meta_of(1) [OF e1(3)] by (simp add: changed_def)
      next
        case False
        then show ?thesis
          using e'(4) [OF that] 1 changed_other(2) [OF e1(3) that] changed_meta_of(2) [OF e1(3) that] by simp
      qed
      ultimately show ?thesis using e'(2,3) by blast
    qed
  qed
qed

lemma MVCCGarbageCollect_view:
  assumes inv: "inv e" and ok: "mvcc_ok K (view e)" and K: "keys_ok K"
  shows "\<exists>e'. MVCCGarbageCollect ops e thr = Some (e', None) \<and> inv e' \<and> mvcc_ok K (view e') \<and>
    (\<forall>k \<in> K. versions (view e') k = gc_versions thr (versions (view e) k) \<and>
      meta_of (view e') k = (if dead thr (versions (view e) k) then zeroMetadata else meta_of (view e) k))"
proof -
  obtain i i' where i: "eng_NewIterator ops e = Inr i" "it_Seek ops i [] = (rest i' \<noteq> [], i')"
    "at_store K (view e) i'" "rest i' = dropWhile (\<lambda>p. fst p < []) (entries (view e))"
    by (rule at_store_Seek [OF inv mvcc_okD(1) [OF ok] K])
  have r: "rest i' = entries (view e)" using i(4) by (simp add: dropWhile_eq_self_iff)
  have fin: "finite (dom (view e))" by (rule view_finite [OF inv])
  have mk: "set (metas (rest i')) = {k \<in> K. EncodeMeta k \<in> dom (view e)}"
    unfolding r set_metas [OF all_entries_entries [OF fin mvcc_okD(1) [OF ok]] K] using fin by (force simp: set_entries)
  have nm: "versions (view e) k = Map.empty" if "k \<in> K" "EncodeMeta k \<notin> dom (view e)" for k
  proof (rule newest_zero [OF ok that(1)])
    show "newest (view e) k = ts_zero" using that(2) by (simp add: meta_of_def meta_at_def dom_def)
  qed
  obtain e' where e': "gc_loop ops thr i' e = Some (e', None)" "inv e'" "mvcc_ok K (view e')"
    "\<And>k. k \<in> K \<Longrightarrow> versions (view e') k = (if k \<in> set (metas (rest i')) then gc_versions thr (versions (view e) k) else versions (view e) k) \<and>
      meta_of (view e') k = (if k \<in> set (metas (rest i')) \<and> dead thr (versions (view e) k) then zeroMetadata else meta_of (view e) k)"
    using gc_loop_view [OF i(3) inv ok, of thr] unfolding mk by blast
  have "MVCCGarbageCollect ops e thr = Some (e', None)"
  proof (cases "rest i' = []")
    case True
    then have "gc_loop ops thr i' e = Some (e, None)" using Valid i(3) by (subst gc_loop.simps) (simp add: at_store_def)
    then show ?thesis using i e'(1) True by (simp add: MVCCGarbageCollect_def)
  qed (use i e'(1) in \<open>simp add: MVCCGarbageCollect_def\<close>)
  moreover have "gc_versions thr (\<lambda>x. None) = Map.empty" "\<not> dead thr Map.empty" by (auto simp: gc_versions_def dead_def)
  ultimately show ?thesis
    using e' mk nm by (auto intro!: exI [of _ e'])
qed

end

end
