(* ===== verification/Mvcc_Props.thy ===== *)
theory Mvcc_Props
  imports Mvcc_Scan
begin

text \<open>
  What users of the MVCC layer rely on: snapshot reads, conflicts, and the life of an
  intent. The lemmas are proved for any engine of the contract \<open>storage_engine\<close>; the
  properties state them for the LSM engine.
\<close>

lemma meta_ok_newest:
  assumes "meta_ok vs m" "finite (dom vs)" "vs \<noteq> Map.empty" "\<forall>t \<in> dom vs. ts_valid t"
  shows "m_Timestamp m = Max (dom vs)" and "m_Timestamp m \<in> dom vs"
proof -
  obtain t where t: "t \<in> dom vs" using assms(3) by auto
  have "m_Timestamp m \<noteq> ts_zero"
    using meta_okD(1) [OF assms(1) t] assms(4) t ts_valid_gt_zero [of t] by (auto simp: order.strict_iff_order)
  then show d: "m_Timestamp m \<in> dom vs" by (rule meta_okD(2) [OF assms(1)])
  show "m_Timestamp m = Max (dom vs)"
    by (rule Max_eqI [symmetric]) (use assms d meta_okD(1) in auto)
qed

text \<open>Two metadata records that fit the same versions name the same newest timestamp.\<close>

lemma meta_ok_same_newest:
  assumes "meta_ok vs m" "meta_ok vs m'" "finite (dom vs)" "\<forall>t \<in> dom vs. ts_valid t"
  shows "m_Timestamp m = m_Timestamp m'"
proof (cases "vs = Map.empty")
  case True
  then show ?thesis using assms(1,2) by (auto simp: meta_ok_def)
next
  case False
  then show ?thesis using meta_ok_newest(1) assms by metis
qed

lemma read_conflict_cong:
  "HasIntent m = HasIntent m' \<Longrightarrow> m_Txn m = m_Txn m' \<or> \<not> HasIntent m \<Longrightarrow> m_TxnTimestamp m = m_TxnTimestamp m' \<or> \<not> HasIntent m \<Longrightarrow>
   m_Timestamp m = m_Timestamp m' \<Longrightarrow> read_conflict k ts opts m = read_conflict k ts opts m'"
  by (auto simp: read_conflict_def newWriteIntentError_def)

lemma read_conflict_own:
  "ro_MaxTimestamp opts = ts_zero \<Longrightarrow> HasIntent m \<longrightarrow> ro_Txn opts = m_Txn m \<Longrightarrow> read_conflict k ts opts m = None"
  by (simp add: read_conflict_def)

lemma visible_upd:
  assumes "finite (dom vs)" "\<And>u. u \<in> dom vs \<Longrightarrow> u \<le> ts"
  shows "visible (vs(ts \<mapsto> encodeMVCCValue v)) ts' = (if ts \<le> ts' then Some v else visible vs ts')"
  using read_at_upd_newest [OF assms(1) _ assms(2), of ts'] read_at_upd_above [OF assms(1), of ts ts']
  by (simp add: visible_def)

lemma drop_version: "t \<notin> dom vs \<Longrightarrow> V = vs(t \<mapsto> r) \<Longrightarrow> V(t := None) = vs"
  by (simp add: domIff fun_upd_idem)

lemma move_version: "t \<notin> dom vs \<Longrightarrow> V = vs(t \<mapsto> r) \<Longrightarrow> V(t := None, c := V t) = vs(c \<mapsto> r)"
  by (simp add: drop_version)

text \<open>When a write is refused, in terms of the key's intent and its stored versions.\<close>

definition write_refusal :: "mvccMetadata \<Rightarrow> (timestamp \<rightharpoonup> bytes) \<Rightarrow> bytes \<Rightarrow> timestamp \<Rightarrow> txnid option \<Rightarrow> error option" where
  "write_refusal m vs k ts txn =
     (if HasIntent m then
        (if txn \<noteq> m_Txn m then Some (WriteIntentError k (the (m_Txn m)) (Max (dom vs))) else None)
      else if \<exists>t \<in> dom vs. ts \<le> t then Some (WriteTooOldError k ts (Max (dom vs))) else None)"

context storage_engine
begin

lemma versions_ts_valid: "\<forall>t \<in> dom (versions V k). ts_valid t"
  using versions_valid by blast

section \<open>Writes\<close>

lemma MVCCPut_ok:
  assumes "inv e" "mvcc_ok K (view e)" "keys_ok K" "k \<in> K" "ts_valid ts" "newest (view e) k \<le> ts"
    and "MVCCPut ops e k ts v txn = (e', None)"
  obtains m where "inv e'" and "mvcc_ok K (view e')"
    and "changed K k (view e) ((versions (view e) k)(ts \<mapsto> encodeMVCCValue v)) m (view e')"
    and "m_Timestamp m = ts" and "m_Txn m = txn" and "txn \<noteq> None \<Longrightarrow> m_TxnTimestamp m = ts"
    and "write_conflict k ts txn (meta_of (view e) k) = None"
proof -
  obtain m where m: "inv e'" "changed K k (view e) ((versions (view e) k)(ts \<mapsto> encodeMVCCValue v)) m (view e')"
    "m_Timestamp m = ts" "\<not> m_Deleted m" "m_Txn m = txn" "m_TxnTimestamp m = (if txn \<noteq> None then ts else ts_zero)"
    "write_conflict k ts txn (meta_of (view e) k) = None"
    using MVCCPut_view [OF assms(1-5), where txn = txn and v = v] assms(7)
    by (cases "write_conflict k ts txn (meta_of (view e) k)") auto
  have "meta_ok ((versions (view e) k)(ts \<mapsto> encodeMVCCValue v)) m"
    by (rule meta_ok_write [OF mvcc_okD(3) [OF assms(2,4)] assms(6,5)]) (use m in \<open>auto simp: HasIntent_Txn\<close>)
  then have "mvcc_ok K (view e')" by (rule changed_mvcc_ok [OF assms(2) m(2)])
  then show thesis using m by (intro that [where m = m]) simp_all
qed

lemma put_get:
  assumes "inv e" "mvcc_ok K (view e)" "keys_ok K" "k \<in> K" "ts_valid ts" "newest (view e) k \<le> ts"
    and "MVCCPut ops e k ts v txn = (e', None)"
    and k': "k' \<in> K" and ts': "ts_valid ts'" and opts: "ro_Txn opts = txn" "ro_MaxTimestamp opts = ts_zero"
  shows "MVCCGet ops e' k' ts' opts = (if k' = k \<and> ts \<le> ts' then Inr v else MVCCGet ops e k' ts' opts)"
proof -
  obtain m where m: "inv e'" "mvcc_ok K (view e')"
    "changed K k (view e) ((versions (view e) k)(ts \<mapsto> encodeMVCCValue v)) m (view e')"
    "m_Timestamp m = ts" "m_Txn m = txn" "write_conflict k ts txn (meta_of (view e) k) = None"
    using MVCCPut_ok [OF assms(1-7)] by blast
  have fin: "finite (dom (versions (view e) k))" by (rule finite_versions [OF view_finite [OF assms(1)]])
  show ?thesis
  proof (cases "k' = k")
    case True
    have "HasIntent (meta_of (view e) k) \<longrightarrow> ro_Txn opts = m_Txn (meta_of (view e) k)"
      using m(6) opts(1) ownIntent_eq by (auto simp: write_conflict_def split: if_splits)
    note none = read_conflict_own [OF opts(2) this] read_conflict_own [where m = m, OF opts(2)]
    have vs: "versions (view e') k = (versions (view e) k)(ts \<mapsto> encodeMVCCValue v)" using m(3) by (simp add: changed_def)
    have "u \<le> ts" if "u \<in> dom (versions (view e) k)" for u
      using meta_okD(1) [OF mvcc_okD(3) [OF assms(2,4)] that] assms(6) by (rule order_trans)
    then have "visible (versions (view e') k) ts' = (if ts \<le> ts' then Some v else visible (versions (view e) k) ts')"
      using visible_upd [OF fin, of ts] vs by simp
    then show ?thesis
      using MVCCGet_view [OF m(1,2) assms(3,4) ts', of opts] MVCCGet_view [OF assms(1-4) ts', of opts]
        none changed_meta_of(1) [OF m(3)] m(5) opts(1) True by (simp add: found_def)
  next
    case False
    then show ?thesis using MVCCGet_unchanged [OF assms(1,2) m(1,2) assms(3) k' ts' m(3)] by simp
  qed
qed

lemma write_conflict_view:
  assumes "inv e" "mvcc_ok K (view e)" "k \<in> K"
  shows "write_conflict k ts txn (meta_of (view e) k) =
    write_refusal (meta_of (view e) k) (versions (view e) k) k ts txn"
proof -
  let ?m = "meta_of (view e) k" and ?vs = "versions (view e) k"
  have fin: "finite (dom ?vs)" by (rule finite_versions [OF view_finite [OF assms(1)]])
  note mo = mvcc_okD(3) [OF assms(2,3)]
  show ?thesis
  proof (cases "?vs = Map.empty")
    case True
    then have "newest (view e) k = ts_zero" "\<not> HasIntent ?m" using mo by (auto simp: meta_ok_def)
    then show ?thesis using True by (simp add: write_conflict_def write_refusal_def)
  next
    case False
    note nw = meta_ok_newest [OF mo fin False versions_ts_valid]
    have "(\<exists>t \<in> dom ?vs. ts \<le> t) \<longleftrightarrow> ts \<le> newest (view e) k"
      using nw(2) meta_okD(1) [OF mo] by (auto intro: order_trans)
    moreover have "newest (view e) k \<noteq> ts_zero" using versions_valid [OF nw(2)] by auto
    ultimately show ?thesis
      using nw(1) meta_okD(3) [OF mo] ownIntent_eq [of ?m txn]
      by (auto simp: write_conflict_def write_refusal_def newWriteIntentError_def newWriteTooOldError_def HasIntent_Txn)
  qed
qed

text \<open>A writer is refused in exactly two situations, and then nothing has changed.\<close>

lemma write_errors:
  assumes "inv e" "mvcc_ok K (view e)" "keys_ok K" "k \<in> K" "ts_valid ts"
  shows "snd (MVCCPut ops e k ts v txn) = write_refusal (meta_of (view e) k) (versions (view e) k) k ts txn \<and>
    snd (MVCCDelete ops e k ts txn) = write_refusal (meta_of (view e) k) (versions (view e) k) k ts txn \<and>
    (snd (MVCCPut ops e k ts v txn) \<noteq> None \<longrightarrow> fst (MVCCPut ops e k ts v txn) = e \<and> fst (MVCCDelete ops e k ts txn) = e)"
  using MVCCPut_view [OF assms, where txn = txn and v = v] MVCCDelete_view [OF assms, where txn = txn]
    write_conflict_view [OF assms(1,2,4), of ts txn]
  by (cases "write_refusal (meta_of (view e) k) (versions (view e) k) k ts txn") auto

section \<open>Intents\<close>

lemma put_intent:
  assumes "inv e" "mvcc_ok K (view e)" "keys_ok K" "k \<in> K" "ts_valid ts" "\<not> HasIntent (meta_of (view e) k)" "T \<noteq> 0"
    and "MVCCPut ops e k ts v (Some T) = (e1, None)"
  obtains m where "inv e1" and "mvcc_ok K (view e1)"
    and "changed K k (view e) ((versions (view e) k)(ts \<mapsto> encodeMVCCValue v)) m (view e1)"
    and "meta_of (view e1) k = m" and "HasIntent m" and "m_Txn m = Some T" and "m_Timestamp m = ts" and "m_TxnTimestamp m = ts"
    and "newest (view e) k < ts"
proof -
  have wc: "write_conflict k ts (Some T) (meta_of (view e) k) = None"
    using MVCCPut_view [OF assms(1-5), where txn = "Some T" and v = v] assms(8)
    by (cases "write_conflict k ts (Some T) (meta_of (view e) k)") auto
  have "\<not> ts \<le> newest (view e) k"
  proof
    assume "ts \<le> newest (view e) k"
    moreover then have "newest (view e) k \<noteq> ts_zero" using ts_valid_gt_zero [OF assms(5)] assms(5) by auto
    ultimately show False using wc assms(6) by (simp add: write_conflict_def)
  qed
  then have lt: "newest (view e) k < ts" by simp
  obtain m where m: "inv e1" "mvcc_ok K (view e1)"
    "changed K k (view e) ((versions (view e) k)(ts \<mapsto> encodeMVCCValue v)) m (view e1)"
    "m_Timestamp m = ts" "m_Txn m = Some T" "m_TxnTimestamp m = ts"
    using MVCCPut_ok [OF assms(1-5) less_imp_le [OF lt] assms(8)] by blast
  then show thesis using lt changed_meta_of(1) [OF m(3)] assms(7) by (intro that [of m]) (auto simp: HasIntent_Txn)
qed

lemma abort_restores:
  assumes "inv e" "mvcc_ok K (view e)" "keys_ok K" "k \<in> K" "ts_valid ts" "\<not> HasIntent (meta_of (view e) k)" "T \<noteq> 0"
    and "MVCCPut ops e k ts v (Some T) = (e1, None)"
  shows "\<exists>e2. MVCCResolveWriteIntent ops e1 k T TxnAborted c = (e2, None) \<and> inv e2 \<and> mvcc_ok K (view e2) \<and>
    (\<forall>k' \<in> K. \<forall>ts' opts. ts_valid ts' \<longrightarrow> MVCCGet ops e2 k' ts' opts = MVCCGet ops e k' ts' opts)"
proof -
  obtain m where m: "inv e1" "mvcc_ok K (view e1)"
    "changed K k (view e) ((versions (view e) k)(ts \<mapsto> encodeMVCCValue v)) m (view e1)"
    "meta_of (view e1) k = m" "HasIntent m" "m_Txn m = Some T" "m_Timestamp m = ts" "newest (view e) k < ts"
    using put_intent [OF assms] by blast
  let ?vs = "versions (view e) k"
  have "ts \<notin> dom ?vs" using meta_okD(1) [OF mvcc_okD(3) [OF assms(2,4)]] m(8) by (meson leD)
  then have vs: "(versions (view e1) k)(newest (view e1) k := None) = ?vs"
    using m(3,4,7) by (auto simp: changed_def fun_eq_iff domIff)
  obtain e2 m2 where e2: "MVCCResolveWriteIntent ops e1 k T TxnAborted c = (e2, None)" "inv e2"
    "changed K k (view e1) ?vs m2 (view e2)" "m_Txn m2 = None" "meta_ok ?vs m2"
    using resolve_abort_view [OF m(1,2) assms(3,4), of T c] m(4-6) unfolding vs by auto
  have ok2: "mvcc_ok K (view e2)" by (rule changed_mvcc_ok [OF m(2) e2(3,5)])
  have ch: "changed K k (view e) ?vs m2 (view e2)" by (rule changed_trans [OF m(3) e2(3)])
  have "newest (view e) k = m_Timestamp m2"
    by (rule meta_ok_same_newest [OF mvcc_okD(3) [OF assms(2,4)] e2(5) finite_versions [OF view_finite [OF assms(1)]] versions_ts_valid])
  then have "read_conflict k ts' opts m2 = read_conflict k ts' opts (meta_of (view e) k)" for ts' opts
    by (intro read_conflict_cong) (use assms(6) e2(4) in \<open>simp_all add: HasIntent_Txn\<close>)
  then have "MVCCGet ops e2 k ts' opts = MVCCGet ops e k ts' opts" if "ts_valid ts'" for ts' opts
    using ch changed_meta_of(1) [OF ch] that
    by (intro MVCCGet_cong [OF assms(1,2) e2(2) ok2 assms(3,4)]) (simp_all add: changed_def)
  then have "MVCCGet ops e2 k' ts' opts = MVCCGet ops e k' ts' opts" if "k' \<in> K" "ts_valid ts'" for k' ts' opts
    using that MVCCGet_unchanged [OF assms(1,2) e2(2) ok2 assms(3) that ch] by (cases "k' = k") simp_all
  then show ?thesis using e2(1,2) ok2 by blast
qed

lemma commit_visible:
  assumes "inv e" "mvcc_ok K (view e)" "keys_ok K" "k \<in> K" "ts_valid ts" "\<not> HasIntent (meta_of (view e) k)" "T \<noteq> 0"
    and "MVCCPut ops e k ts v (Some T) = (e1, None)" and c: "ts_valid c" "ts \<le> c"
  shows "\<exists>e2. MVCCResolveWriteIntent ops e1 k T TxnCommitted c = (e2, None) \<and> inv e2 \<and> mvcc_ok K (view e2) \<and>
    (\<forall>k' \<in> K. \<forall>ts' opts. ts_valid ts' \<and> ro_MaxTimestamp opts = ts_zero \<longrightarrow>
       MVCCGet ops e2 k' ts' opts = (if k' = k \<and> c \<le> ts' then Inr v else MVCCGet ops e k' ts' opts))"
proof -
  obtain m where m: "inv e1" "mvcc_ok K (view e1)"
    "changed K k (view e) ((versions (view e) k)(ts \<mapsto> encodeMVCCValue v)) m (view e1)"
    "meta_of (view e1) k = m" "HasIntent m" "m_Txn m = Some T" "m_Timestamp m = ts" "newest (view e) k < ts"
    using put_intent [OF assms(1-8)] by blast
  let ?vs = "versions (view e) k"
  have fin: "finite (dom ?vs)" by (rule finite_versions [OF view_finite [OF assms(1)]])
  have below: "u < ts" if "u \<in> dom ?vs" for u using meta_okD(1) [OF mvcc_okD(3) [OF assms(2,4)] that] m(8) by simp
  have vs: "(versions (view e1) k)(newest (view e1) k := None, c := versions (view e1) k (newest (view e1) k)) = ?vs(c \<mapsto> encodeMVCCValue v)"
    unfolding m(4) m(7) by (rule move_version) (use m(3) below in \<open>auto simp: changed_def\<close>)
  obtain e2 m2 where e2: "MVCCResolveWriteIntent ops e1 k T TxnCommitted c = (e2, None)" "inv e2"
    "changed K k (view e1) (?vs(c \<mapsto> encodeMVCCValue v)) m2 (view e2)" "m_Timestamp m2 = c" "m_Txn m2 = None" "m_Deleted m2 = m_Deleted m"
    using resolve_commit_view [OF m(1,2) assms(3,4) c(1), of T] m(4-6) unfolding vs by auto
  have "\<not> m_Deleted m"
    using mvcc_okD(3) [OF m(2) assms(4)] m(3,4,7) assms(5) by (auto simp: meta_ok_def changed_def)
  then have ok2: "mvcc_ok K (view e2)"
    using e2 c m(8) by (intro changed_mvcc_ok [OF m(2) e2(3)] meta_ok_write [OF mvcc_okD(3) [OF assms(2,4)]]) (auto simp: HasIntent_Txn)
  have ch: "changed K k (view e) (?vs(c \<mapsto> encodeMVCCValue v)) m2 (view e2)" by (rule changed_trans [OF m(3) e2(3)])
  have "MVCCGet ops e2 k ts' opts = (if c \<le> ts' then Inr v else MVCCGet ops e k ts' opts)"
    if "ts_valid ts'" "ro_MaxTimestamp opts = ts_zero" for ts' opts
  proof -
    have "read_conflict k ts' opts m2 = None" "read_conflict k ts' opts (meta_of (view e) k) = None"
      using that(2) e2(5) assms(6) by (auto intro!: read_conflict_own simp: HasIntent_Txn)
    moreover have "visible (?vs(c \<mapsto> encodeMVCCValue v)) ts' = (if c \<le> ts' then Some v else visible ?vs ts')"
      by (rule visible_upd [OF fin]) (use below c(2) in force)
    ultimately show ?thesis
      using MVCCGet_view [OF e2(2) ok2 assms(3,4) that(1)] MVCCGet_view [OF assms(1-4) that(1)] ch changed_meta_of(1) [OF ch]
      by (simp add: changed_def found_def)
  qed
  then have "MVCCGet ops e2 k' ts' opts = (if k' = k \<and> c \<le> ts' then Inr v else MVCCGet ops e k' ts' opts)"
    if "k' \<in> K" "ts_valid ts'" "ro_MaxTimestamp opts = ts_zero" for k' ts' opts
    using that MVCCGet_unchanged [OF assms(1,2) e2(2) ok2 assms(3) that(1,2) ch] by (cases "k' = k") simp_all
  then show ?thesis using e2(1,2) ok2 by blast
qed

lemma push_unblocks:
  assumes "inv e" "mvcc_ok K (view e)" "keys_ok K" "k \<in> K" "ts_valid ts" "\<not> HasIntent (meta_of (view e) k)" "T \<noteq> 0"
    and "MVCCPut ops e k ts v (Some T) = (e1, None)" and n: "ts_valid n" "ts < n"
    and rd: "ts_valid ts'" "ts \<le> ts'" "ts' < n" "ro_Txn opts \<noteq> Some T" "ro_MaxTimestamp opts = ts_zero"
  shows "MVCCGet ops e1 k ts' opts = Inl (WriteIntentError k T ts) \<and>
    (\<exists>e2. MVCCPushIntent ops e1 k T n = (e2, None) \<and> inv e2 \<and> mvcc_ok K (view e2) \<and>
       MVCCGet ops e2 k ts' opts = MVCCGet ops e k ts' opts \<and>
       MVCCGet ops e2 k n opts = Inl (WriteIntentError k T n))"
proof -
  obtain m where m: "inv e1" "mvcc_ok K (view e1)"
    "changed K k (view e) ((versions (view e) k)(ts \<mapsto> encodeMVCCValue v)) m (view e1)"
    "meta_of (view e1) k = m" "HasIntent m" "m_Txn m = Some T" "m_Timestamp m = ts" "m_TxnTimestamp m = ts" "newest (view e) k < ts"
    using put_intent [OF assms(1-8)] by blast
  let ?vs = "versions (view e) k"
  have fin: "finite (dom ?vs)" by (rule finite_versions [OF view_finite [OF assms(1)]])
  have below: "u < ts" if "u \<in> dom ?vs" for u using meta_okD(1) [OF mvcc_okD(3) [OF assms(2,4)] that] m(9) by simp
  have "MVCCGet ops e1 k ts' opts = Inl (WriteIntentError k T ts)"
    using MVCCGet_view [OF m(1,2) assms(3,4) rd(1)] m(4-8) rd by (simp add: read_conflict_def newWriteIntentError_def)
  moreover have vs: "(versions (view e1) k)(newest (view e1) k := None, n := versions (view e1) k (newest (view e1) k)) = ?vs(n \<mapsto> encodeMVCCValue v)"
    unfolding m(4) m(7) by (rule move_version) (use m(3) below in \<open>auto simp: changed_def\<close>)
  obtain e2 m2 where e2: "MVCCPushIntent ops e1 k T n = (e2, None)" "inv e2"
    "changed K k (view e1) (?vs(n \<mapsto> encodeMVCCValue v)) m2 (view e2)" "m_Timestamp m2 = n" "m_TxnTimestamp m2 = n" "m_Txn m2 = Some T"
    "m_Deleted m2 = m_Deleted m"
    using push_view [OF m(1,2) assms(3,4) n(1), of T] m(4-7) n(2) unfolding vs by auto
  have "\<not> m_Deleted m"
    using mvcc_okD(3) [OF m(2) assms(4)] m(3,4,7) assms(5) by (auto simp: meta_ok_def changed_def)
  then have ok2: "mvcc_ok K (view e2)"
    using e2 n m(9) by (intro changed_mvcc_ok [OF m(2) e2(3)] meta_ok_write [OF mvcc_okD(3) [OF assms(2,4)]]) auto
  have ch: "changed K k (view e) (?vs(n \<mapsto> encodeMVCCValue v)) m2 (view e2)" by (rule changed_trans [OF m(3) e2(3)])
  have "HasIntent m2" using e2(6) assms(7) by (simp add: HasIntent_Txn)
  then have "MVCCGet ops e2 k n opts = Inl (WriteIntentError k T n)"
    using MVCCGet_view [OF e2(2) ok2 assms(3,4) n(1)] changed_meta_of(1) [OF ch] e2(4-6) rd(4)
    by (simp add: read_conflict_def newWriteIntentError_def)
  moreover have "MVCCGet ops e2 k ts' opts = MVCCGet ops e k ts' opts"
  proof -
    have "read_conflict k ts' opts m2 = None" "read_conflict k ts' opts (meta_of (view e) k) = None"
      using rd(3,5) e2(5) assms(6) by (auto simp: read_conflict_def)
    moreover have "visible (?vs(n \<mapsto> encodeMVCCValue v)) ts' = visible ?vs ts'"
      using read_at_upd_above [OF fin, of n ts'] rd(3) by (simp add: visible_def)
    ultimately show ?thesis
      using ch changed_meta_of(1) [OF ch] by (intro MVCCGet_cong [OF assms(1,2) e2(2) ok2 assms(3,4) rd(1)]) (simp_all add: changed_def)
  qed
  ultimately show ?thesis using e2(1,2) ok2 by blast
qed

text \<open>An intent rewritten at a later timestamp leaves its first version behind; aborting removes the last one only.\<close>

lemma abort_exposes_first_write:
  assumes "inv e" "mvcc_ok K (view e)" "keys_ok K" "k \<in> K" "ts_valid ts" "\<not> HasIntent (meta_of (view e) k)" "T \<noteq> 0"
    and "MVCCPut ops e k ts v (Some T) = (e1, None)" and ts2: "ts_valid ts2" "ts < ts2"
    and put2: "MVCCPut ops e1 k ts2 v2 (Some T) = (e2, None)"
    and rd: "ts_valid ts'" "ts \<le> ts'" "ro_MaxTimestamp opts = ts_zero"
  shows "\<exists>e3. MVCCResolveWriteIntent ops e2 k T TxnAborted c = (e3, None) \<and> MVCCGet ops e3 k ts' opts = Inr v"
proof -
  let ?vs = "versions (view e) k"
  obtain m where m: "inv e1" "mvcc_ok K (view e1)"
    "changed K k (view e) (?vs(ts \<mapsto> encodeMVCCValue v)) m (view e1)"
    "meta_of (view e1) k = m" "m_Timestamp m = ts" "newest (view e) k < ts"
    using put_intent [OF assms(1-8)] by blast
  have le: "newest (view e1) k \<le> ts2" using m(4,5) ts2(2) by simp
  obtain m2 where m2: "inv e2" "mvcc_ok K (view e2)"
    "changed K k (view e1) ((versions (view e1) k)(ts2 \<mapsto> encodeMVCCValue v2)) m2 (view e2)"
    "m_Timestamp m2 = ts2" "m_Txn m2 = Some T" "m_TxnTimestamp m2 = ts2"
    using MVCCPut_ok [OF m(1,2) assms(3,4) ts2(1) le put2] by blast
  have fin: "finite (dom ?vs)" by (rule finite_versions [OF view_finite [OF assms(1)]])
  have below: "u < ts" if "u \<in> dom ?vs" for u using meta_okD(1) [OF mvcc_okD(3) [OF assms(2,4)] that] m(6) by simp
  have "versions (view e2) k = (?vs(ts \<mapsto> encodeMVCCValue v))(ts2 \<mapsto> encodeMVCCValue v2)"
    using m(3) m2(3) unfolding changed_def by metis
  moreover have "ts2 \<notin> dom (?vs(ts \<mapsto> encodeMVCCValue v))" using below [of ts2] ts2(2) less_asym by (auto simp: domIff)
  ultimately have vs: "(versions (view e2) k)(newest (view e2) k := None) = ?vs(ts \<mapsto> encodeMVCCValue v)"
    unfolding changed_meta_of(1) [OF m2(3)] m2(4) by (intro drop_version)
  have "HasIntent (meta_of (view e2) k)" "m_Txn (meta_of (view e2) k) = Some T"
    using m2(5) changed_meta_of(1) [OF m2(3)] assms(7) by (simp_all add: HasIntent_Txn)
  from resolve_abort_view [OF m2(1,2) assms(3,4) this, of c, unfolded vs] obtain e3 m3 where
    e3: "MVCCResolveWriteIntent ops e2 k T TxnAborted c = (e3, None)" "inv e3"
    "changed K k (view e2) (?vs(ts \<mapsto> encodeMVCCValue v)) m3 (view e3)" "m_Txn m3 = None" "meta_ok (?vs(ts \<mapsto> encodeMVCCValue v)) m3"
    by blast
  have ok3: "mvcc_ok K (view e3)" by (rule changed_mvcc_ok [OF m2(2) e3(3,5)])
  have "read_conflict k ts' opts m3 = None" by (rule read_conflict_own [OF rd(3)]) (simp add: HasIntent_Txn e3(4))
  moreover have "visible (?vs(ts \<mapsto> encodeMVCCValue v)) ts' = Some v"
    using visible_upd [OF fin less_imp_le [OF below], of v ts'] rd(2) by simp
  ultimately have "MVCCGet ops e3 k ts' opts = Inr v"
    using MVCCGet_view [OF e3(2) ok3 assms(3,4) rd(1)] e3(3) changed_meta_of(1) [OF e3(3)] by (simp add: changed_def found_def)
  then show ?thesis using e3(1) by blast
qed

section \<open>Garbage collection and readers\<close>

lemma gc_visible_same:
  assumes "finite (dom vs)" "\<forall>t \<in> dom vs. t \<le> n" "n \<in> dom vs" "n \<le> ts' \<or> (\<exists>t \<in> dom vs. thr < t \<and> t \<le> ts')"
  shows "visible (gc_versions thr vs) ts' = visible vs ts'"
proof -
  have mx: "Max (dom vs) = n" by (rule Max_eqI) (use assms in auto)
  have ne: "upto vs ts' \<noteq> {}" using assms(3,4) by (auto simp: upto_def)
  let ?x = "Max (upto vs ts')"
  have x: "?x \<in> dom vs" "?x \<le> ts'" using Max_in [OF upto_finite [OF assms(1)] ne] by (auto simp: upto_def)
  have ge: "t \<le> ?x" if "t \<in> dom vs" "t \<le> ts'" for t
    using Max_ge [OF upto_finite [OF assms(1)]] that by (auto simp: upto_def)
  have keep: "thr < ?x \<or> ?x = n" using assms(2-4) ge x by (meson le_less_trans less_le_trans order_antisym not_le)
  have r: "read_at vs ts' = vs ?x" using ne by (simp add: read_at_def)
  show ?thesis
  proof (cases "dead thr vs")
    case True
    have "?x \<le> n" using x(1) assms(2) by blast
    then have "?x = n" using keep True by (auto simp: dead_def mx)
    then have "live_value (read_at vs ts') = None" using True r by (simp add: dead_def mx)
    then show ?thesis using True by (simp add: gc_versions_def visible_def)
  next
    case False
    obtain y where y: "vs ?x = Some y" using x(1) by blast
    have "read_at (gc_versions thr vs) ts' = Some y"
    proof (rule read_at_eqI [where t = ?x])
      show "finite (dom (gc_versions thr vs))" using assms(1) by (simp add: gc_versions_def)
      show "gc_versions thr vs ?x = Some y" using keep y False by (auto simp: gc_versions_def mx restrict_map_def)
      show "u \<le> ?x" if "u \<in> dom (gc_versions thr vs)" "u \<le> ts'" for u
        using that ge [of u] False by (auto simp: gc_versions_def restrict_map_def domIff split: if_splits)
    qed (use x in simp)
    then show ?thesis using r y by (simp add: visible_def)
  qed
qed

lemma gc_keeps_reads:
  assumes "inv e" "mvcc_ok K (view e)" "keys_ok K"
  shows "\<exists>e'. MVCCGarbageCollect ops e thr = Some (e', None) \<and> inv e' \<and> mvcc_ok K (view e') \<and>
    (\<forall>k \<in> K. \<forall>ts' opts. ts_valid ts' \<and> \<not> HasIntent (meta_of (view e) k) \<and>
       (newest (view e) k \<le> ts' \<or> (\<exists>t \<in> dom (versions (view e) k). thr < t \<and> t \<le> ts')) \<longrightarrow>
       MVCCGet ops e' k ts' opts = MVCCGet ops e k ts' opts)"
proof -
  obtain e' where e': "MVCCGarbageCollect ops e thr = Some (e', None)" "inv e'" "mvcc_ok K (view e')"
    "\<And>k. k \<in> K \<Longrightarrow> versions (view e') k = gc_versions thr (versions (view e) k) \<and>
      meta_of (view e') k = (if dead thr (versions (view e) k) then zeroMetadata else meta_of (view e) k)"
    using MVCCGarbageCollect_view [OF assms] by blast
  have "MVCCGet ops e' k ts' opts = MVCCGet ops e k ts' opts"
    if k: "k \<in> K" and ts': "ts_valid ts'" and ni: "\<not> HasIntent (meta_of (view e) k)"
      and rd: "newest (view e) k \<le> ts' \<or> (\<exists>t \<in> dom (versions (view e) k). thr < t \<and> t \<le> ts')" for k ts' opts
  proof (cases "versions (view e) k = Map.empty")
    case True
    then have "gc_versions thr (versions (view e) k) = Map.empty" "\<not> dead thr (versions (view e) k)"
      by (auto simp: gc_versions_def dead_def)
    then show ?thesis using e'(4) [OF k] True by (intro MVCCGet_cong [OF assms(1,2) e'(2,3) assms(3) k ts']) simp_all
  next
    case False
    have fin: "finite (dom (versions (view e) k))" by (rule finite_versions [OF view_finite [OF assms(1)]])
    note mo = mvcc_okD(3) [OF assms(2) k]
    note nw = meta_ok_newest [OF mo fin False versions_ts_valid]
    have vis: "visible (gc_versions thr (versions (view e) k)) ts' = visible (versions (view e) k) ts'"
      using gc_visible_same [OF fin _ nw(2) rd] meta_okD(1) [OF mo] by blast
    have "newest (view e) k \<le> ts'" if "dead thr (versions (view e) k)"
      using that rd nw meta_okD(1) [OF mo] by (auto simp: dead_def)
    then have "read_conflict k ts' opts (meta_of (view e') k) = read_conflict k ts' opts (meta_of (view e) k)"
      using e'(4) [OF k] ni ts_valid_gt_zero [OF ts'] by (auto simp: read_conflict_def dest: leD)
    then show ?thesis using e'(4) [OF k] vis by (intro MVCCGet_cong [OF assms(1,2) e'(2,3) assms(3) k ts']) simp_all
  qed
  then show ?thesis using e'(1-3) by blast
qed

lemma gc_drops_visible:
  assumes "inv e" "mvcc_ok K (view e)" "keys_ok K" "k \<in> K" "ts_valid ts'" "ts' < newest (view e) k"
    and old: "\<forall>t \<in> dom (versions (view e) k). t \<le> ts' \<longrightarrow> t \<le> thr" and opts: "ro_MaxTimestamp opts = ts_zero"
    and gc: "MVCCGarbageCollect ops e thr = Some (e', None)"
  shows "MVCCGet ops e' k ts' opts = Inl ErrKeyNotFound"
proof -
  let ?vs = "versions (view e) k"
  have e': "inv e'" "mvcc_ok K (view e')" "versions (view e') k = gc_versions thr ?vs"
    "meta_of (view e') k = (if dead thr ?vs then zeroMetadata else meta_of (view e) k)"
    using MVCCGarbageCollect_view [OF assms(1-3), of thr] gc assms(4) by auto
  note mo = mvcc_okD(3) [OF assms(2,4)]
  have fin: "finite (dom ?vs)" by (rule finite_versions [OF view_finite [OF assms(1)]])
  have "newest (view e) k \<noteq> ts_zero" using assms(5,6) ts_valid_gt_zero by auto
  then have d: "newest (view e) k \<in> dom ?vs" by (rule meta_okD(2) [OF mo])
  have mx: "Max (dom ?vs) = newest (view e) k" by (rule Max_eqI) (use fin d meta_okD(1) [OF mo] in auto)
  have "read_at (gc_versions thr ?vs) ts' = None"
    by (rule read_at_None) (use old assms(6) in \<open>auto simp: gc_versions_def mx restrict_map_def domIff not_le split: if_splits\<close>)
  moreover have "read_conflict k ts' opts (meta_of (view e') k) = None"
    using e'(4) opts assms(6) meta_okD(3) [OF mo] by (auto simp: read_conflict_def)
  ultimately show ?thesis
    using MVCCGet_view [OF e'(1,2) assms(3-5)] e'(3) by (simp add: visible_def found_def)
qed

end

section \<open>Steps\<close>

datatype mvccOp =
    MPut bytes timestamp bytes "txnid option"
  | MDelete bytes timestamp "txnid option"
  | MResolve bytes txnid mvccTxnStatus timestamp
  | MPush bytes txnid timestamp
  | MGarbageCollect timestamp

fun mvcc_apply :: "('e, 'i) engine_ops \<Rightarrow> mvccOp \<Rightarrow> 'e \<Rightarrow> ('e \<times> error option) option" where
  "mvcc_apply ops (MPut k ts v txn) e = Some (MVCCPut ops e k ts v txn)"
| "mvcc_apply ops (MDelete k ts txn) e = Some (MVCCDelete ops e k ts txn)"
| "mvcc_apply ops (MResolve k T st c) e = Some (MVCCResolveWriteIntent ops e k T st c)"
| "mvcc_apply ops (MPush k T n) e = Some (MVCCPushIntent ops e k T n)"
| "mvcc_apply ops (MGarbageCollect thr) e = MVCCGarbageCollect ops e thr"

text \<open>
  How the transaction layer calls the operations: timestamps are positive, a transaction
  does not move its own intent back in time, and commits at or above its intent.
\<close>

fun op_ok :: "bytes set \<Rightarrow> (bytes \<rightharpoonup> bytes) \<Rightarrow> mvccOp \<Rightarrow> bool" where
  "op_ok K V (MPut k ts v txn) \<longleftrightarrow> k \<in> K \<and> ts_valid ts \<and> (HasIntent (meta_of V k) \<longrightarrow> newest V k \<le> ts)"
| "op_ok K V (MDelete k ts txn) \<longleftrightarrow> k \<in> K \<and> ts_valid ts \<and> (HasIntent (meta_of V k) \<longrightarrow> newest V k \<le> ts)"
| "op_ok K V (MResolve k T st c) \<longleftrightarrow> k \<in> K \<and> (st = TxnCommitted \<longrightarrow> ts_valid c \<and> newest V k \<le> c)"
| "op_ok K V (MPush k T n) \<longleftrightarrow> k \<in> K \<and> ts_valid n"
| "op_ok K V (MGarbageCollect thr) \<longleftrightarrow> True"

inductive mvcc_reach :: "('e, 'i) engine_ops \<Rightarrow> ('e \<Rightarrow> bytes \<rightharpoonup> bytes) \<Rightarrow> bytes set \<Rightarrow> 'e \<Rightarrow> 'e \<Rightarrow> bool" for ops view K e0 where
  mreach_init: "mvcc_reach ops view K e0 e0"
| mreach_step: "mvcc_reach ops view K e0 e \<Longrightarrow> op_ok K (view e) p \<Longrightarrow> mvcc_apply ops p e = Some (e', r) \<Longrightarrow>
    mvcc_reach ops view K e0 e'"

lemma no_conflict_newest:
  assumes "write_conflict k ts txn m = None" "ts_valid ts" "HasIntent m \<longrightarrow> m_Timestamp m \<le> ts"
  shows "m_Timestamp m \<le> ts"
  using assms ts_ok_ge_zero [of ts] by (auto simp: write_conflict_def ts_valid_def split: if_splits)

lemma meta_ok_move:
  assumes "meta_ok vs m" "HasIntent m" "m_Timestamp m \<le> c" "ts_valid c" "m_Timestamp m' = c" "m_Deleted m' = m_Deleted m"
    "HasIntent m' \<longrightarrow> m_TxnTimestamp m' = c"
  shows "meta_ok (vs(m_Timestamp m := None, c := vs (m_Timestamp m))) m'"
proof -
  have d: "m_Timestamp m \<in> dom vs" "m_Timestamp m \<noteq> ts_zero" using assms(1,2) by (auto simp: meta_ok_def)
  have "t \<le> c" if "t \<in> dom vs" for t using meta_okD(1) [OF assms(1) that] assms(3) by (rule order_trans)
  then show ?thesis using assms d by (auto simp: meta_ok_def split: if_splits)
qed

context storage_engine
begin

lemma intent_noop:
  assumes "inv e" "mvcc_ok K (view e)" "k \<in> K" "\<not> (HasIntent (meta_of (view e) k) \<and> m_Txn (meta_of (view e) k) = Some T)"
  shows "MVCCResolveWriteIntent ops e k T st c = (e, None)" and "MVCCPushIntent ops e k T n = (e, None)"
  using assms(4) mvcc_okD(2) [OF assms(2,3)]
  by (auto simp: MVCCResolveWriteIntent_def MVCCPushIntent_def Get [OF assms(1)] meta_at_def split: option.splits)

lemma resolve_keeps:
  assumes "inv e" "mvcc_ok K (view e)" "keys_ok K" "op_ok K (view e) (MResolve k T st c)"
  shows "\<exists>e' r. MVCCResolveWriteIntent ops e k T st c = (e', r) \<and> inv e' \<and> mvcc_ok K (view e')"
proof (cases "HasIntent (meta_of (view e) k) \<and> m_Txn (meta_of (view e) k) = Some T")
  case True
  then have i: "HasIntent (meta_of (view e) k)" "m_Txn (meta_of (view e) k) = Some T" and k: "k \<in> K" using assms(4) by auto
  note mo = mvcc_okD(3) [OF assms(2) k]
  show ?thesis
  proof (cases st)
    case TxnCommitted
    then have c: "ts_valid c" "newest (view e) k \<le> c" using assms(4) by auto
    from resolve_commit_view [OF assms(1-3) k c(1) i] obtain e' m' where
      e': "MVCCResolveWriteIntent ops e k T TxnCommitted c = (e', None)" "inv e'"
      "changed K k (view e) ((versions (view e) k)(newest (view e) k := None, c := versions (view e) k (newest (view e) k))) m' (view e')"
      "m_Timestamp m' = c" "m_Txn m' = None" "m_Deleted m' = m_Deleted (meta_of (view e) k)" by blast
    have "mvcc_ok K (view e')"
      by (rule changed_mvcc_ok [OF assms(2) e'(3)], rule meta_ok_move [OF mo i(1) c(2,1)]) (use e' in \<open>auto simp: HasIntent_Txn\<close>)
    then show ?thesis using e' TxnCommitted by blast
  next
    case TxnAborted
    then show ?thesis using resolve_abort_view [OF assms(1-3) k i, of c] changed_mvcc_ok [OF assms(2)] by blast
  next
    case (TxnStatus_other n)
    obtain b where "view e (EncodeMeta k) = Some b" "DecodeMetadata b = Inr (meta_of (view e) k)"
      using intent_entry [OF assms(2) k i(1)] by metis
    then show ?thesis using i assms(1,2) TxnStatus_other by (simp add: MVCCResolveWriteIntent_def Get)
  qed
qed (use intent_noop(1) [OF assms(1,2)] assms in auto)

lemma push_keeps:
  assumes "inv e" "mvcc_ok K (view e)" "keys_ok K" "op_ok K (view e) (MPush k T n)"
  shows "\<exists>e' r. MVCCPushIntent ops e k T n = (e', r) \<and> inv e' \<and> mvcc_ok K (view e')"
proof (cases "HasIntent (meta_of (view e) k) \<and> m_Txn (meta_of (view e) k) = Some T")
  case True
  then have i: "HasIntent (meta_of (view e) k)" "m_Txn (meta_of (view e) k) = Some T" and k: "k \<in> K" "ts_valid n" using assms(4) by auto
  note mo = mvcc_okD(3) [OF assms(2) k(1)]
  show ?thesis
  proof (cases "newest (view e) k < n")
    case True
    from push_view [OF assms(1-3) k True i] obtain e' m' where
      e': "MVCCPushIntent ops e k T n = (e', None)" "inv e'"
      "changed K k (view e) ((versions (view e) k)(newest (view e) k := None, n := versions (view e) k (newest (view e) k))) m' (view e')"
      "m_Timestamp m' = n" "m_TxnTimestamp m' = n" "m_Deleted m' = m_Deleted (meta_of (view e) k)" by blast
    have "mvcc_ok K (view e')"
      by (rule changed_mvcc_ok [OF assms(2) e'(3)], rule meta_ok_move [OF mo i(1) less_imp_le [OF True] k(2)]) (use e' in auto)
    then show ?thesis using e' by blast
  next
    case False
    obtain b where "view e (EncodeMeta k) = Some b" "DecodeMetadata b = Inr (meta_of (view e) k)"
      "m_TxnTimestamp (meta_of (view e) k) = newest (view e) k"
      using intent_entry [OF assms(2) k(1) i(1)] by metis
    then show ?thesis using i assms(1,2) False by (simp add: MVCCPushIntent_def Get not_less)
  qed
qed (use intent_noop(2) [OF assms(1,2)] assms in auto)

lemma write_keeps:
  assumes "inv e" "mvcc_ok K (view e)" "keys_ok K" "op_ok K (view e) (MPut k ts v txn)"
  shows "\<exists>e' r. MVCCPut ops e k ts v txn = (e', r) \<and> inv e' \<and> mvcc_ok K (view e')"
    and "\<exists>e' r. MVCCDelete ops e k ts txn = (e', r) \<and> inv e' \<and> mvcc_ok K (view e')"
proof -
  let ?wc = "write_conflict k ts txn (meta_of (view e) k)"
  have k: "k \<in> K" "ts_valid ts" using assms(4) by auto
  note put = MVCCPut_view [OF assms(1-3) k, where txn = txn and v = v]
    and del = MVCCDelete_view [OF assms(1-3) k, where txn = txn]
  have ok: "mvcc_ok K V'"
    if "changed K k (view e) ((versions (view e) k)(ts \<mapsto> raw)) m V'" "m_Timestamp m = ts" "m_Deleted m \<longleftrightarrow> live_value (Some raw) = None"
      "m_TxnTimestamp m = (if txn \<noteq> None then ts else ts_zero)" "m_Txn m = txn" "?wc = None" for raw m V'
    by (rule changed_mvcc_ok [OF assms(2) that(1)], rule meta_ok_write [OF mvcc_okD(3) [OF assms(2) k(1)] no_conflict_newest [OF that(6) k(2)] k(2)])
      (use that assms(4) in \<open>auto simp: HasIntent_Txn\<close>)
  show "\<exists>e' r. MVCCPut ops e k ts v txn = (e', r) \<and> inv e' \<and> mvcc_ok K (view e')"
    using put assms(1,2) ok [where raw = "encodeMVCCValue v"] by (cases ?wc) fastforce+
  show "\<exists>e' r. MVCCDelete ops e k ts txn = (e', r) \<and> inv e' \<and> mvcc_ok K (view e')"
    using del assms(1,2) ok [where raw = encodeMVCCTombstone] by (cases ?wc) fastforce+
qed

lemma apply_keeps:
  assumes "inv e" "mvcc_ok K (view e)" "keys_ok K" "op_ok K (view e) p"
  shows "\<exists>e' r. mvcc_apply ops p e = Some (e', r) \<and> inv e' \<and> mvcc_ok K (view e')"
proof (cases p)
  case (MPut k ts v txn)
  then show ?thesis using write_keeps(1) [OF assms(1-3)] assms(4) by auto
next
  case (MDelete k ts txn)
  then have "op_ok K (view e) (MPut k ts [] txn)" using assms(4) by auto
  then show ?thesis using write_keeps(2) [OF assms(1-3)] MDelete by auto
next
  case (MResolve k T st c)
  then show ?thesis using resolve_keeps [OF assms(1-3)] assms(4) by auto
next
  case (MPush k T n)
  then show ?thesis using push_keeps [OF assms(1-3)] assms(4) by auto
next
  case (MGarbageCollect thr)
  then show ?thesis using MVCCGarbageCollect_view [OF assms(1-3), of thr] by auto
qed

lemma reach_keeps:
  assumes "mvcc_reach ops view K e0 e" "inv e0" "mvcc_ok K (view e0)" "keys_ok K"
  shows "inv e \<and> mvcc_ok K (view e)"
  using assms
proof (induction rule: mvcc_reach.induct)
  case (mreach_step e p e' r)
  then show ?case using apply_keeps [of e K p] by auto
qed simp

end

lemma mvcc_ok_empty: "mvcc_ok K Map.empty"
  by (simp add: mvcc_ok_def store_ok_def coherent_def meta_at_def meta_ok_def versions_def)

section \<open>Properties\<close>

text \<open>(C2) \<open>MVCCGet\<close> on the LSM engine returns the newest version at or below the read timestamp
  (a tombstone reads as not found), unless another transaction's intent lies at or below the
  timestamp or the newest version lies in the reader's uncertainty window.
\<close>

theorem mvcc_get_newest_version:
  assumes "lsm_inv env e" "mvcc_ok K (lsm_view e)" "keys_ok K" "k \<in> K" "ts_valid ts"
  shows "MVCCGet (lsm_engine env) e k ts opts =
     (case read_conflict k ts opts (meta_of (lsm_view e) k) of
        Some err \<Rightarrow> Inl err
      | None \<Rightarrow> found (visible (versions (lsm_view e) k) ts))"
  using assms by (rule lsm_eng.MVCCGet_view)





text \<open>(C18) Committing an intent at or above its timestamp makes the value visible to every reader from
  the commit timestamp on, and to no earlier reader.
\<close>

theorem mvcc_commit_visible:
  assumes "lsm_inv env e" "mvcc_ok K (lsm_view e)" "keys_ok K" "k \<in> K" "ts_valid ts" "\<not> HasIntent (meta_of (lsm_view e) k)"
    "T \<noteq> 0" and "MVCCPut (lsm_engine env) e k ts v (Some T) = (e1, None)" and "ts_valid c" "ts \<le> c"
  shows "\<exists>e2. MVCCResolveWriteIntent (lsm_engine env) e1 k T TxnCommitted c = (e2, None) \<and> lsm_inv env e2 \<and> mvcc_ok K (lsm_view e2) \<and>
    (\<forall>k' \<in> K. \<forall>ts' opts. ts_valid ts' \<and> ro_MaxTimestamp opts = ts_zero \<longrightarrow>
       MVCCGet (lsm_engine env) e2 k' ts' opts = (if k' = k \<and> c \<le> ts' then Inr v else MVCCGet (lsm_engine env) e k' ts' opts))"
  using assms by (rule lsm_eng.commit_visible)

text \<open>(C20) A reader blocked by an intent reads what it would have read before the write, once the
  intent is pushed above its timestamp; readers at the pushed timestamp are still blocked.
\<close>

theorem mvcc_push_unblocks:
  assumes "lsm_inv env e" "mvcc_ok K (lsm_view e)" "keys_ok K" "k \<in> K" "ts_valid ts" "\<not> HasIntent (meta_of (lsm_view e) k)"
    "T \<noteq> 0" and "MVCCPut (lsm_engine env) e k ts v (Some T) = (e1, None)" and "ts_valid n" "ts < n"
    and "ts_valid ts'" "ts \<le> ts'" "ts' < n" "ro_Txn opts \<noteq> Some T" "ro_MaxTimestamp opts = ts_zero"
  shows "MVCCGet (lsm_engine env) e1 k ts' opts = Inl (WriteIntentError k T ts) \<and>
    (\<exists>e2. MVCCPushIntent (lsm_engine env) e1 k T n = (e2, None) \<and> lsm_inv env e2 \<and> mvcc_ok K (lsm_view e2) \<and>
       MVCCGet (lsm_engine env) e2 k ts' opts = MVCCGet (lsm_engine env) e k ts' opts \<and>
       MVCCGet (lsm_engine env) e2 k n opts = Inl (WriteIntentError k T n))"
  using assms by (rule lsm_eng.push_unblocks)

text \<open>(C10) \<open>MVCCScan\<close> returns, and equals one \<open>MVCCGet\<close> per stored key of the range in key order: the
  values found, or the first error other than not found.
\<close>

theorem mvcc_scan_is_gets:
  assumes "lsm_inv env e" "store_ok K (lsm_view e)" "keys_ok K"
  shows "MVCCScan (lsm_engine env) e start endk ts opts =
    Some (scan_gets (\<lambda>k. MVCCGet (lsm_engine env) e k ts opts)
      (filter (\<lambda>k. start \<le> k \<and> below endk k) (stored_keys K (lsm_view e))))"
  using assms by (rule lsm_eng.MVCCScan_eq)

text \<open>(C21) Garbage collection returns without error, keeps the invariant, and keeps every read of a key
  without an intent that sees the newest version or a version above the threshold.
\<close>

theorem mvcc_gc_keeps_reads:
  assumes "lsm_inv env e" "mvcc_ok K (lsm_view e)" "keys_ok K"
  shows "\<exists>e'. MVCCGarbageCollect (lsm_engine env) e thr = Some (e', None) \<and> lsm_inv env e' \<and> mvcc_ok K (lsm_view e') \<and>
    (\<forall>k \<in> K. \<forall>ts' opts. ts_valid ts' \<and> \<not> HasIntent (meta_of (lsm_view e) k) \<and>
       (newest (lsm_view e) k \<le> ts' \<or> (\<exists>t \<in> dom (versions (lsm_view e) k). thr < t \<and> t \<le> ts')) \<longrightarrow>
       MVCCGet (lsm_engine env) e' k ts' opts = MVCCGet (lsm_engine env) e k ts' opts)"
  using assms by (rule lsm_eng.gc_keeps_reads)

text \<open>(C36) Garbage collection drops a version that readers above the threshold still need: a read at
  a timestamp between the threshold and the newest version finds nothing afterwards.
\<close>

theorem mvcc_gc_drops_needed_version:
  assumes "lsm_inv env e" "mvcc_ok K (lsm_view e)" "keys_ok K" "k \<in> K" "ts_valid ts'" "ts' < newest (lsm_view e) k"
    and "\<forall>t \<in> dom (versions (lsm_view e) k). t \<le> ts' \<longrightarrow> t \<le> thr" and "ro_MaxTimestamp opts = ts_zero"
    and "MVCCGarbageCollect (lsm_engine env) e thr = Some (e', None)"
  shows "MVCCGet (lsm_engine env) e' k ts' opts = Inl ErrKeyNotFound"
  using assms by (rule lsm_eng.gc_drops_visible)

text \<open>(C35) A transaction that writes a key twice, the second time at a later timestamp, and aborts
  leaves its first value behind for every reader: the first version is not an intent any more.
\<close>

theorem mvcc_abort_exposes_first_write:
  assumes "lsm_inv env e" "mvcc_ok K (lsm_view e)" "keys_ok K" "k \<in> K" "ts_valid ts" "\<not> HasIntent (meta_of (lsm_view e) k)"
    "T \<noteq> 0" and "MVCCPut (lsm_engine env) e k ts v (Some T) = (e1, None)" and "ts_valid ts2" "ts < ts2"
    and "MVCCPut (lsm_engine env) e1 k ts2 v2 (Some T) = (e2, None)"
    and "ts_valid ts'" "ts \<le> ts'" "ro_MaxTimestamp opts = ts_zero"
  shows "\<exists>e3. MVCCResolveWriteIntent (lsm_engine env) e2 k T TxnAborted c = (e3, None) \<and>
    MVCCGet (lsm_engine env) e3 k ts' opts = Inr v"
  using assms by (rule lsm_eng.abort_exposes_first_write)

section \<open>Concrete runs\<close>

abbreviation wts1 :: timestamp where "wts1 \<equiv> Timestamp 1 0"
abbreviation wts2 :: timestamp where "wts2 \<equiv> Timestamp 2 0"
abbreviation wts3 :: timestamp where "wts3 \<equiv> Timestamp 3 0"

definition reader0 :: readOptions where
  "reader0 = \<lparr>ro_Txn = None, ro_MaxTimestamp = ts_zero\<rparr>"

lemma reader0_sel [simp]: "ro_Txn reader0 = None" "ro_MaxTimestamp reader0 = ts_zero"
  by (simp_all add: reader0_def)

lemma t_valid [simp]: "ts_valid wts1" "ts_valid wts2" "ts_valid wts3"
  by (simp_all add: ts_valid_def ts_ok_def)

lemma t_less [simp]: "wts1 < wts2" "wts2 < wts3" "wts1 < wts3" "\<not> wts2 \<le> wts1" "\<not> wts3 \<le> wts2" "\<not> wts3 \<le> wts1" "wts1 \<le> wts2" "wts2 \<le> wts3" "wts1 \<le> wts3"
  unfolding less_timestamp_def less_eq_timestamp_def ts_Less_iff ts_LessEq_iff by simp_all

lemma keys0: "keys_ok {[1]}"
  by (simp add: keys_ok_def key_ok_def EncodeMeta_def)

lemma engine0_ok: "lsm_inv env0 engine0" "lsm_view engine0 = Map.empty" "mvcc_ok K (lsm_view engine0)"
  using engine0_empty mvcc_ok_empty by simp_all

lemma engine0_meta [simp]: "meta_of (lsm_view engine0) k = zeroMetadata" "versions (lsm_view engine0) k = Map.empty"
  by (simp_all add: engine0_ok(2) meta_of_def meta_at_def versions_def)

lemma ts_zero_le [simp]: "ts_zero \<le> wts1" "ts_zero \<le> wts2"
  using ts_ok_ge_zero [of wts1] ts_ok_ge_zero [of wts2] by (simp_all add: ts_ok_def)

text \<open>One put on the empty engine.\<close>

lemma put0:
  obtains e m where "MVCCPut (lsm_engine env0) engine0 [1] wts1 [7] txn = (e, None)" and "lsm_inv env0 e" and "mvcc_ok {[1]} (lsm_view e)"
    and "versions (lsm_view e) [1] = [wts1 \<mapsto> encodeMVCCValue [7]]" and "meta_of (lsm_view e) [1] = m"
    and "m_Timestamp m = wts1" and "m_Txn m = txn"
proof -
  have "write_conflict [1] wts1 txn zeroMetadata = None" by (simp add: write_conflict_def)
  then obtain e where e: "MVCCPut (lsm_engine env0) engine0 [1] wts1 [7] txn = (e, None)"
    using lsm_eng.MVCCPut_view [OF engine0_ok(1) engine0_ok(3) keys0, where k = "[1]" and ts = wts1 and txn = txn and v = "[7]"]
    by auto
  obtain m where "lsm_inv env0 e" "mvcc_ok {[1]} (lsm_view e)" "m_Timestamp m = wts1" "m_Txn m = txn"
    "changed {[1]} [1] (lsm_view engine0) ((versions (lsm_view engine0) [1])(wts1 \<mapsto> encodeMVCCValue [7])) m (lsm_view e)"
    by (rule lsm_eng.MVCCPut_ok [OF engine0_ok(1) engine0_ok(3) keys0 _ _ _ e]) auto
  moreover from this(5) have "versions (lsm_view e) [1] = [wts1 \<mapsto> encodeMVCCValue [7]]" "meta_of (lsm_view e) [1] = m"
    by (auto simp: changed_def meta_of_def)
  ultimately show thesis using that e by blast
qed

lemma visible0: "visible [wts1 \<mapsto> encodeMVCCValue [7]] wts1 = Some [7]" "visible [wts1 \<mapsto> encodeMVCCValue [7]] wts2 = Some [7]"
  using visible_upd [of Map.empty wts1 "[7]"] by simp_all

theorem mvcc_get_newest_version_witness:
  "\<exists>e. MVCCPut (lsm_engine env0) engine0 [1] wts1 [7] None = (e, None) \<and> MVCCGet (lsm_engine env0) e [1] wts2 reader0 = Inr [7]"
proof -
  obtain e m where e: "MVCCPut (lsm_engine env0) engine0 [1] wts1 [7] None = (e, None)" "lsm_inv env0 e" "mvcc_ok {[1]} (lsm_view e)"
    "versions (lsm_view e) [1] = [wts1 \<mapsto> encodeMVCCValue [7]]" "meta_of (lsm_view e) [1] = m" "m_Txn m = None"
    by (rule put0)
  from mvcc_get_newest_version [OF e(2,3) keys0, of "[1]" wts2 reader0] e show ?thesis
    by (auto simp: read_conflict_own HasIntent_Txn visible0 found_def)
qed





theorem mvcc_commit_visible_witness:
  "\<exists>e1 e2. MVCCPut (lsm_engine env0) engine0 [1] wts1 [7] (Some 5) = (e1, None) \<and>
     MVCCResolveWriteIntent (lsm_engine env0) e1 [1] 5 TxnCommitted wts2 = (e2, None) \<and>
     MVCCGet (lsm_engine env0) e2 [1] wts3 reader0 = Inr [7]"
proof -
  obtain e1 where e1: "MVCCPut (lsm_engine env0) engine0 [1] wts1 [7] (Some 5) = (e1, None)" using put0 by metis
  from mvcc_commit_visible [OF engine0_ok(1) engine0_ok(3) keys0 _ _ _ _ e1, of wts2] e1 show ?thesis by fastforce
qed

theorem mvcc_push_unblocks_witness:
  "\<exists>e1 e2. MVCCPut (lsm_engine env0) engine0 [1] wts1 [7] (Some 5) = (e1, None) \<and>
     MVCCGet (lsm_engine env0) e1 [1] wts2 reader0 = Inl (WriteIntentError [1] 5 wts1) \<and>
     MVCCPushIntent (lsm_engine env0) e1 [1] 5 wts3 = (e2, None) \<and>
     MVCCGet (lsm_engine env0) e2 [1] wts2 reader0 = MVCCGet (lsm_engine env0) engine0 [1] wts2 reader0"
proof -
  obtain e1 where e1: "MVCCPut (lsm_engine env0) engine0 [1] wts1 [7] (Some 5) = (e1, None)" using put0 by metis
  from mvcc_push_unblocks [OF engine0_ok(1) engine0_ok(3) keys0 _ _ _ _ e1, of wts3 wts2 reader0] e1 show ?thesis by auto
qed

theorem mvcc_scan_is_gets_witness:
  "MVCCScan (lsm_engine env0) engine0 [] None wts1 reader0 = Some (Inr [])"
proof -
  have "store_ok {[1]} (lsm_view engine0)" by (rule mvcc_okD(1) [OF engine0_ok(3)])
  from mvcc_scan_is_gets [OF engine0_ok(1) this keys0, of "[]" None wts1 reader0] show ?thesis
    by (simp add: stored_keys_def engine0_ok(2))
qed

theorem mvcc_gc_keeps_reads_witness:
  "\<exists>e e'. MVCCPut (lsm_engine env0) engine0 [1] wts1 [7] None = (e, None) \<and>
     MVCCGarbageCollect (lsm_engine env0) e wts2 = Some (e', None) \<and>
     MVCCGet (lsm_engine env0) e' [1] wts3 reader0 = MVCCGet (lsm_engine env0) e [1] wts3 reader0"
proof -
  obtain e m where e: "MVCCPut (lsm_engine env0) engine0 [1] wts1 [7] None = (e, None)" "lsm_inv env0 e" "mvcc_ok {[1]} (lsm_view e)"
    "meta_of (lsm_view e) [1] = m" "m_Timestamp m = wts1" "m_Txn m = None"
    by (rule put0)
  from mvcc_gc_keeps_reads [OF e(2,3) keys0, of wts2] e show ?thesis by (fastforce simp: HasIntent_Txn)
qed

text \<open>A second put on top of the first.\<close>

lemma put_again:
  assumes "lsm_inv env0 e" "mvcc_ok {[1]} (lsm_view e)" "m_Timestamp (meta_of (lsm_view e) [1]) = wts1" "m_Txn (meta_of (lsm_view e) [1]) = txn"
  obtains e2 m where "MVCCPut (lsm_engine env0) e [1] wts3 [8] txn = (e2, None)" and "lsm_inv env0 e2" and "mvcc_ok {[1]} (lsm_view e2)"
    and "versions (lsm_view e2) [1] = (versions (lsm_view e) [1])(wts3 \<mapsto> encodeMVCCValue [8])" and "meta_of (lsm_view e2) [1] = m"
    and "m_Timestamp m = wts3" and "m_Txn m = txn"
proof -
  have "write_conflict [1] wts3 txn (meta_of (lsm_view e) [1]) = None"
    using assms(3,4) by (auto simp: write_conflict_def ownIntent_def HasIntent_Txn)
  then obtain e2 where e2: "MVCCPut (lsm_engine env0) e [1] wts3 [8] txn = (e2, None)"
    using lsm_eng.MVCCPut_view [OF assms(1,2) keys0, where k = "[1]" and ts = wts3 and txn = txn and v = "[8]"] by auto
  obtain m where "lsm_inv env0 e2" "mvcc_ok {[1]} (lsm_view e2)" "m_Timestamp m = wts3" "m_Txn m = txn"
    "changed {[1]} [1] (lsm_view e) ((versions (lsm_view e) [1])(wts3 \<mapsto> encodeMVCCValue [8])) m (lsm_view e2)"
    by (rule lsm_eng.MVCCPut_ok [OF assms(1,2) keys0 _ _ _ e2]) (use assms(3) in auto)
  moreover from this(5) have "versions (lsm_view e2) [1] = (versions (lsm_view e) [1])(wts3 \<mapsto> encodeMVCCValue [8])" "meta_of (lsm_view e2) [1] = m"
    by (auto simp: changed_def meta_of_def)
  ultimately show thesis using that e2 by blast
qed

theorem mvcc_gc_drops_needed_version_witness:
  "\<exists>e e'. lsm_inv env0 e \<and> visible (versions (lsm_view e) [1]) wts2 = Some [7] \<and>
     MVCCGarbageCollect (lsm_engine env0) e wts2 = Some (e', None) \<and>
     MVCCGet (lsm_engine env0) e' [1] wts2 reader0 = Inl ErrKeyNotFound"
proof -
  obtain e1 m where e1: "MVCCPut (lsm_engine env0) engine0 [1] wts1 [7] None = (e1, None)" "lsm_inv env0 e1" "mvcc_ok {[1]} (lsm_view e1)"
    "versions (lsm_view e1) [1] = [wts1 \<mapsto> encodeMVCCValue [7]]" "meta_of (lsm_view e1) [1] = m" "m_Timestamp m = wts1" "m_Txn m = None"
    by (rule put0)
  obtain e m2 where e: "lsm_inv env0 e" "mvcc_ok {[1]} (lsm_view e)"
    "versions (lsm_view e) [1] = (versions (lsm_view e1) [1])(wts3 \<mapsto> encodeMVCCValue [8])" "meta_of (lsm_view e) [1] = m2" "m_Timestamp m2 = wts3"
    by (rule put_again [OF e1(2,3)]) (use e1 in auto)
  have "read_at (versions (lsm_view e) [1]) wts2 = read_at (versions (lsm_view e1) [1]) wts2"
    unfolding e(3) by (rule read_at_upd_above) (simp_all add: e1(4))
  then have vis: "visible (versions (lsm_view e) [1]) wts2 = Some [7]" using visible0(2) e1(4) by (simp add: visible_def)
  obtain e' where gc: "MVCCGarbageCollect (lsm_engine env0) e wts2 = Some (e', None)"
    using lsm_eng.MVCCGarbageCollect_view [OF e(1,2) keys0] by blast
  from mvcc_gc_drops_needed_version [OF e(1,2) keys0 _ _ _ _ _ gc, of "[1]" wts2 reader0] e gc vis show ?thesis by auto
qed

theorem mvcc_abort_exposes_first_write_witness:
  "\<exists>e1 e2 e3. MVCCPut (lsm_engine env0) engine0 [1] wts1 [7] (Some 5) = (e1, None) \<and>
     MVCCPut (lsm_engine env0) e1 [1] wts3 [8] (Some 5) = (e2, None) \<and>
     MVCCResolveWriteIntent (lsm_engine env0) e2 [1] 5 TxnAborted wts3 = (e3, None) \<and>
     MVCCGet (lsm_engine env0) e3 [1] wts2 reader0 = Inr [7]"
proof -
  obtain e1 m where e1: "MVCCPut (lsm_engine env0) engine0 [1] wts1 [7] (Some 5) = (e1, None)" "lsm_inv env0 e1" "mvcc_ok {[1]} (lsm_view e1)"
    "meta_of (lsm_view e1) [1] = m" "m_Timestamp m = wts1" "m_Txn m = Some 5"
    by (rule put0)
  obtain e2 where e2: "MVCCPut (lsm_engine env0) e1 [1] wts3 [8] (Some 5) = (e2, None)"
    by (rule put_again [OF e1(2,3)]) (use e1 in auto)
  from mvcc_abort_exposes_first_write [OF engine0_ok(1) engine0_ok(3) keys0 _ _ _ _ e1(1) _ _ e2, of wts2 reader0 wts3] e1(1) e2
  show ?thesis by auto
qed

end
