(* ===== verification/Raft_Log.thy ===== *)
theory Raft_Log
  imports Storage "HOL-Library.Monad_Syntax"
begin

text \<open>
  The messages and the log of a Raft node (\<open>internal/raft/message.go\<close>, \<open>log.go\<close>). Indices and
  terms are 64-bit words, so \<open>next - 1\<close> and \<open>stableMax + 1\<close> wrap as in Go. A slice access out
  of range panics: the functions that index a slice return \<open>None\<close> then. The stable log is behind
  the interface \<open>LogStorage\<close>, a record of functions on the state of the storage.
\<close>

section \<open>Messages\<close>

datatype stateType = StateFollower | StateCandidate | StateLeader | StatePreCandidate

datatype messageType =
    MsgHup | MsgBeat | MsgVote | MsgVoteResp | MsgApp | MsgAppResp | MsgHeartbeat
  | MsgHeartbeatResp | MsgProp | MsgSnap | MsgPreVote | MsgPreVoteResp

record snapshotMetadata =
  sm_Index :: u64
  sm_Term :: u64

record snapshot =
  s_Metadata :: snapshotMetadata
  s_Data :: bytes

definition zeroSnapshot :: snapshot where
  "zeroSnapshot = \<lparr>s_Metadata = \<lparr>sm_Index = 0, sm_Term = 0\<rparr>, s_Data = []\<rparr>"

abbreviation s_Index :: "snapshot \<Rightarrow> u64" where "s_Index s \<equiv> sm_Index (s_Metadata s)"
abbreviation s_Term :: "snapshot \<Rightarrow> u64" where "s_Term s \<equiv> sm_Term (s_Metadata s)"

definition snapshot_IsEmpty :: "snapshot \<Rightarrow> bool" where
  "snapshot_IsEmpty s \<longleftrightarrow> s_Index s = 0"

text \<open>A log entry; no data (Go's nil) marks the entry a new leader writes.\<close>

record raftEntry =
  e_Term :: u64
  e_Index :: u64
  e_Data :: "bytes option"

record message =
  msg_Type :: messageType
  msg_To :: u64
  msg_From :: u64
  msg_Term :: u64
  msg_LogTerm :: u64
  msg_Index :: u64
  msg_Entries :: "raftEntry list"
  msg_Commit :: u64
  msg_Reject :: bool
  msg_RejectHint :: u64
  msg_Snapshot :: snapshot

definition zeroMessage :: "messageType \<Rightarrow> message" where
  "zeroMessage t = \<lparr>msg_Type = t, msg_To = 0, msg_From = 0, msg_Term = 0, msg_LogTerm = 0, msg_Index = 0,
     msg_Entries = [], msg_Commit = 0, msg_Reject = False, msg_RejectHint = 0, msg_Snapshot = zeroSnapshot\<rparr>"

record hardState =
  hs_Term :: u64
  hs_VotedFor :: u64
  hs_Commit :: u64

definition zeroHardState :: hardState where
  "zeroHardState = \<lparr>hs_Term = 0, hs_VotedFor = 0, hs_Commit = 0\<rparr>"

definition IsEmptyHardState :: "hardState \<Rightarrow> bool" where
  "IsEmptyHardState hs \<longleftrightarrow> hs_Term hs = 0 \<and> hs_VotedFor hs = 0 \<and> hs_Commit hs = 0"

record softState =
  ss_Lead :: u64
  ss_RaftState :: stateType

record ready =
  rd_SoftState :: "softState option"
  rd_HardState :: hardState
  rd_Snapshot :: snapshot
  rd_Entries :: "raftEntry list"
  rd_Messages :: "message list"
  rd_CommittedEntries :: "raftEntry list"

section \<open>Stable storage\<close>

record 's log_storage =
  ls_InitialState :: "'s \<Rightarrow> hardState result"
  ls_FirstIndex :: "'s \<Rightarrow> u64 result"
  ls_LastIndex :: "'s \<Rightarrow> u64 result"
  ls_Term :: "'s \<Rightarrow> u64 \<Rightarrow> u64 result"
  ls_Entries :: "'s \<Rightarrow> u64 \<Rightarrow> u64 \<Rightarrow> raftEntry list result option"
  ls_AppendEntries :: "'s \<Rightarrow> raftEntry list \<Rightarrow> 's \<times> error option"
  ls_SaveHardState :: "'s \<Rightarrow> hardState \<Rightarrow> 's \<times> error option"
  ls_SaveApplied :: "'s \<Rightarrow> u64 \<Rightarrow> 's \<times> error option"
  ls_LoadApplied :: "'s \<Rightarrow> u64 result"
  ls_Snapshot :: "'s \<Rightarrow> snapshot result"
  ls_SaveSnapshot :: "'s \<Rightarrow> snapshot \<Rightarrow> 's \<times> error option"
  ls_Compact :: "'s \<Rightarrow> u64 \<Rightarrow> 's \<times> error option"

text \<open>\<open>v, _ := f()\<close>: the value, or zero when there is an error.\<close>

definition or_zero :: "u64 result \<Rightarrow> u64" where
  "or_zero r = (case r of Inr v \<Rightarrow> v | Inl _ \<Rightarrow> 0)"

text \<open>Slice accesses that panic out of range.\<close>

definition slice_at :: "'a list \<Rightarrow> nat \<Rightarrow> 'a option" where
  "slice_at xs i = (if i < length xs then Some (xs ! i) else None)"

definition slice :: "'a list \<Rightarrow> int \<Rightarrow> int \<Rightarrow> 'a list option" where
  "slice xs lo hi = (if 0 \<le> lo \<and> lo \<le> hi \<and> hi \<le> int (length xs) then Some (take (nat (hi - lo)) (drop (nat lo) xs)) else None)"

section \<open>The log\<close>

record 's raftLog =
  l_storage :: 's
  l_unstable :: "raftEntry list"
  l_offset :: u64
  l_committed :: u64
  l_applied :: u64
  l_pendingSnapshot :: snapshot

definition newRaftLog :: "'s log_storage \<Rightarrow> 's \<Rightarrow> 's raftLog" where
  "newRaftLog ls storage =
     (let lastIdx = or_zero (ls_LastIndex ls storage);
          firstIdx = (case ls_FirstIndex ls storage of Inr v \<Rightarrow> v | Inl _ \<Rightarrow> 1);
          floor = firstIdx - 1;
          committed = (case ls_InitialState ls storage of
                         Inr hs \<Rightarrow> if hs_Commit hs > floor \<and> hs_Commit hs \<le> lastIdx then hs_Commit hs else floor
                       | Inl _ \<Rightarrow> floor)
      in \<lparr>l_storage = storage, l_unstable = [], l_offset = lastIdx, l_committed = committed, l_applied = floor,
          l_pendingSnapshot = zeroSnapshot\<rparr>)"

definition log_firstIndex :: "'s log_storage \<Rightarrow> 's raftLog \<Rightarrow> u64" where
  "log_firstIndex ls l = or_zero (ls_FirstIndex ls (l_storage l))"

definition hasPendingSnapshot :: "'s raftLog \<Rightarrow> bool" where
  "hasPendingSnapshot l \<longleftrightarrow> \<not> snapshot_IsEmpty (l_pendingSnapshot l)"

definition log_restore :: "'s raftLog \<Rightarrow> snapshot \<Rightarrow> bool \<times> 's raftLog" where
  "log_restore l snap =
     (if s_Index snap \<le> l_committed l then (False, l)
      else (True, l\<lparr>l_pendingSnapshot := snap, l_committed := s_Index snap,
                    l_applied := (if l_applied l < s_Index snap then s_Index snap else l_applied l),
                    l_unstable := dropWhile (\<lambda>e. e_Index e \<le> s_Index snap) (l_unstable l),
                    l_offset := (if l_offset l < s_Index snap then s_Index snap else l_offset l)\<rparr>))"

definition log_lastIndex :: "'s log_storage \<Rightarrow> 's raftLog \<Rightarrow> u64" where
  "log_lastIndex ls l =
     (if l_unstable l \<noteq> [] then e_Index (last (l_unstable l))
      else (let idx = or_zero (ls_LastIndex ls (l_storage l))
            in if s_Index (l_pendingSnapshot l) > idx then s_Index (l_pendingSnapshot l) else idx))"

definition log_term :: "'s log_storage \<Rightarrow> 's raftLog \<Rightarrow> u64 \<Rightarrow> u64 result option" where
  "log_term ls l index =
     (if index = 0 then Some (Inr 0)
      else if l_unstable l \<noteq> [] \<and> e_Index (hd (l_unstable l)) \<le> index \<and> index \<le> e_Index (last (l_unstable l))
      then map_option (\<lambda>e. Inr (e_Term e)) (slice_at (l_unstable l) (unat (index - e_Index (hd (l_unstable l)))))
      else if \<not> snapshot_IsEmpty (l_pendingSnapshot l) \<and> index = s_Index (l_pendingSnapshot l)
      then Some (Inr (s_Term (l_pendingSnapshot l)))
      else Some (ls_Term ls (l_storage l) index))"

definition log_lastTerm :: "'s log_storage \<Rightarrow> 's raftLog \<Rightarrow> u64 option" where
  "log_lastTerm ls l = map_option or_zero (log_term ls l (log_lastIndex ls l))"

definition log_append :: "'s raftLog \<Rightarrow> raftEntry list \<Rightarrow> 's raftLog" where
  "log_append l ents =
     (if ents = [] then l
      else (let first = e_Index (hd ents);
                kept = (if l_unstable l \<noteq> [] \<and> first \<le> e_Index (last (l_unstable l)) then
                          (let cutAt = sint (first - e_Index (hd (l_unstable l)));
                               cutAt = (if cutAt < 0 then 0 else cutAt)
                           in if cutAt \<le> int (length (l_unstable l)) then take (nat cutAt) (l_unstable l) else l_unstable l)
                        else l_unstable l)
            in l\<lparr>l_unstable := kept @ ents\<rparr>))"

definition log_entries :: "'s log_storage \<Rightarrow> 's raftLog \<Rightarrow> u64 \<Rightarrow> u64 \<Rightarrow> raftEntry list option" where
  "log_entries ls l lo hi =
     (if lo \<ge> hi then Some []
      else
        (let stableMax = or_zero (ls_LastIndex ls (l_storage l));
             hiStable = (if hi > stableMax + 1 then stableMax + 1 else hi);
             stable = (if lo \<le> stableMax then ls_Entries ls (l_storage l) lo hiStable else Some (Inr []));
             lo' = (if lo \<le> stableMax then stableMax + 1 else lo)
         in case stable of
              None \<Rightarrow> None
            | Some (Inl _) \<Rightarrow> Some []
            | Some (Inr result) \<Rightarrow>
                if lo' < hi \<and> l_unstable l \<noteq> [] then
                  (let first = e_Index (hd (l_unstable l)); last = e_Index (last (l_unstable l))
                   in if lo' \<le> last \<and> hi > first then
                        (let startOff = sint (lo' - first);
                             startOff = (if startOff < 0 then 0 else startOff);
                             endOff = sint (hi - first);
                             endOff = (if endOff > int (length (l_unstable l)) then int (length (l_unstable l)) else endOff)
                         in map_option ((@) result) (slice (l_unstable l) startOff endOff))
                      else Some result)
                else Some result))"

definition log_commitTo :: "'s raftLog \<Rightarrow> u64 \<Rightarrow> 's raftLog" where
  "log_commitTo l index = (if index > l_committed l then l\<lparr>l_committed := index\<rparr> else l)"

definition log_appliedTo :: "'s raftLog \<Rightarrow> u64 \<Rightarrow> 's raftLog option" where
  "log_appliedTo l index =
     (if index > l_committed l then None
      else Some (if index > l_applied l then l\<lparr>l_applied := index\<rparr> else l))"

definition log_nextEntries :: "'s log_storage \<Rightarrow> 's raftLog \<Rightarrow> raftEntry list option" where
  "log_nextEntries ls l =
     (if l_committed l \<ge> l_applied l + 1 then log_entries ls l (l_applied l + 1) (l_committed l + 1) else Some [])"

definition log_unstableEntries :: "'s raftLog \<Rightarrow> raftEntry list" where
  "log_unstableEntries l = l_unstable l"

definition log_stableTo :: "'s raftLog \<Rightarrow> u64 \<Rightarrow> u64 \<Rightarrow> 's raftLog option" where
  "log_stableTo l index term =
     (if l_unstable l = [] then Some l
      else (let first = e_Index (hd (l_unstable l))
            in if index < first then Some l
               else (case slice_at (l_unstable l) (unat (index - first)) of
                       None \<Rightarrow> None
                     | Some e \<Rightarrow>
                         if e_Term e \<noteq> term then Some l
                         else Some (l\<lparr>l_unstable := drop (unat (index - first) + 1) (l_unstable l), l_offset := index\<rparr>))))"

definition log_isUpToDate :: "'s log_storage \<Rightarrow> 's raftLog \<Rightarrow> u64 \<Rightarrow> u64 \<Rightarrow> bool option" where
  "log_isUpToDate ls l lastIndex lastTerm =
     (case log_lastTerm ls l of
        None \<Rightarrow> None
      | Some myTerm \<Rightarrow>
          Some (if lastTerm \<noteq> myTerm then lastTerm > myTerm else lastIndex \<ge> log_lastIndex ls l))"

definition log_maybeCommit :: "'s log_storage \<Rightarrow> 's raftLog \<Rightarrow> u64 \<Rightarrow> u64 \<Rightarrow> (bool \<times> 's raftLog) option" where
  "log_maybeCommit ls l maxIndex term =
     (if maxIndex > l_committed l then
        (case log_term ls l maxIndex of
           None \<Rightarrow> None
         | Some (Inr t) \<Rightarrow> if t = term then Some (True, log_commitTo l maxIndex) else Some (False, l)
         | Some (Inl _) \<Rightarrow> Some (False, l))
      else Some (False, l))"

end
