(* ===== verification/Raft_Node.thy ===== *)
theory Raft_Node
  imports Raft_Log "HOL-Library.AList"
begin

text \<open>
  The Raft state machine (\<open>internal/raft/raft.go\<close>): elections with PreVote and CheckQuorum,
  replication, snapshots, and the hand-over of work to the caller by \<open>Ready\<close> and
  \<open>Advance\<close>. \<open>None\<close> is a panic. Go maps are association lists, \<open>None\<close> a nil map; the draws
  of \<open>rand.Intn\<close> are a sequence in the state.
\<close>

section \<open>State\<close>

record 's rawNode =
  rn_id :: u64
  rn_state :: stateType
  rn_term :: u64
  rn_votedFor :: u64
  rn_votes :: "(u64 \<times> bool) list option"
  rn_leadID :: u64
  rn_peers :: "u64 list"
  rn_nextIndex :: "(u64 \<times> u64) list option"
  rn_matchIndex :: "(u64 \<times> u64) list option"
  rn_recentActive :: "(u64 \<times> bool) list option"
  rn_preVote :: bool
  rn_checkQuorum :: bool
  rn_log :: "'s raftLog"
  rn_electionElapsed :: int
  rn_heartbeatElapsed :: int
  rn_electionTimeout :: int
  rn_msgs :: "message list"
  rn_prevSoft :: softState
  rn_prevHard :: hardState
  rn_rand :: "nat \<Rightarrow> nat"
  rn_draws :: nat

definition heartbeatTimeout :: int where "heartbeatTimeout = 3"
definition snapshotCatchupGap :: u64 where "snapshotCatchupGap = 8"

text \<open>Reading a map gives the zero value for a missing key; writing to a nil map panics.\<close>

definition map_get :: "'v \<Rightarrow> u64 \<Rightarrow> (u64 \<times> 'v) list option \<Rightarrow> 'v" where
  "map_get d k mo = (case mo of None \<Rightarrow> d | Some m \<Rightarrow> (case map_of m k of None \<Rightarrow> d | Some v \<Rightarrow> v))"

definition map_put :: "u64 \<Rightarrow> 'v \<Rightarrow> (u64 \<times> 'v) list option \<Rightarrow> (u64 \<times> 'v) list option option" where
  "map_put k v mo = map_option (\<lambda>m. Some (AList.update k v m)) mo"

definition hardState :: "'s rawNode \<Rightarrow> hardState" where
  "hardState rn = \<lparr>hs_Term = rn_term rn, hs_VotedFor = rn_votedFor rn, hs_Commit = l_committed (rn_log rn)\<rparr>"

definition softState :: "'s rawNode \<Rightarrow> softState" where
  "softState rn = \<lparr>ss_Lead = rn_leadID rn, ss_RaftState = rn_state rn\<rparr>"

definition quorum :: "'s rawNode \<Rightarrow> nat" where
  "quorum rn = length (rn_peers rn) div 2 + 1"

definition send :: "'s rawNode \<Rightarrow> message \<Rightarrow> 's rawNode" where
  "send rn m = rn\<lparr>rn_msgs := rn_msgs rn @ [m\<lparr>msg_From := rn_id rn\<rparr>]\<rparr>"

text \<open>\<open>electionTimeout = electionTimeoutMin + rand.Intn(electionTimeoutMax-electionTimeoutMin)\<close>\<close>

definition draw_timeout :: "'s rawNode \<Rightarrow> 's rawNode" where
  "draw_timeout rn = rn\<lparr>rn_electionTimeout := 10 + int (rn_rand rn (rn_draws rn) mod 10), rn_draws := rn_draws rn + 1\<rparr>"

definition NewRawNode :: "'s log_storage \<Rightarrow> u64 \<Rightarrow> u64 list \<Rightarrow> 's \<Rightarrow> (nat \<Rightarrow> nat) \<Rightarrow> 's rawNode option" where
  "NewRawNode ls nid peers storage rand =
     (let rn = \<lparr>rn_id = nid, rn_state = StateFollower, rn_term = 0, rn_votedFor = 0, rn_votes = None, rn_leadID = 0,
                rn_peers = peers, rn_nextIndex = None, rn_matchIndex = None, rn_recentActive = None, rn_preVote = True,
                rn_checkQuorum = True, rn_log = newRaftLog ls storage, rn_electionElapsed = 0, rn_heartbeatElapsed = 0,
                rn_electionTimeout = 10 + int (rand 0 mod 10), rn_msgs = [],
                rn_prevSoft = \<lparr>ss_Lead = 0, ss_RaftState = StateFollower\<rparr>, rn_prevHard = zeroHardState,
                rn_rand = rand, rn_draws = 1\<rparr>;
          hs = (case ls_InitialState ls storage of Inr h \<Rightarrow> h | Inl _ \<Rightarrow> zeroHardState)
      in do {
           rn \<leftarrow> (if IsEmptyHardState hs then Some rn
                 else do {
                   let persisted = or_zero (ls_LoadApplied ls storage);
                   let persisted = (if persisted > hs_Commit hs then hs_Commit hs else persisted);
                   l \<leftarrow> log_appliedTo (log_commitTo (rn_log rn) (hs_Commit hs)) persisted;
                   Some (rn\<lparr>rn_term := hs_Term hs, rn_votedFor := hs_VotedFor hs, rn_log := l\<rparr>)
                 });
           Some (rn\<lparr>rn_prevHard := hardState rn, rn_prevSoft := softState rn\<rparr>)
         })"

section \<open>Broadcasts\<close>

fun bcast_votes :: "'s log_storage \<Rightarrow> messageType \<Rightarrow> u64 \<Rightarrow> u64 list \<Rightarrow> 's rawNode \<Rightarrow> 's rawNode option" where
  "bcast_votes ls t term [] rn = Some rn"
| "bcast_votes ls t term (p # ps) rn =
     (if p = rn_id rn then bcast_votes ls t term ps rn
      else do {
        lastTerm \<leftarrow> log_lastTerm ls (rn_log rn);
        bcast_votes ls t term ps
          (send rn ((zeroMessage t)\<lparr>msg_To := p, msg_Term := term, msg_Index := log_lastIndex ls (rn_log rn),
                                   msg_LogTerm := lastTerm\<rparr>))
      })"

definition bcastRequestVote :: "'s log_storage \<Rightarrow> 's rawNode \<Rightarrow> 's rawNode option" where
  "bcastRequestVote ls rn = bcast_votes ls MsgVote (rn_term rn) (rn_peers rn) rn"

definition bcastPreVote :: "'s log_storage \<Rightarrow> 's rawNode \<Rightarrow> 's rawNode option" where
  "bcastPreVote ls rn = bcast_votes ls MsgPreVote (rn_term rn + 1) (rn_peers rn) rn"

definition bcastHeartbeat :: "'s rawNode \<Rightarrow> 's rawNode" where
  "bcastHeartbeat rn =
     fold (\<lambda>p rn.
       if p = rn_id rn then rn
       else (let m = map_get 0 p (rn_matchIndex rn); c = l_committed (rn_log rn)
             in send rn ((zeroMessage MsgHeartbeat)\<lparr>msg_To := p, msg_Term := rn_term rn, msg_Commit := (if m < c then m else c)\<rparr>)))
       (rn_peers rn) rn"

definition sendAppend :: "'s log_storage \<Rightarrow> 's rawNode \<Rightarrow> u64 \<Rightarrow> 's rawNode option" where
  "sendAppend ls rn dest =
     (let next = map_get 0 dest (rn_nextIndex rn);
          firstIdx = log_firstIndex ls (rn_log rn);
          lastIdx = log_lastIndex ls (rn_log rn);
          match = map_get 0 dest (rn_matchIndex rn);
          compacted = (next < firstIdx);
          farBehind = (lastIdx > match + snapshotCatchupGap);
          snap = (case ls_Snapshot ls (l_storage (rn_log rn)) of Inr s \<Rightarrow> s | Inl _ \<Rightarrow> zeroSnapshot)
      in if (compacted \<or> farBehind) \<and> \<not> snapshot_IsEmpty snap \<and> (compacted \<or> s_Index snap > match) then
           (let rn' = send rn ((zeroMessage MsgSnap)\<lparr>msg_To := dest, msg_Term := rn_term rn, msg_Snapshot := snap\<rparr>)
            in map_option (\<lambda>ni. rn'\<lparr>rn_nextIndex := ni\<rparr>) (map_put dest (s_Index snap + 1) (rn_nextIndex rn')))
         else if compacted then Some rn
         else do {
           t \<leftarrow> log_term ls (rn_log rn) (next - 1);
           es \<leftarrow> log_entries ls (rn_log rn) next (log_lastIndex ls (rn_log rn) + 1);
           Some (send rn ((zeroMessage MsgApp)\<lparr>msg_To := dest, msg_Term := rn_term rn, msg_Index := next - 1,
                            msg_LogTerm := or_zero t, msg_Entries := es, msg_Commit := l_committed (rn_log rn)\<rparr>))
         })"

fun append_loop :: "'s log_storage \<Rightarrow> u64 list \<Rightarrow> 's rawNode \<Rightarrow> 's rawNode option" where
  "append_loop ls [] rn = Some rn"
| "append_loop ls (p # ps) rn =
     (if p = rn_id rn then append_loop ls ps rn
      else do { rn' \<leftarrow> sendAppend ls rn p; append_loop ls ps rn' })"

definition bcastAppend :: "'s log_storage \<Rightarrow> 's rawNode \<Rightarrow> 's rawNode option" where
  "bcastAppend ls rn = append_loop ls (rn_peers rn) rn"

section \<open>Committing\<close>

definition match_count :: "'s rawNode \<Rightarrow> u64 \<Rightarrow> nat" where
  "match_count rn n = (case rn_matchIndex rn of None \<Rightarrow> 0 | Some m \<Rightarrow> length (filter (\<lambda>(p, idx). idx \<ge> n) m))"

function advance_loop :: "'s log_storage \<Rightarrow> 's rawNode \<Rightarrow> u64 \<Rightarrow> 's rawNode option" where
  "advance_loop ls rn n =
     (if n > l_committed (rn_log rn) then
        (case log_term ls (rn_log rn) n of
           None \<Rightarrow> None
         | Some (Inl _) \<Rightarrow> Some rn
         | Some (Inr t) \<Rightarrow>
             if t \<noteq> rn_term rn then Some rn
             else if match_count rn n \<ge> quorum rn then Some (rn\<lparr>rn_log := log_commitTo (rn_log rn) n\<rparr>)
             else advance_loop ls rn (n - 1))
      else Some rn)"
  by pat_completeness auto
termination
proof (relation "measure (\<lambda>(ls, rn, n). unat n)", goal_cases)
  case (2 ls rn n)
  then have "n \<noteq> 0" by (metis word_not_simps(1))
  then show ?case by (simp add: measure_unat)
qed simp

declare advance_loop.simps [simp del]

definition maybeAdvanceCommit :: "'s log_storage \<Rightarrow> 's rawNode \<Rightarrow> 's rawNode option" where
  "maybeAdvanceCommit ls rn = advance_loop ls rn (log_lastIndex ls (rn_log rn))"

section \<open>Roles\<close>

definition becomeFollower :: "'s rawNode \<Rightarrow> u64 \<Rightarrow> u64 \<Rightarrow> 's rawNode" where
  "becomeFollower rn term lead =
     draw_timeout (rn\<lparr>rn_state := StateFollower, rn_term := term, rn_leadID := lead, rn_votedFor := 0, rn_votes := None,
                      rn_nextIndex := None, rn_matchIndex := None, rn_recentActive := None, rn_electionElapsed := 0\<rparr>)"

definition becomePreCandidate :: "'s rawNode \<Rightarrow> 's rawNode" where
  "becomePreCandidate rn =
     draw_timeout (rn\<lparr>rn_state := StatePreCandidate, rn_leadID := 0, rn_votes := Some [(rn_id rn, True)], rn_electionElapsed := 0\<rparr>)"

definition becomeCandidate :: "'s rawNode \<Rightarrow> 's rawNode" where
  "becomeCandidate rn =
     draw_timeout (rn\<lparr>rn_state := StateCandidate, rn_term := rn_term rn + 1, rn_votedFor := rn_id rn, rn_leadID := 0,
                      rn_votes := Some [(rn_id rn, True)], rn_electionElapsed := 0\<rparr>)"

definition becomeLeader :: "'s log_storage \<Rightarrow> 's rawNode \<Rightarrow> 's rawNode option" where
  "becomeLeader ls rn =
     (let lastIdx = log_lastIndex ls (rn_log rn);
          rn1 = rn\<lparr>rn_state := StateLeader, rn_leadID := rn_id rn, rn_heartbeatElapsed := 0, rn_electionElapsed := 0,
                   rn_recentActive := Some [(rn_id rn, True)],
                   rn_nextIndex := Some (fold (\<lambda>p. AList.update p (lastIdx + 1)) (rn_peers rn) []),
                   rn_matchIndex := Some (AList.update (rn_id rn) (lastIdx + 1)
                                            (AList.update (rn_id rn) lastIdx (fold (\<lambda>p. AList.update p 0) (rn_peers rn) []))),
                   rn_log := log_append (rn_log rn) [\<lparr>e_Term = rn_term rn, e_Index = lastIdx + 1, e_Data = None\<rparr>]\<rparr>
      in do { rn2 \<leftarrow> maybeAdvanceCommit ls rn1; bcastAppend ls rn2 })"

definition tallyVotes :: "'s rawNode \<Rightarrow> nat" where
  "tallyVotes rn = (case rn_votes rn of None \<Rightarrow> 0 | Some vs \<Rightarrow> length (filter snd vs))"

text \<open>\<open>campaign(false)\<close>, and \<open>campaign\<close>, which goes on to it when a pre-election is won at once.\<close>

definition campaign_election :: "'s log_storage \<Rightarrow> 's rawNode \<Rightarrow> 's rawNode option" where
  "campaign_election ls rn =
     (let rn = becomeCandidate rn
      in if tallyVotes rn \<ge> quorum rn then becomeLeader ls rn else bcastRequestVote ls rn)"

definition campaign :: "'s log_storage \<Rightarrow> 's rawNode \<Rightarrow> bool \<Rightarrow> 's rawNode option" where
  "campaign ls rn pre =
     (if pre then
        (let rn = becomePreCandidate rn
         in if tallyVotes rn \<ge> quorum rn then campaign_election ls rn else bcastPreVote ls rn)
      else campaign_election ls rn)"

definition hup :: "'s log_storage \<Rightarrow> 's rawNode \<Rightarrow> 's rawNode option" where
  "hup ls rn = (if rn_state rn = StateLeader then Some rn else campaign ls rn (rn_preVote rn))"

definition canVote :: "'s rawNode \<Rightarrow> message \<Rightarrow> bool" where
  "canVote rn m \<longleftrightarrow>
     rn_votedFor rn = msg_From m \<or> (rn_votedFor rn = 0 \<and> rn_leadID rn = 0) \<or>
     (msg_Type m = MsgPreVote \<and> msg_Term m > rn_term rn)"

definition voteRespType :: "messageType \<Rightarrow> messageType" where
  "voteRespType t = (if t = MsgPreVote then MsgPreVoteResp else MsgVoteResp)"

definition maybeStepDownOnQuorumLoss :: "'s rawNode \<Rightarrow> 's rawNode" where
  "maybeStepDownOnQuorumLoss rn =
     (let active = length (filter (\<lambda>p. p = rn_id rn \<or> map_get False p (rn_recentActive rn)) (rn_peers rn));
          rn = rn\<lparr>rn_recentActive := Some [(rn_id rn, True)]\<rparr>
      in if active < quorum rn then becomeFollower rn (rn_term rn) 0 else rn)"

definition min64 :: "u64 \<Rightarrow> u64 \<Rightarrow> u64" where
  "min64 a b = (if a < b then a else b)"

section \<open>Messages\<close>

text \<open>The term handling at the head of \<open>Step\<close>; \<open>None\<close> when the message is ignored altogether.\<close>

definition adopt_term :: "'s rawNode \<Rightarrow> message \<Rightarrow> 's rawNode option" where
  "adopt_term rn m =
     (if msg_Term m > rn_term rn then
        (if (msg_Type m = MsgVote \<or> msg_Type m = MsgPreVote) \<and> rn_checkQuorum rn \<and> rn_leadID rn \<noteq> 0 \<and>
            rn_electionElapsed rn < rn_electionTimeout rn
         then None
         else if msg_Type m = MsgPreVote then Some rn
         else if msg_Type m = MsgPreVoteResp \<and> \<not> msg_Reject m then Some rn
         else Some (becomeFollower rn (msg_Term m) (if msg_Type m = MsgVote then 0 else msg_From m)))
      else Some rn)"

definition step_vote :: "'s log_storage \<Rightarrow> 's rawNode \<Rightarrow> message \<Rightarrow> 's rawNode option" where
  "step_vote ls rn m =
     do {
       canGrant \<leftarrow> (if msg_Term m \<ge> rn_term rn \<and> canVote rn m then log_isUpToDate ls (rn_log rn) (msg_Index m) (msg_LogTerm m)
                   else Some False);
       Some (if canGrant then
               (let rn = send rn ((zeroMessage (voteRespType (msg_Type m)))\<lparr>msg_To := msg_From m, msg_Term := msg_Term m\<rparr>)
                in if msg_Type m = MsgVote then rn\<lparr>rn_votedFor := msg_From m, rn_electionElapsed := 0\<rparr> else rn)
             else send rn ((zeroMessage (voteRespType (msg_Type m)))\<lparr>msg_To := msg_From m, msg_Term := rn_term rn, msg_Reject := True\<rparr>))
     }"

definition step_voteResp :: "'s log_storage \<Rightarrow> 's rawNode \<Rightarrow> message \<Rightarrow> 's rawNode option" where
  "step_voteResp ls rn m =
     (if rn_state rn \<noteq> StateCandidate then Some rn
      else do {
        vs \<leftarrow> map_put (msg_From m) (\<not> msg_Reject m) (rn_votes rn);
        let rn = rn\<lparr>rn_votes := vs\<rparr>;
        if tallyVotes rn \<ge> quorum rn then becomeLeader ls rn else Some rn
      })"

definition step_preVoteResp :: "'s log_storage \<Rightarrow> 's rawNode \<Rightarrow> message \<Rightarrow> 's rawNode option" where
  "step_preVoteResp ls rn m =
     (if rn_state rn \<noteq> StatePreCandidate then Some rn
      else do {
        vs \<leftarrow> map_put (msg_From m) (\<not> msg_Reject m) (rn_votes rn);
        let rn = rn\<lparr>rn_votes := vs\<rparr>;
        if tallyVotes rn \<ge> quorum rn then campaign ls rn False else Some rn
      })"

definition step_prop :: "'s log_storage \<Rightarrow> 's rawNode \<Rightarrow> message \<Rightarrow> 's rawNode option" where
  "step_prop ls rn m =
     (if rn_state rn \<noteq> StateLeader then Some rn
      else do {
        let lastIdx = log_lastIndex ls (rn_log rn);
        let ents = map (\<lambda>(i, e). \<lparr>e_Term = rn_term rn, e_Index = lastIdx + of_nat i + 1, e_Data = e_Data e\<rparr>)
                     (List.enumerate 0 (msg_Entries m));
        let l = log_append (rn_log rn) ents;
        mi \<leftarrow> map_put (rn_id rn) (log_lastIndex ls l) (rn_matchIndex rn);
        rn \<leftarrow> bcastAppend ls (rn\<lparr>rn_log := l, rn_matchIndex := mi\<rparr>);
        maybeAdvanceCommit ls rn
      })"

definition reject_append :: "'s log_storage \<Rightarrow> 's rawNode \<Rightarrow> message \<Rightarrow> 's rawNode" where
  "reject_append ls rn m =
     send rn ((zeroMessage MsgAppResp)\<lparr>msg_To := msg_From m, msg_Term := rn_term rn, msg_Reject := True,
                                      msg_RejectHint := log_lastIndex ls (rn_log rn)\<rparr>)"

definition step_app :: "'s log_storage \<Rightarrow> 's rawNode \<Rightarrow> message \<Rightarrow> 's rawNode option" where
  "step_app ls rn m =
     (if msg_Term m < rn_term rn then Some (reject_append ls rn m)
      else do {
        let rn = becomeFollower rn (msg_Term m) (msg_From m);
        matches \<leftarrow> (if msg_Index m > 0 then
                     map_option (\<lambda>r. r = Inr (msg_LogTerm m)) (log_term ls (rn_log rn) (msg_Index m))
                   else Some True);
        Some (if \<not> matches then reject_append ls rn m
              else (let l = (if msg_Entries m \<noteq> [] then log_append (rn_log rn) (msg_Entries m) else rn_log rn);
                        l = (if msg_Commit m > l_committed l then log_commitTo l (min64 (msg_Commit m) (log_lastIndex ls l)) else l)
                    in send (rn\<lparr>rn_log := l\<rparr>)
                         ((zeroMessage MsgAppResp)\<lparr>msg_To := msg_From m, msg_Term := rn_term rn, msg_Index := log_lastIndex ls l\<rparr>)))
      })"

definition step_appResp :: "'s log_storage \<Rightarrow> 's rawNode \<Rightarrow> message \<Rightarrow> 's rawNode option" where
  "step_appResp ls rn m =
     (if rn_state rn \<noteq> StateLeader then Some rn
      else do {
        ra \<leftarrow> map_put (msg_From m) True (rn_recentActive rn);
        let rn = rn\<lparr>rn_recentActive := ra\<rparr>;
        let next = map_get 0 (msg_From m) (rn_nextIndex rn);
        if msg_Reject m then do {
          ni \<leftarrow> (if msg_RejectHint m < next then map_put (msg_From m) (msg_RejectHint m + 1) (rn_nextIndex rn)
                else if next > 1 then map_put (msg_From m) (next - 1) (rn_nextIndex rn)
                else Some (rn_nextIndex rn));
          sendAppend ls (rn\<lparr>rn_nextIndex := ni\<rparr>) (msg_From m)
        } else do {
          rn \<leftarrow> (if msg_Index m > map_get 0 (msg_From m) (rn_matchIndex rn) then do {
                  mi \<leftarrow> map_put (msg_From m) (msg_Index m) (rn_matchIndex rn);
                  ni \<leftarrow> map_put (msg_From m) (msg_Index m + 1) (rn_nextIndex rn);
                  Some (rn\<lparr>rn_matchIndex := mi, rn_nextIndex := ni\<rparr>)
                } else Some rn);
          maybeAdvanceCommit ls rn
        }
      })"

definition step_heartbeat :: "'s log_storage \<Rightarrow> 's rawNode \<Rightarrow> message \<Rightarrow> 's rawNode" where
  "step_heartbeat ls rn m =
     (let rn = (if msg_Term m \<ge> rn_term rn then
                  rn\<lparr>rn_electionElapsed := 0, rn_leadID := msg_From m,
                     rn_log := log_commitTo (rn_log rn) (min64 (msg_Commit m) (log_lastIndex ls (rn_log rn)))\<rparr>
                else rn)
      in send rn ((zeroMessage MsgHeartbeatResp)\<lparr>msg_To := msg_From m, msg_Term := rn_term rn\<rparr>))"

definition step_heartbeatResp :: "'s log_storage \<Rightarrow> 's rawNode \<Rightarrow> message \<Rightarrow> 's rawNode option" where
  "step_heartbeatResp ls rn m =
     (if rn_state rn = StateLeader then do {
        ra \<leftarrow> map_put (msg_From m) True (rn_recentActive rn);
        let rn = rn\<lparr>rn_recentActive := ra\<rparr>;
        if map_get 0 (msg_From m) (rn_matchIndex rn) < log_lastIndex ls (rn_log rn) then sendAppend ls rn (msg_From m)
        else Some rn
      } else Some rn)"

definition step_snap :: "'s log_storage \<Rightarrow> 's rawNode \<Rightarrow> message \<Rightarrow> 's rawNode" where
  "step_snap ls rn m =
     (if msg_Term m < rn_term rn then reject_append ls rn m
      else (let rn = becomeFollower rn (msg_Term m) (msg_From m)
            in case log_restore (rn_log rn) (msg_Snapshot m) of
                 (restored, l) \<Rightarrow>
                   send (rn\<lparr>rn_log := l\<rparr>)
                     ((zeroMessage MsgAppResp)\<lparr>msg_To := msg_From m, msg_Term := rn_term rn,
                        msg_Index := (if restored then log_lastIndex ls l else l_committed l)\<rparr>)))"

definition Step :: "'s log_storage \<Rightarrow> 's rawNode \<Rightarrow> message \<Rightarrow> 's rawNode option" where
  "Step ls rn0 m =
     (case adopt_term rn0 m of
        None \<Rightarrow> Some rn0
      | Some rn \<Rightarrow>
          (case msg_Type m of
             MsgHup \<Rightarrow> hup ls rn
           | MsgBeat \<Rightarrow> Some (if rn_state rn = StateLeader then bcastHeartbeat rn else rn)
           | MsgVote \<Rightarrow> step_vote ls rn m
           | MsgPreVote \<Rightarrow> step_vote ls rn m
           | MsgVoteResp \<Rightarrow> step_voteResp ls rn m
           | MsgPreVoteResp \<Rightarrow> step_preVoteResp ls rn m
           | MsgProp \<Rightarrow> step_prop ls rn m
           | MsgApp \<Rightarrow> step_app ls rn m
           | MsgAppResp \<Rightarrow> step_appResp ls rn m
           | MsgHeartbeat \<Rightarrow> Some (step_heartbeat ls rn m)
           | MsgHeartbeatResp \<Rightarrow> step_heartbeatResp ls rn m
           | MsgSnap \<Rightarrow> Some (step_snap ls rn m)))"

definition self_message :: "'s rawNode \<Rightarrow> messageType \<Rightarrow> message" where
  "self_message rn t = (zeroMessage t)\<lparr>msg_From := rn_id rn, msg_To := rn_id rn\<rparr>"

text \<open>The \<open>CheckQuorum\<close> part of a leader's tick.\<close>

definition tick_quorum :: "'s rawNode \<Rightarrow> 's rawNode" where
  "tick_quorum rn =
     (if rn_checkQuorum rn then
        (let rn = rn\<lparr>rn_electionElapsed := rn_electionElapsed rn + 1\<rparr>
         in if rn_electionElapsed rn \<ge> rn_electionTimeout rn
            then maybeStepDownOnQuorumLoss (rn\<lparr>rn_electionElapsed := 0\<rparr>) else rn)
      else rn)"

definition Tick :: "'s log_storage \<Rightarrow> 's rawNode \<Rightarrow> 's rawNode option" where
  "Tick ls rn =
     (if rn_state rn \<noteq> StateLeader then
        (let rn = rn\<lparr>rn_electionElapsed := rn_electionElapsed rn + 1\<rparr>
         in if rn_electionElapsed rn \<ge> rn_electionTimeout rn
            then Step ls (rn\<lparr>rn_electionElapsed := 0\<rparr>) (self_message rn MsgHup)
            else Some rn)
      else
        (let rn = tick_quorum rn
         in if rn_state rn \<noteq> StateLeader then Some rn
            else (let rn = rn\<lparr>rn_heartbeatElapsed := rn_heartbeatElapsed rn + 1\<rparr>
                  in if rn_heartbeatElapsed rn \<ge> heartbeatTimeout
                     then Step ls (rn\<lparr>rn_heartbeatElapsed := 0\<rparr>) (self_message rn MsgBeat)
                     else Some rn)))"

definition Propose :: "'s log_storage \<Rightarrow> 's rawNode \<Rightarrow> bytes \<Rightarrow> 's rawNode option" where
  "Propose ls rn data =
     Step ls rn ((self_message rn MsgProp)\<lparr>msg_Entries := [\<lparr>e_Term = 0, e_Index = 0, e_Data = Some data\<rparr>]\<rparr>)"

definition CompactableIndex :: "'s rawNode \<Rightarrow> u64 \<Rightarrow> u64" where
  "CompactableIndex rn snapIndex =
     (if rn_state rn \<noteq> StateLeader then snapIndex
      else fold (\<lambda>p safe. if p = rn_id rn then safe
                           else (let m = map_get 0 p (rn_matchIndex rn) in if m < safe then m else safe))
             (rn_peers rn) snapIndex)"

section \<open>Handing work to the caller\<close>

definition HasReady :: "'s log_storage \<Rightarrow> 's rawNode \<Rightarrow> bool option" where
  "HasReady ls rn =
     (if hardState rn \<noteq> rn_prevHard rn \<or> hasPendingSnapshot (rn_log rn) \<or> log_unstableEntries (rn_log rn) \<noteq> [] then Some True
      else do {
        es \<leftarrow> log_nextEntries ls (rn_log rn);
        Some (es \<noteq> [] \<or> rn_msgs rn \<noteq> [] \<or> ss_Lead (softState rn) \<noteq> ss_Lead (rn_prevSoft rn) \<or>
              ss_RaftState (softState rn) \<noteq> ss_RaftState (rn_prevSoft rn))
      })"

definition Ready :: "'s log_storage \<Rightarrow> 's rawNode \<Rightarrow> ready option" where
  "Ready ls rn =
     do {
       es \<leftarrow> log_nextEntries ls (rn_log rn);
       Some \<lparr>rd_SoftState = (if ss_Lead (softState rn) \<noteq> ss_Lead (rn_prevSoft rn) \<or>
                               ss_RaftState (softState rn) \<noteq> ss_RaftState (rn_prevSoft rn) then Some (softState rn) else None),
             rd_HardState = (if hardState rn \<noteq> rn_prevHard rn then hardState rn else zeroHardState),
             rd_Snapshot = (if hasPendingSnapshot (rn_log rn) then l_pendingSnapshot (rn_log rn) else zeroSnapshot),
             rd_Entries = log_unstableEntries (rn_log rn),
             rd_Messages = rn_msgs rn,
             rd_CommittedEntries = es\<rparr>
     }"

definition Advance :: "'s rawNode \<Rightarrow> ready \<Rightarrow> 's rawNode option" where
  "Advance rn rd =
     do {
       let rn = (case rd_SoftState rd of None \<Rightarrow> rn | Some ss \<Rightarrow> rn\<lparr>rn_prevSoft := ss\<rparr>);
       let rn = (if \<not> IsEmptyHardState (rd_HardState rd) then rn\<lparr>rn_prevHard := rd_HardState rd\<rparr> else rn);
       let rn = (if \<not> snapshot_IsEmpty (rd_Snapshot rd) then rn\<lparr>rn_log := (rn_log rn)\<lparr>l_pendingSnapshot := zeroSnapshot\<rparr>\<rparr> else rn);
       l \<leftarrow> (if rd_Entries rd \<noteq> [] then log_stableTo (rn_log rn) (e_Index (last (rd_Entries rd))) (e_Term (last (rd_Entries rd)))
            else Some (rn_log rn));
       l \<leftarrow> (if rd_CommittedEntries rd \<noteq> [] then log_appliedTo l (e_Index (last (rd_CommittedEntries rd))) else Some l);
       Some (rn\<lparr>rn_log := l, rn_msgs := []\<rparr>)
     }"

end
