(* ===== verification/Raft_Storage.thy ===== *)
theory Raft_Storage
  imports Raft_Log Lsm_Engine
begin

text \<open>
  The stable storage of a Raft node in a storage engine (\<open>internal/raft/storage.go\<close>):
  entries, hard state, applied index and snapshot under keys of their own, and a cache of the
  last index. The engine is any implementation of \<open>engine_ops\<close>. \<open>None\<close> is an iteration that
  does not return, or a panic. The lemmas give the contents of the log as a function of the
  engine's view, what each operation does to it, and that the cache never shows.
\<close>

section \<open>The contract of a log storage\<close>

text \<open>What a storage holds, and what the methods answer and change.\<close>

record raft_disk =
  d_hs :: hardState
  d_applied :: u64
  d_snap :: snapshotMetadata
  d_data :: "bytes option"
  d_log :: "u64 \<rightharpoonup> raftEntry"

definition d_last :: "raft_disk \<Rightarrow> u64" where
  "d_last d = Max (insert 0 (insert (sm_Index (d_snap d)) (dom (d_log d))))"

definition d_first :: "raft_disk \<Rightarrow> u64" where
  "d_first d = (if sm_Index (d_snap d) > 0 then sm_Index (d_snap d) + 1 else 1)"

definition d_term :: "raft_disk \<Rightarrow> u64 \<Rightarrow> u64 result" where
  "d_term d i =
     (if sm_Index (d_snap d) > 0 \<and> i = sm_Index (d_snap d) then Inr (sm_Term (d_snap d))
      else if sm_Index (d_snap d) > 0 \<and> i < sm_Index (d_snap d) then Inl ErrCompacted
      else case d_log d i of None \<Rightarrow> Inl ErrUnavailable | Some e \<Rightarrow> Inr (e_Term e))"

definition d_snapshot :: "raft_disk \<Rightarrow> snapshot" where
  "d_snapshot d =
     (if sm_Index (d_snap d) = 0 then zeroSnapshot
      else case d_data d of None \<Rightarrow> zeroSnapshot | Some x \<Rightarrow> \<lparr>s_Metadata = d_snap d, s_Data = x\<rparr>)"

definition d_append :: "raftEntry list \<Rightarrow> (u64 \<rightharpoonup> raftEntry) \<Rightarrow> (u64 \<rightharpoonup> raftEntry)" where
  "d_append es L = fold (\<lambda>e L. L(e_Index e \<mapsto> e)) es L"

locale raft_store =
  fixes ls :: "'s log_storage"
    and ok :: "'s \<Rightarrow> bool"
    and disk :: "'s \<Rightarrow> raft_disk"
  assumes InitialState: "ok s \<Longrightarrow> ls_InitialState ls s = Inr (d_hs (disk s))"
    and FirstIndex: "ok s \<Longrightarrow> ls_FirstIndex ls s = Inr (d_first (disk s))"
    and LastIndex: "ok s \<Longrightarrow> ls_LastIndex ls s = Inr (d_last (disk s))"
    and Term: "ok s \<Longrightarrow> ls_Term ls s i = d_term (disk s) i"
    and Entries: "ok s \<Longrightarrow> unat (hi - lo) * 40 \<le> 2 ^ 48 \<Longrightarrow> \<forall>n \<in> {unat lo..<unat hi}. d_log (disk s) (of_nat n) \<noteq> None \<Longrightarrow>
      ls_Entries ls s lo hi = Some (Inr (map (\<lambda>n. the (d_log (disk s) (of_nat n))) [unat lo..<unat hi]))"
    and LoadApplied: "ok s \<Longrightarrow> ls_LoadApplied ls s = Inr (d_applied (disk s))"
    and Snapshot: "ok s \<Longrightarrow> ls_Snapshot ls s = Inr (d_snapshot (disk s))"
    and SaveHardState: "ok s \<Longrightarrow>
      \<exists>s'. ls_SaveHardState ls s hs = (s', None) \<and> ok s' \<and> disk s' = (disk s)\<lparr>d_hs := hs\<rparr>"
    and SaveApplied: "ok s \<Longrightarrow>
      \<exists>s'. ls_SaveApplied ls s i = (s', None) \<and> ok s' \<and> disk s' = (disk s)\<lparr>d_applied := i\<rparr>"
    and AppendEntries: "ok s \<Longrightarrow>
      \<exists>s'. ls_AppendEntries ls s es = (s', None) \<and> ok s' \<and> disk s' = (disk s)\<lparr>d_log := d_append es (d_log (disk s))\<rparr>"
    and SaveSnapshot: "ok s \<Longrightarrow> \<not> snapshot_IsEmpty snap \<Longrightarrow>
      \<exists>s'. ls_SaveSnapshot ls s snap = (s', None) \<and> ok s' \<and> disk s' = (disk s)\<lparr>d_snap := s_Metadata snap, d_data := Some (s_Data snap)\<rparr>"
    and Compact: "ok s \<Longrightarrow>
      \<exists>s'. ls_Compact ls s c = (s', None) \<and> ok s' \<and>
        disk s' = (disk s)\<lparr>d_log := (if c = 0 then d_log (disk s) else d_log (disk s) |` {i. c < i})\<rparr>"

section \<open>Keys and records\<close>

definition keyRaftHardState :: bytes where "keyRaftHardState = 0 # ascii ''raft/hardstate''"
definition keyRaftApplied :: bytes where "keyRaftApplied = 0 # ascii ''raft/applied''"
definition keyRaftLogPrefix :: bytes where "keyRaftLogPrefix = 0 # ascii ''raft/log/''"
definition keyRaftSnapshotMeta :: bytes where "keyRaftSnapshotMeta = 0 # ascii ''raft/snapshot/meta''"
definition keyRaftSnapshotData :: bytes where "keyRaftSnapshotData = 0 # ascii ''raft/snapshot/data''"

definition raftLogKey :: "u64 \<Rightarrow> bytes" where
  "raftLogKey index = keyRaftLogPrefix @ be_bytes 8 (unat index)"

text \<open>\<open>json.Marshal\<close> and \<open>json.Unmarshal\<close> of the three stored records.\<close>

definition u64_json :: "u64 \<Rightarrow> json" where
  "u64_json n = JNum (uint n)"

definition marshalEntry :: "raftEntry \<Rightarrow> bytes" where
  "marshalEntry e = json_print (JObj [(ascii ''Term'', u64_json (e_Term e)), (ascii ''Index'', u64_json (e_Index e)),
     (ascii ''Data'', case e_Data e of None \<Rightarrow> JNull | Some d \<Rightarrow> JStr (base64_encode d))])"

definition marshalHardState :: "hardState \<Rightarrow> bytes" where
  "marshalHardState hs = json_print (JObj [(ascii ''Term'', u64_json (hs_Term hs)),
     (ascii ''VotedFor'', u64_json (hs_VotedFor hs)), (ascii ''Commit'', u64_json (hs_Commit hs))])"

definition marshalSnapshotMeta :: "snapshotMetadata \<Rightarrow> bytes" where
  "marshalSnapshotMeta m = json_print (JObj [(ascii ''index'', u64_json (sm_Index m)), (ascii ''term'', u64_json (sm_Term m))])"

definition entry_field :: "bytes \<Rightarrow> json \<Rightarrow> raftEntry \<Rightarrow> raftEntry option" where
  "entry_field k j e =
     (if field_is ''Term'' k then map_option (\<lambda>n. e\<lparr>e_Term := n\<rparr>) (json_u64 (e_Term e) j)
      else if field_is ''Index'' k then map_option (\<lambda>n. e\<lparr>e_Index := n\<rparr>) (json_u64 (e_Index e) j)
      else if field_is ''Data'' k then map_option (\<lambda>d. e\<lparr>e_Data := d\<rparr>) (json_bytes j)
      else Some e)"

definition hardState_field :: "bytes \<Rightarrow> json \<Rightarrow> hardState \<Rightarrow> hardState option" where
  "hardState_field k j hs =
     (if field_is ''Term'' k then map_option (\<lambda>n. hs\<lparr>hs_Term := n\<rparr>) (json_u64 (hs_Term hs) j)
      else if field_is ''VotedFor'' k then map_option (\<lambda>n. hs\<lparr>hs_VotedFor := n\<rparr>) (json_u64 (hs_VotedFor hs) j)
      else if field_is ''Commit'' k then map_option (\<lambda>n. hs\<lparr>hs_Commit := n\<rparr>) (json_u64 (hs_Commit hs) j)
      else Some hs)"

definition snapshotMeta_field :: "bytes \<Rightarrow> json \<Rightarrow> snapshotMetadata \<Rightarrow> snapshotMetadata option" where
  "snapshotMeta_field k j m =
     (if field_is ''index'' k then map_option (\<lambda>n. m\<lparr>sm_Index := n\<rparr>) (json_u64 (sm_Index m) j)
      else if field_is ''term'' k then map_option (\<lambda>n. m\<lparr>sm_Term := n\<rparr>) (json_u64 (sm_Term m) j)
      else Some m)"

definition unmarshal :: "(bytes \<Rightarrow> json \<Rightarrow> 'a \<Rightarrow> 'a option) \<Rightarrow> 'a \<Rightarrow> bytes \<Rightarrow> 'a result" where
  "unmarshal field zero data =
     (case json_parse data of
        None \<Rightarrow> Inl (Msg ''invalid character'')
      | Some j \<Rightarrow> (case decode_struct field j zero of None \<Rightarrow> Inl (Msg ''cannot unmarshal'') | Some x \<Rightarrow> Inr x))"

definition unmarshalEntry :: "bytes \<Rightarrow> raftEntry result" where
  "unmarshalEntry = unmarshal entry_field \<lparr>e_Term = 0, e_Index = 0, e_Data = None\<rparr>"

definition unmarshalHardState :: "bytes \<Rightarrow> hardState result" where
  "unmarshalHardState = unmarshal hardState_field zeroHardState"

definition unmarshalSnapshotMeta :: "bytes \<Rightarrow> snapshotMetadata result" where
  "unmarshalSnapshotMeta = unmarshal snapshotMeta_field \<lparr>sm_Index = 0, sm_Term = 0\<rparr>"

section \<open>Operations\<close>

record 'e lsmLogStorage =
  lg_eng :: 'e
  lg_lastIdx :: u64
  lg_lastIdxValid :: bool

definition NewLSMLogStorage :: "'e \<Rightarrow> 'e lsmLogStorage" where
  "NewLSMLogStorage eng = \<lparr>lg_eng = eng, lg_lastIdx = 0, lg_lastIdxValid = False\<rparr>"

definition InitialState :: "('e, 'i) engine_ops \<Rightarrow> 'e lsmLogStorage \<Rightarrow> hardState result" where
  "InitialState ops s =
     (case eng_Get ops (lg_eng s) keyRaftHardState of
        Inl err \<Rightarrow> if errors_Is err ErrKeyNotFound then Inr zeroHardState else Inl (Wrap ''raft: read HardState'' err)
      | Inr data \<Rightarrow>
          (case unmarshalHardState data of
             Inl err \<Rightarrow> Inl (Wrap ''raft: unmarshal HardState'' err)
           | Inr hs \<Rightarrow> Inr hs))"

text \<open>\<open>Put\<close> on the engine of the storage.\<close>

definition put_eng :: "('e, 'i) engine_ops \<Rightarrow> 'e lsmLogStorage \<Rightarrow> bytes \<Rightarrow> bytes \<Rightarrow> 'e lsmLogStorage \<times> error option" where
  "put_eng ops s k v = (case eng_Put ops (lg_eng s) k v of (e, err) \<Rightarrow> (s\<lparr>lg_eng := e\<rparr>, err))"

definition SaveHardState :: "('e, 'i) engine_ops \<Rightarrow> 'e lsmLogStorage \<Rightarrow> hardState \<Rightarrow> 'e lsmLogStorage \<times> error option" where
  "SaveHardState ops s hs = put_eng ops s keyRaftHardState (marshalHardState hs)"

definition loadSnapshotMeta :: "('e, 'i) engine_ops \<Rightarrow> 'e lsmLogStorage \<Rightarrow> snapshotMetadata result" where
  "loadSnapshotMeta ops s =
     (case eng_Get ops (lg_eng s) keyRaftSnapshotMeta of
        Inl err \<Rightarrow> if errors_Is err ErrKeyNotFound then Inr \<lparr>sm_Index = 0, sm_Term = 0\<rparr>
                   else Inl (Wrap ''raft: read snapshot meta'' err)
      | Inr data \<Rightarrow>
          (case unmarshalSnapshotMeta data of
             Inl err \<Rightarrow> Inl (Wrap ''raft: unmarshal snapshot meta'' err)
           | Inr m \<Rightarrow> Inr m))"

definition FirstIndex :: "('e, 'i) engine_ops \<Rightarrow> 'e lsmLogStorage \<Rightarrow> u64 result" where
  "FirstIndex ops s =
     (case loadSnapshotMeta ops s of
        Inl err \<Rightarrow> Inl err
      | Inr snap \<Rightarrow> Inr (if sm_Index snap > 0 then sm_Index snap + 1 else 1))"

definition is_log_key :: "bytes \<Rightarrow> bool" where
  "is_log_key k \<longleftrightarrow>
     \<not> (length k < length keyRaftLogPrefix + 8 \<or> take (length keyRaftLogPrefix) k \<noteq> keyRaftLogPrefix)"

definition log_key_index :: "bytes \<Rightarrow> u64" where
  "log_key_index k = of_nat (be_val (take 8 (drop (length keyRaftLogPrefix) k)))"

partial_function (option) last_loop :: "('e, 'i) engine_ops \<Rightarrow> 'i \<Rightarrow> u64 \<Rightarrow> u64 option" where
  "last_loop ops iter lastIx =
     (if \<not> it_Valid ops iter \<or> \<not> is_log_key (it_Key ops iter) then Some lastIx
      else (let idx = log_key_index (it_Key ops iter)
            in last_loop ops (snd (it_Next ops iter)) (if idx > lastIx then idx else lastIx)))"

definition scanLastIndex :: "('e, 'i) engine_ops \<Rightarrow> 'e lsmLogStorage \<Rightarrow> u64 result option" where
  "scanLastIndex ops s =
     (case eng_NewIterator ops (lg_eng s) of
        Inl err \<Rightarrow> Some (Inl err)
      | Inr iter \<Rightarrow>
          (case last_loop ops (snd (it_Seek ops iter keyRaftLogPrefix)) 0 of
             None \<Rightarrow> None
           | Some lastIx \<Rightarrow>
               Some (case loadSnapshotMeta ops s of
                       Inl err \<Rightarrow> Inl err
                     | Inr snap \<Rightarrow> Inr (if sm_Index snap > lastIx then sm_Index snap else lastIx))))"

definition LastIndex :: "('e, 'i) engine_ops \<Rightarrow> 'e lsmLogStorage \<Rightarrow> (u64 result \<times> 'e lsmLogStorage) option" where
  "LastIndex ops s =
     (if lg_lastIdxValid s then Some (Inr (lg_lastIdx s), s)
      else (case scanLastIndex ops s of
              None \<Rightarrow> None
            | Some (Inl err) \<Rightarrow> Some (Inl err, s)
            | Some (Inr lastIx) \<Rightarrow> Some (Inr lastIx, s\<lparr>lg_lastIdx := lastIx, lg_lastIdxValid := True\<rparr>)))"

definition Term :: "('e, 'i) engine_ops \<Rightarrow> 'e lsmLogStorage \<Rightarrow> u64 \<Rightarrow> u64 result" where
  "Term ops s index =
     (case loadSnapshotMeta ops s of
        Inl err \<Rightarrow> Inl err
      | Inr snap \<Rightarrow>
          if sm_Index snap > 0 \<and> index = sm_Index snap then Inr (sm_Term snap)
          else if sm_Index snap > 0 \<and> index < sm_Index snap then Inl ErrCompacted
          else (case eng_Get ops (lg_eng s) (raftLogKey index) of
                  Inl _ \<Rightarrow> Inl ErrUnavailable
                | Inr data \<Rightarrow> map_sum id e_Term (unmarshalEntry data)))"

fun entries_loop :: "('e, 'i) engine_ops \<Rightarrow> 'e lsmLogStorage \<Rightarrow> u64 list \<Rightarrow> raftEntry list result" where
  "entries_loop ops s [] = Inr []"
| "entries_loop ops s (i # is) =
     (case eng_Get ops (lg_eng s) (raftLogKey i) of
        Inl err \<Rightarrow> Inl (Wrap ''raft: entry not found'' err)
      | Inr data \<Rightarrow>
          (case unmarshalEntry data of
             Inl err \<Rightarrow> Inl err
           | Inr e \<Rightarrow> map_sum id (Cons e) (entries_loop ops s is)))"

text \<open>
  \<open>make([]Entry, 0, hi-lo)\<close> panics when the capacity, 40 bytes an entry, exceeds the
  address space of \<open>2\<^sup>4\<^sup>8\<close> bytes, as it does for most \<open>hi < lo\<close>.
\<close>

definition Entries :: "('e, 'i) engine_ops \<Rightarrow> 'e lsmLogStorage \<Rightarrow> u64 \<Rightarrow> u64 \<Rightarrow> raftEntry list result option" where
  "Entries ops s lo hi =
     (if unat (hi - lo) * 40 > 2 ^ 48 then None
      else Some (entries_loop ops s (map of_nat [unat lo..<unat hi])))"

definition SaveApplied :: "('e, 'i) engine_ops \<Rightarrow> 'e lsmLogStorage \<Rightarrow> u64 \<Rightarrow> 'e lsmLogStorage \<times> error option" where
  "SaveApplied ops s index = put_eng ops s keyRaftApplied (be_bytes 8 (unat index))"

definition LoadApplied :: "('e, 'i) engine_ops \<Rightarrow> 'e lsmLogStorage \<Rightarrow> u64 result" where
  "LoadApplied ops s =
     (case eng_Get ops (lg_eng s) keyRaftApplied of
        Inl err \<Rightarrow> if errors_Is err ErrKeyNotFound then Inr 0 else Inl err
      | Inr data \<Rightarrow> Inr (if length data \<noteq> 8 then 0 else of_nat (be_val data)))"

fun AppendEntries :: "('e, 'i) engine_ops \<Rightarrow> 'e lsmLogStorage \<Rightarrow> raftEntry list \<Rightarrow> 'e lsmLogStorage \<times> error option" where
  "AppendEntries ops s [] = (s, None)"
| "AppendEntries ops s (e # es) =
     (case put_eng ops s (raftLogKey (e_Index e)) (marshalEntry e) of
        (s, Some err) \<Rightarrow> (s\<lparr>lg_lastIdxValid := False\<rparr>, Some err)
      | (s, None) \<Rightarrow>
          AppendEntries ops (if lg_lastIdxValid s \<and> e_Index e > lg_lastIdx s then s\<lparr>lg_lastIdx := e_Index e\<rparr> else s) es)"

definition Snapshot :: "('e, 'i) engine_ops \<Rightarrow> 'e lsmLogStorage \<Rightarrow> snapshot result" where
  "Snapshot ops s =
     (case loadSnapshotMeta ops s of
        Inl err \<Rightarrow> Inl err
      | Inr meta \<Rightarrow>
          if sm_Index meta = 0 then Inr zeroSnapshot
          else (case eng_Get ops (lg_eng s) keyRaftSnapshotData of
                  Inl err \<Rightarrow> if errors_Is err ErrKeyNotFound then Inr zeroSnapshot
                             else Inl (Wrap ''raft: read snapshot data'' err)
                | Inr data \<Rightarrow> Inr \<lparr>s_Metadata = meta, s_Data = data\<rparr>))"

definition SaveSnapshot :: "('e, 'i) engine_ops \<Rightarrow> 'e lsmLogStorage \<Rightarrow> snapshot \<Rightarrow> 'e lsmLogStorage \<times> error option" where
  "SaveSnapshot ops s snap =
     (if snapshot_IsEmpty snap then (s, Some (Msg ''raft: cannot save empty snapshot''))
      else (case put_eng ops s keyRaftSnapshotData (s_Data snap) of
              (s, Some err) \<Rightarrow> (s, Some (Wrap ''raft: write snapshot data'' err))
            | (s, None) \<Rightarrow>
                (case put_eng ops s keyRaftSnapshotMeta (marshalSnapshotMeta (s_Metadata snap)) of
                   (s, Some err) \<Rightarrow> (s, Some (Wrap ''raft: write snapshot meta'' err))
                 | (s, None) \<Rightarrow> (s\<lparr>lg_lastIdxValid := False\<rparr>, None))))"

partial_function (option) delete_loop :: "('e, 'i) engine_ops \<Rightarrow> u64 \<Rightarrow> 'i \<Rightarrow> bytes list \<Rightarrow> bytes list option" where
  "delete_loop ops compactIndex iter toDelete =
     (if \<not> it_Valid ops iter \<or> \<not> is_log_key (it_Key ops iter) \<or> log_key_index (it_Key ops iter) > compactIndex
      then Some toDelete
      else delete_loop ops compactIndex (snd (it_Next ops iter)) (toDelete @ [it_Key ops iter]))"

fun delete_keys :: "('e, 'i) engine_ops \<Rightarrow> 'e lsmLogStorage \<Rightarrow> bytes list \<Rightarrow> 'e lsmLogStorage \<times> error option" where
  "delete_keys ops s [] = (s, None)"
| "delete_keys ops s (k # ks) =
     (case eng_Delete ops (lg_eng s) k of
        (e, Some err) \<Rightarrow> (s\<lparr>lg_eng := e\<rparr>, Some (Wrap ''raft: compact delete'' err))
      | (e, None) \<Rightarrow> delete_keys ops (s\<lparr>lg_eng := e\<rparr>) ks)"

definition Compact :: "('e, 'i) engine_ops \<Rightarrow> 'e lsmLogStorage \<Rightarrow> u64 \<Rightarrow> ('e lsmLogStorage \<times> error option) option" where
  "Compact ops s compactIndex =
     (if compactIndex = 0 then Some (s, None)
      else (let s = s\<lparr>lg_lastIdxValid := False\<rparr>
            in case eng_NewIterator ops (lg_eng s) of
                 Inl err \<Rightarrow> Some (s, Some err)
               | Inr iter \<Rightarrow>
                   map_option (delete_keys ops s)
                     (delete_loop ops compactIndex (snd (it_Seek ops iter keyRaftLogPrefix)) [])))"

text \<open>
  The method table. \<open>LastIndex\<close> and \<open>Compact\<close> always return on an engine that keeps its
  contract, and the cache that \<open>LastIndex\<close> fills changes no later answer.
\<close>

definition lsm_log_storage :: "('e, 'i) engine_ops \<Rightarrow> 'e lsmLogStorage log_storage" where
  "lsm_log_storage ops =
     \<lparr>ls_InitialState = InitialState ops, ls_FirstIndex = FirstIndex ops, ls_LastIndex = (\<lambda>s. fst (the (LastIndex ops s))),
      ls_Term = Term ops, ls_Entries = Entries ops, ls_AppendEntries = AppendEntries ops, ls_SaveHardState = SaveHardState ops,
      ls_SaveApplied = SaveApplied ops, ls_LoadApplied = LoadApplied ops, ls_Snapshot = Snapshot ops,
      ls_SaveSnapshot = SaveSnapshot ops, ls_Compact = (\<lambda>s i. the (Compact ops s i))\<rparr>"

section \<open>Round trips\<close>

lemma unmarshal_marshal [simp]:
  "unmarshalEntry (marshalEntry e) = Inr e"
  "unmarshalHardState (marshalHardState hs) = Inr hs"
  "unmarshalSnapshotMeta (marshalSnapshotMeta m) = Inr m"
  by (cases "e_Data e")
    (simp_all add: unmarshalEntry_def unmarshalHardState_def unmarshalSnapshotMeta_def marshalEntry_def marshalHardState_def
      marshalSnapshotMeta_def unmarshal_def json_parse_print base64_decode_encode u64_json_def decode_struct_def entry_field_def
      hardState_field_def snapshotMeta_field_def field_is_def lower_def del: json_print.simps)

lemma be_val_index [simp]: "be_val (be_bytes 8 (unat (i :: u64))) = unat i"
  using unsigned_less [of i, where 'a = nat] by (simp add: be_val_be_bytes)

lemma log_key_index [simp]: "log_key_index (raftLogKey i) = i"
  by (simp add: log_key_index_def raftLogKey_def)

lemma raftLogKey_eq [simp]: "raftLogKey i = raftLogKey j \<longleftrightarrow> i = j"
  using log_key_index by metis

lemma is_log_key_raftLogKey [simp]: "is_log_key (raftLogKey i)"
  by (simp add: is_log_key_def raftLogKey_def)

lemma raftLogKey_less [simp]: "raftLogKey i < raftLogKey j \<longleftrightarrow> i < j"
  by (simp add: raftLogKey_def be_val_less_iff word_less_nat_alt)

lemma take_log_key: "take 10 (raftLogKey i) = keyRaftLogPrefix"
  by (simp add: raftLogKey_def keyRaftLogPrefix_def)

lemma raftLogKey_other [simp]:
  "raftLogKey i \<noteq> keyRaftHardState" "raftLogKey i \<noteq> keyRaftApplied" "raftLogKey i \<noteq> keyRaftSnapshotMeta" "raftLogKey i \<noteq> keyRaftSnapshotData"
  using take_log_key [of i]
  by (auto simp: keyRaftHardState_def keyRaftApplied_def keyRaftSnapshotMeta_def keyRaftSnapshotData_def keyRaftLogPrefix_def)

lemma other_keys [simp]:
  "keyRaftHardState \<noteq> keyRaftApplied" "keyRaftHardState \<noteq> keyRaftSnapshotMeta" "keyRaftHardState \<noteq> keyRaftSnapshotData"
  "keyRaftApplied \<noteq> keyRaftSnapshotMeta" "keyRaftApplied \<noteq> keyRaftSnapshotData" "keyRaftSnapshotMeta \<noteq> keyRaftSnapshotData"
  by (simp_all add: keyRaftHardState_def keyRaftApplied_def keyRaftSnapshotMeta_def keyRaftSnapshotData_def)

lemma not_log_key [simp]:
  "\<not> is_log_key keyRaftHardState" "\<not> is_log_key keyRaftApplied" "\<not> is_log_key keyRaftSnapshotMeta" "\<not> is_log_key keyRaftSnapshotData"
  by (simp_all add: is_log_key_def keyRaftHardState_def keyRaftApplied_def keyRaftSnapshotMeta_def keyRaftSnapshotData_def keyRaftLogPrefix_def)

section \<open>The contents of a store\<close>

text \<open>
  What a view of the engine holds of the node. Under \<open>raft_ok\<close> the keys below the log prefix are
  those of entries stored at their own index, and the records decode.
\<close>

definition log_of :: "(bytes \<rightharpoonup> bytes) \<Rightarrow> u64 \<rightharpoonup> raftEntry" where
  "log_of V i = (case V (raftLogKey i) of None \<Rightarrow> None
     | Some d \<Rightarrow> (case unmarshalEntry d of Inl _ \<Rightarrow> None | Inr e \<Rightarrow> Some e))"

definition hs_of :: "(bytes \<rightharpoonup> bytes) \<Rightarrow> hardState" where
  "hs_of V = (case V keyRaftHardState of None \<Rightarrow> zeroHardState
     | Some d \<Rightarrow> (case unmarshalHardState d of Inl _ \<Rightarrow> zeroHardState | Inr hs \<Rightarrow> hs))"

definition snap_of :: "(bytes \<rightharpoonup> bytes) \<Rightarrow> snapshotMetadata" where
  "snap_of V = (case V keyRaftSnapshotMeta of None \<Rightarrow> \<lparr>sm_Index = 0, sm_Term = 0\<rparr>
     | Some d \<Rightarrow> (case unmarshalSnapshotMeta d of Inl _ \<Rightarrow> \<lparr>sm_Index = 0, sm_Term = 0\<rparr> | Inr m \<Rightarrow> m))"

definition applied_of :: "(bytes \<rightharpoonup> bytes) \<Rightarrow> u64" where
  "applied_of V = (case V keyRaftApplied of None \<Rightarrow> 0 | Some d \<Rightarrow> if length d = 8 then of_nat (be_val d) else 0)"

definition last_of :: "(bytes \<rightharpoonup> bytes) \<Rightarrow> u64" where
  "last_of V = Max (insert 0 (insert (sm_Index (snap_of V)) (dom (log_of V))))"

definition raft_ok :: "(bytes \<rightharpoonup> bytes) \<Rightarrow> bool" where
  "raft_ok V \<longleftrightarrow>
     (\<forall>k v. V k = Some v \<longrightarrow> take (length keyRaftLogPrefix) k = keyRaftLogPrefix \<longrightarrow>
        (\<exists>e. k = raftLogKey (e_Index e) \<and> v = marshalEntry e)) \<and>
     (\<forall>v. V keyRaftHardState = Some v \<longrightarrow> (\<exists>hs. v = marshalHardState hs)) \<and>
     (\<forall>v. V keyRaftSnapshotMeta = Some v \<longrightarrow> (\<exists>m. v = marshalSnapshotMeta m))"

lemma raft_ok_empty [simp]: "raft_ok Map.empty"
  by (simp add: raft_ok_def)

lemma take_raftLogKey [simp]: "take (length keyRaftLogPrefix) (raftLogKey i) = keyRaftLogPrefix"
  by (simp add: raftLogKey_def)

lemma raft_ok_entry: "raft_ok V \<Longrightarrow> V (raftLogKey i) = Some v \<Longrightarrow> \<exists>e. e_Index e = i \<and> v = marshalEntry e"
  unfolding raft_ok_def by (metis raftLogKey_eq take_raftLogKey)

lemma raft_ok_log_of: "raft_ok V \<Longrightarrow> log_of V i = Some e \<Longrightarrow> e_Index e = i \<and> V (raftLogKey i) = Some (marshalEntry e)"
  using raft_ok_entry [of V i] by (auto simp: log_of_def split: option.splits)

lemma raft_ok_log_of_None: "raft_ok V \<Longrightarrow> log_of V i = None \<longleftrightarrow> V (raftLogKey i) = None"
  using raft_ok_entry [of V i] by (auto simp: log_of_def split: option.splits)

lemma raft_ok_prefix:
  assumes "raft_ok V" "k \<in> dom V" "take (length keyRaftLogPrefix) k = keyRaftLogPrefix"
  shows "\<exists>i. i \<in> dom (log_of V) \<and> k = raftLogKey i"
proof -
  obtain v where "V k = Some v" using assms(2) by blast
  then obtain e :: raftEntry where "k = raftLogKey (e_Index e)" using assms(1,3) unfolding raft_ok_def by blast
  then show ?thesis using assms(2) raft_ok_log_of_None [OF assms(1), of "e_Index e"] by (intro exI [of _ "e_Index e"]) auto
qed

lemma raft_ok_keys:
  assumes "raft_ok V"
  shows "{k \<in> dom V. is_log_key k} = raftLogKey ` dom (log_of V)"
proof (intro set_eqI iffI)
  fix k
  assume "k \<in> {k \<in> dom V. is_log_key k}"
  then show "k \<in> raftLogKey ` dom (log_of V)" using raft_ok_prefix [OF assms, of k] unfolding is_log_key_def by blast
next
  fix k
  assume "k \<in> raftLogKey ` dom (log_of V)"
  then obtain i where "k = raftLogKey i" "log_of V i \<noteq> None" by blast
  then show "k \<in> {k \<in> dom V. is_log_key k}" using raft_ok_log_of_None [OF assms, of i] by auto
qed

lemma not_prefix [simp]:
  "take (length keyRaftLogPrefix) keyRaftHardState \<noteq> keyRaftLogPrefix" "take (length keyRaftLogPrefix) keyRaftApplied \<noteq> keyRaftLogPrefix"
  "take (length keyRaftLogPrefix) keyRaftSnapshotMeta \<noteq> keyRaftLogPrefix" "take (length keyRaftLogPrefix) keyRaftSnapshotData \<noteq> keyRaftLogPrefix"
  by (simp_all add: keyRaftHardState_def keyRaftApplied_def keyRaftSnapshotMeta_def keyRaftSnapshotData_def keyRaftLogPrefix_def)

lemma raft_ok_put:
  assumes "raft_ok V"
  shows "raft_ok (V(raftLogKey (e_Index e) \<mapsto> marshalEntry e))" "raft_ok (V(keyRaftHardState \<mapsto> marshalHardState hs))"
    "raft_ok (V(keyRaftApplied \<mapsto> d))" "raft_ok (V(keyRaftSnapshotData \<mapsto> d))" "raft_ok (V(keyRaftSnapshotMeta \<mapsto> marshalSnapshotMeta m))"
    "raft_ok (V(k := None))"
  using assms other_keys [THEN not_sym] raftLogKey_other [THEN not_sym] by (auto simp: raft_ok_def)

lemma log_of_other [simp]: "\<not> is_log_key k \<Longrightarrow> log_of (V(k := x)) = log_of V"
  by (rule ext) (metis fun_upd_apply is_log_key_raftLogKey log_of_def)

lemma of_put [simp]:
  "log_of (V(raftLogKey i \<mapsto> marshalEntry e)) = (log_of V)(i \<mapsto> e)"
  "log_of (V(raftLogKey i := None)) = (log_of V)(i := None)"
  "hs_of (V(keyRaftHardState \<mapsto> marshalHardState hs)) = hs"
  "k \<noteq> keyRaftHardState \<Longrightarrow> hs_of (V(k := x)) = hs_of V"
  "applied_of (V(keyRaftApplied \<mapsto> be_bytes 8 (unat i))) = i"
  "k \<noteq> keyRaftApplied \<Longrightarrow> applied_of (V(k := x)) = applied_of V"
  "snap_of (V(keyRaftSnapshotMeta \<mapsto> marshalSnapshotMeta m)) = m"
  "k \<noteq> keyRaftSnapshotMeta \<Longrightarrow> snap_of (V(k := x)) = snap_of V"
  by (auto simp: log_of_def hs_of_def applied_of_def snap_of_def)

lemma last_of_put_entry: "last_of (V(raftLogKey i \<mapsto> marshalEntry e)) = max i (last_of V)"
proof -
  have "insert 0 (insert s (insert i A)) = insert i (insert 0 (insert s A))" for s and A :: "u64 set" by auto
  then show ?thesis by (simp add: last_of_def)
qed

lemma last_of_cong: "log_of V = log_of W \<Longrightarrow> snap_of V = snap_of W \<Longrightarrow> last_of V = last_of W"
  by (simp add: last_of_def)

text \<open>A storage whose engine keeps its contract, whose records decode, and whose cache is right.\<close>

definition lg_ok :: "('e \<Rightarrow> bool) \<Rightarrow> ('e \<Rightarrow> bytes \<rightharpoonup> bytes) \<Rightarrow> 'e lsmLogStorage \<Rightarrow> bool" where
  "lg_ok einv view s \<longleftrightarrow> einv (lg_eng s) \<and> raft_ok (view (lg_eng s)) \<and>
     (lg_lastIdxValid s \<longrightarrow> lg_lastIdx s = last_of (view (lg_eng s)))"

section \<open>What the loops see\<close>

lemma take_interval:
  fixes P :: "'a::linorder list"
  shows "P \<le> x \<Longrightarrow> x \<le> P @ b \<Longrightarrow> take (length P) x = P"
proof (induction P arbitrary: x)
  case (Cons p P)
  then show ?case by (cases x) auto
qed simp

lemma set_takeWhile_sorted:
  assumes "sorted_wrt (<) xs" "\<And>x y. x \<in> set xs \<Longrightarrow> y \<in> set xs \<Longrightarrow> x < y \<Longrightarrow> P y \<Longrightarrow> P x"
  shows "set (takeWhile P xs) = {x \<in> set xs. P x}"
  using assms
proof (induction xs)
  case (Cons a xs)
  then show ?case by (cases "P a") auto
qed simp

text \<open>The log keys from the prefix on, up to a bound on the index.\<close>

lemma log_keys_from_prefix:
  assumes "finite (dom V)" "raft_ok V"
  shows "set (takeWhile (\<lambda>k. is_log_key k \<and> log_key_index k \<le> c) (map fst (dropWhile (\<lambda>p. fst p < keyRaftLogPrefix) (entries V)))) =
    raftLogKey ` {i \<in> dom (log_of V). i \<le> c}" (is "set (takeWhile ?P ?ks) = _")
proof -
  have ks: "?ks = map fst (entries (from_key keyRaftLogPrefix V))" using assms(1) by (simp add: dropWhile_entries)
  have sorted: "sorted_wrt (<) ?ks" unfolding ks by (rule sorted_wrt_entries)
  have mem: "set ?ks = {k \<in> dom V. keyRaftLogPrefix \<le> k}"
    unfolding ks map_fst_entries using assms(1) by (auto simp: from_key_apply split: if_splits)
  note key = raft_ok_prefix [OF assms(2)]
  have "?P x" if h: "x \<in> set ?ks" "x < y" "y \<in> set ?ks" "?P y" for x y
  proof -
    have "y \<in> dom V" "take (length keyRaftLogPrefix) y = keyRaftLogPrefix" using h(3,4) mem by (auto simp: is_log_key_def)
    then obtain j where j: "y = raftLogKey j" using key by blast
    have "take (length keyRaftLogPrefix) x = keyRaftLogPrefix"
      using h(1,2) mem unfolding j raftLogKey_def by (intro take_interval [where b = "be_bytes 8 (unat j)"]) auto
    then obtain i where "x = raftLogKey i" using key [of x] h(1) mem by blast
    then show ?thesis using h(2,4) j by auto
  qed
  then have "set (takeWhile ?P ?ks) = {k \<in> dom V. keyRaftLogPrefix \<le> k \<and> ?P k}"
    using set_takeWhile_sorted [OF sorted, of ?P] mem by blast
  also have "\<dots> = {k \<in> raftLogKey ` dom (log_of V). log_key_index k \<le> c}"
  proof -
    have "keyRaftLogPrefix \<le> raftLogKey i" for i
      unfolding raftLogKey_def using list_less_eq_append_same [of keyRaftLogPrefix "[]"] by simp
    then have "\<forall>k \<in> {k \<in> dom V. is_log_key k}. keyRaftLogPrefix \<le> k" unfolding raft_ok_keys [OF assms(2)] by blast
    then show ?thesis unfolding raft_ok_keys [OF assms(2), symmetric] by auto
  qed
  also have "\<dots> = raftLogKey ` {i \<in> dom (log_of V). i \<le> c}" by auto
  finally show ?thesis .
qed

lemma if_max: "(if a > b then a else b) = max (a :: 'a::linorder) b"
  by (auto simp: max_def)

lemma fold_max: "fold max xs (a :: 'a::linorder) = Max (insert a (set xs))"
  by (metis Max.set_eq_fold list.simps(15))

context storage_engine
begin

lemma advance_iter:
  assumes "iok i" "rest i = p # r"
  shows "it_Valid ops i" "it_Key ops i = fst p" "iok (snd (it_Next ops i))" "rest (snd (it_Next ops i)) = r"
proof -
  show "it_Valid ops i" "it_Key ops i = fst p" using Valid [OF assms(1)] Key [OF assms(1)] assms(2) by (cases p; simp)+
  show "iok (snd (it_Next ops i))" "rest (snd (it_Next ops i)) = r" using Next [OF assms(1)] assms(2) by auto
qed

lemma last_loop_eq:
  "iok i \<Longrightarrow> last_loop ops i l = Some (fold max (map log_key_index (takeWhile is_log_key (map fst (rest i)))) l)"
proof (induction "rest i" arbitrary: i l)
  case Nil
  then show ?case using Valid [of i] by (subst last_loop.simps) simp
next
  case (Cons p r)
  note it = advance_iter [OF Cons(3) Cons(2) [symmetric]]
  show ?case
    using Cons(1) [OF it(4) [symmetric] it(3)] it Cons(2) [symmetric]
    by (subst last_loop.simps) (auto simp: Let_def if_max)
qed

lemma delete_loop_eq:
  "iok i \<Longrightarrow> delete_loop ops c i ks = Some (ks @ takeWhile (\<lambda>k. is_log_key k \<and> log_key_index k \<le> c) (map fst (rest i)))"
proof (induction "rest i" arbitrary: i ks)
  case Nil
  then show ?case using Valid [of i] by (subst delete_loop.simps) simp
next
  case (Cons p r)
  note it = advance_iter [OF Cons(3) Cons(2) [symmetric]]
  show ?case
    using Cons(1) [OF it(4) [symmetric] it(3)] it Cons(2) [symmetric]
    by (subst delete_loop.simps) (auto simp: not_less)
qed

lemma put_eng_ok:
  assumes "inv (lg_eng s)"
  shows "\<exists>e. put_eng ops s k v = (s\<lparr>lg_eng := e\<rparr>, None) \<and> inv e \<and> view e = (view (lg_eng s))(k \<mapsto> v)"
  using Put [OF assms, of k v] by (auto simp: put_eng_def)

lemma loadSnapshotMeta_eq: "lg_ok inv view s \<Longrightarrow> loadSnapshotMeta ops s = Inr (snap_of (view (lg_eng s)))"
  by (auto simp: lg_ok_def raft_ok_def loadSnapshotMeta_def snap_of_def Get split: option.split)

lemma seek_log:
  assumes "inv e" "raft_ok (view e)"
  obtains i i' where "eng_NewIterator ops e = Inr i" and "snd (it_Seek ops i keyRaftLogPrefix) = i'" and "iok i'"
    and "\<And>c. set (takeWhile (\<lambda>k. is_log_key k \<and> log_key_index k \<le> c) (map fst (rest i'))) = raftLogKey ` {i \<in> dom (log_of (view e)). i \<le> c}"
proof -
  obtain i where i: "eng_NewIterator ops e = Inr i" "iok i" "whole i = entries (view e)" using NewIterator [OF assms(1)] by blast
  obtain i' where i': "snd (it_Seek ops i keyRaftLogPrefix) = i'" "iok i'" "rest i' = dropWhile (\<lambda>p. fst p < keyRaftLogPrefix) (entries (view e))"
    using Seek [OF i(2), of keyRaftLogPrefix] i(3) by auto
  show thesis using log_keys_from_prefix [OF view_finite [OF assms(1)] assms(2)] i'(3) by (intro that [OF i(1) i'(1,2)]) simp
qed

lemma scanLastIndex_eq:
  assumes "lg_ok inv view s"
  shows "scanLastIndex ops s = Some (Inr (last_of (view (lg_eng s))))"
proof -
  let ?V = "view (lg_eng s)"
  have inv: "inv (lg_eng s)" "raft_ok ?V" using assms by (auto simp: lg_ok_def)
  obtain i i' where i: "eng_NewIterator ops (lg_eng s) = Inr i" "snd (it_Seek ops i keyRaftLogPrefix) = i'" "iok i'"
    and keys: "\<And>c. set (takeWhile (\<lambda>k. is_log_key k \<and> log_key_index k \<le> c) (map fst (rest i'))) = raftLogKey ` {i \<in> dom (log_of ?V). i \<le> c}"
    by (rule seek_log [OF inv]) blast
  have "set (takeWhile is_log_key (map fst (rest i'))) = raftLogKey ` dom (log_of ?V)" using keys [of "- 1"] by simp
  then have "last_loop ops i' 0 = Some (Max (insert 0 (dom (log_of ?V))))"
    by (simp only: last_loop_eq [OF i(3)] fold_max set_map image_image log_key_index) simp
  moreover have "(if a > Max (insert 0 A) then a else Max (insert 0 A)) = Max (insert 0 (insert a A))" for a :: u64 and A
    unfolding if_max by (subst insert_commute) (rule Max_insert [OF finite insert_not_empty, symmetric])
  ultimately show ?thesis using loadSnapshotMeta_eq [OF assms] i by (simp add: scanLastIndex_def last_of_def)
qed

text \<open>The cache never shows.\<close>

lemma LastIndex_eq:
  assumes "lg_ok inv view s"
  shows "\<exists>s'. LastIndex ops s = Some (Inr (last_of (view (lg_eng s))), s') \<and> lg_eng s' = lg_eng s \<and> lg_ok inv view s'"
  using assms scanLastIndex_eq [OF assms] by (auto simp: LastIndex_def lg_ok_def)

end

section \<open>The operations keep the contract\<close>

definition disk_of :: "(bytes \<rightharpoonup> bytes) \<Rightarrow> raft_disk" where
  "disk_of V = \<lparr>d_hs = hs_of V, d_applied = applied_of V, d_snap = snap_of V, d_data = V keyRaftSnapshotData, d_log = log_of V\<rparr>"

lemma disk_of_sel [simp]:
  "d_hs (disk_of V) = hs_of V" "d_applied (disk_of V) = applied_of V" "d_snap (disk_of V) = snap_of V"
  "d_data (disk_of V) = V keyRaftSnapshotData" "d_log (disk_of V) = log_of V" "d_last (disk_of V) = last_of V"
  by (simp_all add: disk_of_def d_last_def last_of_def)

lemma disk_of_put [simp]:
  "disk_of (V(keyRaftHardState \<mapsto> marshalHardState hs)) = (disk_of V)\<lparr>d_hs := hs\<rparr>"
  "disk_of (V(keyRaftApplied \<mapsto> be_bytes 8 (unat i))) = (disk_of V)\<lparr>d_applied := i\<rparr>"
  "disk_of (V(keyRaftSnapshotData \<mapsto> x)) = (disk_of V)\<lparr>d_data := Some x\<rparr>"
  "disk_of (V(keyRaftSnapshotMeta \<mapsto> marshalSnapshotMeta m)) = (disk_of V)\<lparr>d_snap := m\<rparr>"
  "disk_of (V(raftLogKey j \<mapsto> marshalEntry e)) = (disk_of V)\<lparr>d_log := (log_of V)(j \<mapsto> e)\<rparr>"
  "disk_of (V(raftLogKey j := None)) = (disk_of V)\<lparr>d_log := (log_of V)(j := None)\<rparr>"
  using other_keys [THEN not_sym] raftLogKey_other [THEN not_sym] by (simp_all add: disk_of_def)

lemma last_of_other [simp]: "\<not> is_log_key k \<Longrightarrow> k \<noteq> keyRaftSnapshotMeta \<Longrightarrow> last_of (V(k := x)) = last_of V"
  by (simp add: last_of_def)

lemma last_of_ge: "i \<in> dom (log_of V) \<Longrightarrow> i \<le> last_of V"
  by (simp add: last_of_def)

context storage_engine
begin

abbreviation dsk :: "'e lsmLogStorage \<Rightarrow> raft_disk" where "dsk s \<equiv> disk_of (view (lg_eng s))"

lemma Append_ok:
  "lg_ok inv view s \<Longrightarrow> \<exists>s'. AppendEntries ops s es = (s', None) \<and> lg_ok inv view s' \<and>
     dsk s' = (dsk s)\<lparr>d_log := d_append es (d_log (dsk s))\<rparr>"
proof (induction es arbitrary: s)
  case (Cons e es)
  let ?V = "view (lg_eng s)"
  have "inv (lg_eng s)" using Cons(2) by (simp add: lg_ok_def)
  then obtain g where g: "put_eng ops s (raftLogKey (e_Index e)) (marshalEntry e) = (s\<lparr>lg_eng := g\<rparr>, None)" "inv g"
    "view g = ?V(raftLogKey (e_Index e) \<mapsto> marshalEntry e)" using put_eng_ok by blast
  let ?s = "if lg_lastIdxValid s \<and> e_Index e > lg_lastIdx s then s\<lparr>lg_eng := g, lg_lastIdx := e_Index e\<rparr> else s\<lparr>lg_eng := g\<rparr>"
  have ok: "lg_ok inv view ?s" "dsk ?s = (dsk s)\<lparr>d_log := (d_log (dsk s))(e_Index e \<mapsto> e)\<rparr>"
    using Cons(2) g raft_ok_put(1) [of ?V e] by (auto simp: lg_ok_def last_of_put_entry max_def)
  have "AppendEntries ops s (e # es) = AppendEntries ops ?s es" using g(1) by simp
  then have "\<exists>s'. AppendEntries ops s (e # es) = (s', None) \<and> lg_ok inv view s' \<and> dsk s' = (dsk ?s)\<lparr>d_log := d_append es (d_log (dsk ?s))\<rparr>"
    using Cons(1) [OF ok(1)] by presburger
  then show ?case unfolding ok(2) by (simp add: d_append_def del: AppendEntries.simps fun_upd_apply)
qed (simp add: d_append_def)

lemma Save_ok:
  assumes "lg_ok inv view s"
  shows "\<exists>s'. SaveHardState ops s hs = (s', None) \<and> lg_ok inv view s' \<and> dsk s' = (dsk s)\<lparr>d_hs := hs\<rparr>"
    and "\<exists>s'. SaveApplied ops s i = (s', None) \<and> lg_ok inv view s' \<and> dsk s' = (dsk s)\<lparr>d_applied := i\<rparr>"
proof -
  have inv: "inv (lg_eng s)" using assms by (simp add: lg_ok_def)
  show "\<exists>s'. SaveHardState ops s hs = (s', None) \<and> lg_ok inv view s' \<and> dsk s' = (dsk s)\<lparr>d_hs := hs\<rparr>"
    using put_eng_ok [OF inv, of keyRaftHardState "marshalHardState hs"] assms raft_ok_put(2) by (auto simp: SaveHardState_def lg_ok_def)
  show "\<exists>s'. SaveApplied ops s i = (s', None) \<and> lg_ok inv view s' \<and> dsk s' = (dsk s)\<lparr>d_applied := i\<rparr>"
    using put_eng_ok [OF inv, of keyRaftApplied "be_bytes 8 (unat i)"] assms raft_ok_put(3) by (auto simp: SaveApplied_def lg_ok_def)
qed

lemma SaveSnapshot_ok:
  assumes "lg_ok inv view s" "\<not> snapshot_IsEmpty snap"
  shows "\<exists>s'. SaveSnapshot ops s snap = (s', None) \<and> lg_ok inv view s' \<and>
    dsk s' = (dsk s)\<lparr>d_snap := s_Metadata snap, d_data := Some (s_Data snap)\<rparr>"
proof -
  have "inv (lg_eng s)" using assms by (simp add: lg_ok_def)
  then obtain g where g: "put_eng ops s keyRaftSnapshotData (s_Data snap) = (s\<lparr>lg_eng := g\<rparr>, None)" "inv g"
    "view g = (view (lg_eng s))(keyRaftSnapshotData \<mapsto> s_Data snap)" using put_eng_ok by blast
  obtain h where h: "put_eng ops (s\<lparr>lg_eng := g\<rparr>) keyRaftSnapshotMeta (marshalSnapshotMeta (s_Metadata snap)) = (s\<lparr>lg_eng := h\<rparr>, None)" "inv h"
    "view h = (view g)(keyRaftSnapshotMeta \<mapsto> marshalSnapshotMeta (s_Metadata snap))" using put_eng_ok [of "s\<lparr>lg_eng := g\<rparr>"] g(2) by auto
  show ?thesis using assms g h raft_ok_put(4,5) by (auto simp: SaveSnapshot_def lg_ok_def)
qed

lemma delete_keys_ok:
  "inv (lg_eng s) \<Longrightarrow> raft_ok (view (lg_eng s)) \<Longrightarrow> \<exists>g. delete_keys ops s (map raftLogKey is) = (s\<lparr>lg_eng := g\<rparr>, None) \<and> inv g \<and> raft_ok (view g) \<and>
     disk_of (view g) = (dsk s)\<lparr>d_log := log_of (view (lg_eng s)) |` (- set is)\<rparr>"
proof (induction "is" arbitrary: s)
  case Nil
  then show ?case by (intro exI [of _ "lg_eng s"]) (simp add: restrict_map_def disk_of_def)
next
  case (Cons i "is")
  obtain g where g: "eng_Delete ops (lg_eng s) (raftLogKey i) = (g, None)" "inv g" "view g = (view (lg_eng s))(raftLogKey i := None)"
    using Delete [OF Cons(2)] by blast
  have eq: "((log_of (view (lg_eng s)))(i := None)) |` (- set is) = log_of (view (lg_eng s)) |` (- insert i (set is))"
    by (auto simp: restrict_map_def)
  show ?case
    using Cons(1) [of "s\<lparr>lg_eng := g\<rparr>"] g raft_ok_put(6) [OF Cons(3)] eq by (simp del: fun_upd_apply restrict_fun_upd)
qed

lemma Compact_ok:
  assumes "lg_ok inv view s"
  shows "\<exists>s'. Compact ops s c = Some (s', None) \<and> lg_ok inv view s' \<and>
    dsk s' = (dsk s)\<lparr>d_log := (if c = 0 then d_log (dsk s) else d_log (dsk s) |` {i. c < i})\<rparr>"
proof (cases "c = 0")
  case True
  then show ?thesis using assms by (simp add: Compact_def disk_of_def)
next
  case False
  let ?V = "view (lg_eng s)" let ?s = "s\<lparr>lg_lastIdxValid := False\<rparr>"
  have inv: "inv (lg_eng s)" "raft_ok ?V" using assms by (auto simp: lg_ok_def)
  obtain i i' where i: "eng_NewIterator ops (lg_eng s) = Inr i" "snd (it_Seek ops i keyRaftLogPrefix) = i'" "iok i'"
    and keys: "\<And>c. set (takeWhile (\<lambda>k. is_log_key k \<and> log_key_index k \<le> c) (map fst (rest i'))) = raftLogKey ` {i \<in> dom (log_of ?V). i \<le> c}"
    by (rule seek_log [OF inv]) blast
  let ?ks = "takeWhile (\<lambda>k. is_log_key k \<and> log_key_index k \<le> c) (map fst (rest i'))"
  define js where "js = map log_key_index ?ks"
  have "map (\<lambda>k. raftLogKey (log_key_index k)) ?ks = ?ks" using keys [of c] by (intro map_idI) auto
  then have js: "?ks = map raftLogKey js" by (simp add: js_def comp_def)
  have "set js = {i \<in> dom (log_of ?V). i \<le> c}" unfolding js_def set_map keys by force
  then have restr: "log_of ?V |` (- set js) = log_of ?V |` {i. c < i}" by (fastforce simp: restrict_map_def not_le domIff)
  obtain g where "delete_keys ops ?s (map raftLogKey js) = (?s\<lparr>lg_eng := g\<rparr>, None)" "inv g" "raft_ok (view g)"
    "disk_of (view g) = (dsk s)\<lparr>d_log := log_of ?V |` (- set js)\<rparr>" using delete_keys_ok [of ?s js] inv by auto
  then show ?thesis using False i js restr by (auto simp: Compact_def Let_def delete_loop_eq lg_ok_def)
qed

lemma entries_loop_eq:
  assumes "lg_ok inv view s"
  shows "\<forall>i \<in> set is. log_of (view (lg_eng s)) i \<noteq> None \<Longrightarrow> entries_loop ops s is = Inr (map (\<lambda>i. the (log_of (view (lg_eng s)) i)) is)"
proof (induction "is")
  case (Cons i "is")
  then obtain e where "log_of (view (lg_eng s)) i = Some e" by auto
  then show ?case using Cons assms raft_ok_log_of [of "view (lg_eng s)" i e] by (auto simp: lg_ok_def Get)
qed simp

lemma raft_store: "raft_store (lsm_log_storage ops) (lg_ok inv view) (\<lambda>s. disk_of (view (lg_eng s)))"
proof
  fix s lo hi i
  assume ok: "lg_ok inv view s"
  let ?L = "lsm_log_storage ops"
  have inv: "inv (lg_eng s)" "raft_ok (view (lg_eng s))" using ok by (auto simp: lg_ok_def)
  show "ls_InitialState ?L s = Inr (d_hs (dsk s))"
    using inv by (auto simp: lsm_log_storage_def InitialState_def raft_ok_def hs_of_def Get split: option.split)
  show "ls_FirstIndex ?L s = Inr (d_first (dsk s))"
    using loadSnapshotMeta_eq [OF ok] by (simp add: lsm_log_storage_def FirstIndex_def d_first_def)
  show "ls_LastIndex ?L s = Inr (d_last (dsk s))"
    using LastIndex_eq [OF ok] by (auto simp: lsm_log_storage_def)
  show "ls_Term ?L s i = d_term (dsk s) i"
    using loadSnapshotMeta_eq [OF ok] inv raft_ok_log_of [OF inv(2), of i] raft_ok_log_of_None [OF inv(2), of i]
    by (cases "log_of (view (lg_eng s)) i") (auto simp: lsm_log_storage_def Term_def d_term_def Get)
  show "ls_Entries ?L s lo hi = Some (Inr (map (\<lambda>n. the (d_log (dsk s) (of_nat n))) [unat lo..<unat hi]))"
    if "unat (hi - lo) * 40 \<le> 2 ^ 48" "\<forall>n \<in> {unat lo..<unat hi}. d_log (dsk s) (of_nat n) \<noteq> None"
    using that entries_loop_eq [OF ok, of "map of_nat [unat lo..<unat hi]"] by (simp add: lsm_log_storage_def Entries_def comp_def)
  show "ls_LoadApplied ?L s = Inr (d_applied (dsk s))"
    using inv by (auto simp: lsm_log_storage_def LoadApplied_def applied_of_def Get split: option.split)
  show "ls_Snapshot ?L s = Inr (d_snapshot (dsk s))"
    using loadSnapshotMeta_eq [OF ok] inv by (auto simp: lsm_log_storage_def Snapshot_def d_snapshot_def Get split: option.split)
next
  fix s hs i es snap c
  assume ok: "lg_ok inv view s"
  let ?L = "lsm_log_storage ops"
  show "\<exists>s'. ls_SaveHardState ?L s hs = (s', None) \<and> lg_ok inv view s' \<and> dsk s' = (dsk s)\<lparr>d_hs := hs\<rparr>"
    using Save_ok(1) [OF ok] by (simp add: lsm_log_storage_def)
  show "\<exists>s'. ls_SaveApplied ?L s i = (s', None) \<and> lg_ok inv view s' \<and> dsk s' = (dsk s)\<lparr>d_applied := i\<rparr>"
    using Save_ok(2) [OF ok] by (simp add: lsm_log_storage_def)
  show "\<exists>s'. ls_AppendEntries ?L s es = (s', None) \<and> lg_ok inv view s' \<and> dsk s' = (dsk s)\<lparr>d_log := d_append es (d_log (dsk s))\<rparr>"
    using Append_ok [OF ok] by (simp add: lsm_log_storage_def)
  show "\<exists>s'. ls_SaveSnapshot ?L s snap = (s', None) \<and> lg_ok inv view s' \<and>
      dsk s' = (dsk s)\<lparr>d_snap := s_Metadata snap, d_data := Some (s_Data snap)\<rparr>" if "\<not> snapshot_IsEmpty snap"
    using SaveSnapshot_ok [OF ok that] by (simp add: lsm_log_storage_def)
  show "\<exists>s'. ls_Compact ?L s c = (s', None) \<and> lg_ok inv view s' \<and>
      dsk s' = (dsk s)\<lparr>d_log := (if c = 0 then d_log (dsk s) else d_log (dsk s) |` {i. c < i})\<rparr>"
    using Compact_ok [OF ok, of c] by (auto simp: lsm_log_storage_def)
qed

end

text \<open>The storage on the engines of the program.\<close>

interpretation lsm_log: raft_store "lsm_log_storage (lsm_engine env)" "lg_ok (lsm_inv env) lsm_view" "\<lambda>s. disk_of (lsm_view (lg_eng s))" for env
  by (rule lsm_eng.raft_store)

interpretation kv_log: raft_store "lsm_log_storage (kv_engine env)" "lg_ok kv_inv kv_view" "\<lambda>s. disk_of (kv_view (lg_eng s))" for env
  by (rule kv_eng.raft_store)

end
