(* ===== verification/Raft_Props.thy ===== *)
theory Raft_Props
  imports Raft_Node Raft_Storage
begin

text \<open>
  Properties of the Raft state machine that hold whatever the stable storage answers:
  terms and commit indices never go back, the maps of a role exist and count every peer once,
  a leader has a quorum of votes and commits on a quorum in its own term, and probing changes
  nothing. The last section shows where the election rules of the code let a vote count twice.
\<close>

section \<open>What each step leaves alone\<close>

lemma send_sel [simp]:
  "rn_id (send rn m) = rn_id rn" "rn_state (send rn m) = rn_state rn" "rn_term (send rn m) = rn_term rn"
  "rn_votedFor (send rn m) = rn_votedFor rn" "rn_votes (send rn m) = rn_votes rn" "rn_leadID (send rn m) = rn_leadID rn"
  "rn_peers (send rn m) = rn_peers rn" "rn_nextIndex (send rn m) = rn_nextIndex rn" "rn_matchIndex (send rn m) = rn_matchIndex rn"
  "rn_recentActive (send rn m) = rn_recentActive rn" "rn_log (send rn m) = rn_log rn"
  "rn_electionElapsed (send rn m) = rn_electionElapsed rn" "rn_electionTimeout (send rn m) = rn_electionTimeout rn"
  "rn_checkQuorum (send rn m) = rn_checkQuorum rn" "rn_preVote (send rn m) = rn_preVote rn"
  "rn_msgs (send rn m) = rn_msgs rn @ [m\<lparr>msg_From := rn_id rn\<rparr>]"
  by (simp_all add: send_def)

lemma draw_timeout_sel [simp]:
  "rn_id (draw_timeout rn) = rn_id rn" "rn_state (draw_timeout rn) = rn_state rn" "rn_term (draw_timeout rn) = rn_term rn"
  "rn_votedFor (draw_timeout rn) = rn_votedFor rn" "rn_votes (draw_timeout rn) = rn_votes rn" "rn_leadID (draw_timeout rn) = rn_leadID rn"
  "rn_peers (draw_timeout rn) = rn_peers rn" "rn_nextIndex (draw_timeout rn) = rn_nextIndex rn" "rn_matchIndex (draw_timeout rn) = rn_matchIndex rn"
  "rn_recentActive (draw_timeout rn) = rn_recentActive rn" "rn_log (draw_timeout rn) = rn_log rn"
  "rn_electionElapsed (draw_timeout rn) = rn_electionElapsed rn"
  "rn_checkQuorum (draw_timeout rn) = rn_checkQuorum rn" "rn_preVote (draw_timeout rn) = rn_preVote rn" "rn_msgs (draw_timeout rn) = rn_msgs rn"
  by (simp_all add: draw_timeout_def)

text \<open>Broadcasts and appends touch the outbox and the next indices only.\<close>

definition same_core :: "'s rawNode \<Rightarrow> 's rawNode \<Rightarrow> bool" where
  "same_core rn rn' \<longleftrightarrow> rn_id rn' = rn_id rn \<and> rn_state rn' = rn_state rn \<and> rn_term rn' = rn_term rn \<and>
     rn_votedFor rn' = rn_votedFor rn \<and> rn_votes rn' = rn_votes rn \<and> rn_leadID rn' = rn_leadID rn \<and> rn_peers rn' = rn_peers rn \<and>
     rn_matchIndex rn' = rn_matchIndex rn \<and> rn_recentActive rn' = rn_recentActive rn \<and> rn_log rn' = rn_log rn \<and>
     (rn_nextIndex rn \<noteq> None \<longrightarrow> rn_nextIndex rn' \<noteq> None)"

lemma same_core_refl [simp]: "same_core rn rn"
  by (simp add: same_core_def)

lemma same_core_trans: "same_core a b \<Longrightarrow> same_core b c \<Longrightarrow> same_core a c"
  by (auto simp: same_core_def)

lemma same_core_send [simp]: "same_core rn (send rn m)"
  by (simp add: same_core_def)

lemma map_put_None [simp]: "map_put k v None = None" and map_put_Some [simp]: "map_put k v (Some m) = Some (Some (AList.update k v m))"
  by (simp_all add: map_put_def)

lemma sendAppend_core: "sendAppend ls rn d = Some rn' \<Longrightarrow> same_core rn rn'"
  by (auto simp: sendAppend_def Let_def same_core_def map_put_def split: if_splits bind_splits)

lemma append_loop_core: "append_loop ls ps rn = Some rn' \<Longrightarrow> same_core rn rn'"
  by (induction ls ps rn rule: append_loop.induct)
    (auto split: if_splits bind_splits dest!: sendAppend_core intro: same_core_trans)

lemma bcastAppend_core: "bcastAppend ls rn = Some rn' \<Longrightarrow> same_core rn rn'"
  unfolding bcastAppend_def by (rule append_loop_core)

lemma bcast_votes_core: "bcast_votes ls t term ps rn = Some rn' \<Longrightarrow> same_core rn rn'"
proof (induction ls t "term" ps rn rule: bcast_votes.induct)
  case (2 ls t "term" p ps rn)
  then show ?case by (auto split: if_splits bind_splits intro: same_core_trans [OF same_core_send])
qed simp

lemma bcastHeartbeat_core: "same_core rn (bcastHeartbeat rn)"
proof -
  have "same_core rn' (fold (\<lambda>p rn. if p = rn_id rn then rn
      else (let m = map_get 0 p (rn_matchIndex rn); c = l_committed (rn_log rn)
            in send rn ((zeroMessage MsgHeartbeat)\<lparr>msg_To := p, msg_Term := rn_term rn, msg_Commit := (if m < c then m else c)\<rparr>))) ps rn')" for ps rn'
    by (induction ps arbitrary: rn') (auto simp: Let_def intro: same_core_trans [OF same_core_send])
  then show ?thesis unfolding bcastHeartbeat_def .
qed

section \<open>Committing\<close>

lemma word_le_pred: "(n :: 64 word) \<noteq> 0 \<Longrightarrow> j \<le> n \<longleftrightarrow> j \<le> n - 1 \<or> j = n"
  by (auto simp: word_le_nat_alt unat_minus_one word_unat_eq_iff unat_gt_0 [symmetric] simp del: unat_gt_0)

lemma advance_loop_cases:
  assumes "advance_loop ls rn n = Some rn'"
  shows "rn' = rn \<or> (\<exists>k. l_committed (rn_log rn) < k \<and> k \<le> n \<and> log_term ls (rn_log rn) k = Some (Inr (rn_term rn)) \<and>
    quorum rn \<le> match_count rn k \<and> (\<forall>j. k < j \<and> j \<le> n \<longrightarrow> match_count rn j < quorum rn) \<and>
    rn' = rn\<lparr>rn_log := (rn_log rn)\<lparr>l_committed := k\<rparr>\<rparr>)"
  using assms
proof (induction ls rn n rule: advance_loop.induct)
  case (1 ls rn n)
  show ?case
  proof (cases "n > l_committed (rn_log rn)")
    case True
    then have n0: "n \<noteq> 0" by (metis word_not_simps(1))
    have pred: "j \<le> n \<longleftrightarrow> j \<le> n - 1 \<or> j = n" for j by (rule word_le_pred [OF n0])
    show ?thesis
    proof (cases "log_term ls (rn_log rn) n = Some (Inr (rn_term rn)) \<and> match_count rn n < quorum rn")
      case go: True
      then have "advance_loop ls rn (n - 1) = Some rn'"
        using 1(2) True by (subst (asm) advance_loop.simps) auto
      from 1(1) [OF True _ _ _ _ this] go obtain "rn' = rn \<or> (\<exists>k. l_committed (rn_log rn) < k \<and> k \<le> n - 1 \<and> log_term ls (rn_log rn) k = Some (Inr (rn_term rn)) \<and>
        quorum rn \<le> match_count rn k \<and> (\<forall>j. k < j \<and> j \<le> n - 1 \<longrightarrow> match_count rn j < quorum rn) \<and>
        rn' = rn\<lparr>rn_log := (rn_log rn)\<lparr>l_committed := k\<rparr>\<rparr>)" by auto
      then show ?thesis using go pred by auto
    next
      case False
      have "rn' = rn \<or> (log_term ls (rn_log rn) n = Some (Inr (rn_term rn)) \<and> quorum rn \<le> match_count rn n \<and>
        rn' = rn\<lparr>rn_log := log_commitTo (rn_log rn) n\<rparr>)"
      proof -
        have eq: "(case log_term ls (rn_log rn) n of
             None \<Rightarrow> None
           | Some (Inl _) \<Rightarrow> Some rn
           | Some (Inr t) \<Rightarrow>
               if t \<noteq> rn_term rn then Some rn
               else if match_count rn n \<ge> quorum rn then Some (rn\<lparr>rn_log := log_commitTo (rn_log rn) n\<rparr>)
               else advance_loop ls rn (n - 1)) = Some rn'"
          using 1(2) advance_loop.simps [of ls rn n] True by argo
        show ?thesis
        proof (cases "log_term ls (rn_log rn) n")
          case (Some r)
          then show ?thesis using eq False by (cases r) (auto simp: not_less split: if_splits)
        qed (use eq in simp)
      qed
      moreover have "log_commitTo (rn_log rn) n = (rn_log rn)\<lparr>l_committed := n\<rparr>" using True by (simp add: log_commitTo_def)
      ultimately show ?thesis using True by (intro disj_forward [OF _ _ exI [of _ n]]) (auto simp: leD)
    qed
  next
    case False
    then show ?thesis using 1(2) by (subst (asm) advance_loop.simps) simp
  qed
qed

section \<open>Steps go forward\<close>

text \<open>
  Terms and commit indices never decrease, membership and identity stay, the maps a role uses
  exist and name every peer at most once, and a node that becomes leader has recorded a quorum.
\<close>

definition maps_ok :: "'s rawNode \<Rightarrow> bool" where
  "maps_ok rn \<longleftrightarrow>
     (rn_state rn = StateLeader \<longrightarrow> rn_nextIndex rn \<noteq> None \<and> rn_recentActive rn \<noteq> None \<and>
        (\<exists>m. rn_matchIndex rn = Some m \<and> distinct (map fst m))) \<and>
     (rn_state rn \<noteq> StateFollower \<longrightarrow>
        (\<exists>v. rn_votes rn = Some v \<and> distinct (map fst v) \<and>
             (rn_state rn = StateLeader \<longrightarrow> length (rn_peers rn) div 2 + 1 \<le> length (filter snd v))))"

definition forward :: "'s rawNode \<Rightarrow> 's rawNode \<Rightarrow> bool" where
  "forward rn rn' \<longleftrightarrow> rn_id rn' = rn_id rn \<and> rn_peers rn' = rn_peers rn \<and> rn_term rn \<le> rn_term rn' \<and>
     l_committed (rn_log rn) \<le> l_committed (rn_log rn') \<and> (maps_ok rn \<longrightarrow> maps_ok rn')"

lemma forward_refl [simp]: "forward rn rn"
  by (simp add: forward_def)

lemma quorum_peers: "rn_peers rn' = rn_peers rn \<Longrightarrow> quorum rn' = quorum rn"
  by (simp add: quorum_def)

lemma same_core_forward: "same_core rn rn' \<Longrightarrow> forward rn rn'"
  by (auto simp: same_core_def forward_def maps_ok_def)

lemma forward_core: "forward a b \<Longrightarrow> same_core b c \<Longrightarrow> forward a c"
  by (auto simp: forward_def same_core_def maps_ok_def quorum_def tallyVotes_def)

lemma forward_trans: "forward a b \<Longrightarrow> forward b c \<Longrightarrow> forward a c"
  by (auto simp: forward_def)

lemma committed_append [simp]: "l_committed (log_append l es) = l_committed l"
  by (simp add: log_append_def Let_def)

lemma committed_commitTo: "l_committed l \<le> l_committed (log_commitTo l n)"
  by (auto simp: log_commitTo_def less_imp_le)

lemma committed_restore: "l_committed l \<le> l_committed (snd (log_restore l snap))"
  by (auto simp: log_restore_def not_le less_imp_le)

lemma maybeAdvanceCommit_core:
  assumes "maybeAdvanceCommit ls rn = Some rn'"
  obtains "rn' = rn" | k where "rn' = rn\<lparr>rn_log := (rn_log rn)\<lparr>l_committed := k\<rparr>\<rparr>" and "l_committed (rn_log rn) < k"
  using advance_loop_cases [OF assms [unfolded maybeAdvanceCommit_def]] by blast

lemma maybeAdvanceCommit_forward:
  assumes "maybeAdvanceCommit ls rn = Some rn'"
  shows "forward rn rn' \<and> rn_state rn' = rn_state rn \<and> rn_votes rn' = rn_votes rn"
  using assms by (rule maybeAdvanceCommit_core) (auto simp: forward_def maps_ok_def)

lemma becomeFollower_forward: "rn_term rn \<le> t \<Longrightarrow> forward rn (becomeFollower rn t lead)"
  by (simp add: becomeFollower_def forward_def maps_ok_def)

lemma distinct_fold_update: "distinct (map fst xs) \<Longrightarrow> distinct (map fst (fold (\<lambda>p. AList.update p (f p)) ps xs))"
  by (induction ps arbitrary: xs) (simp_all add: distinct_update)

lemma becomeLeader_forward:
  assumes "becomeLeader ls rn = Some rn'" "quorum rn \<le> tallyVotes rn" "rn_state rn \<noteq> StateFollower"
  shows "forward rn rn' \<and> rn_state rn' = StateLeader"
proof -
  let ?i = "log_lastIndex ls (rn_log rn)"
  let ?rn1 = "rn\<lparr>rn_state := StateLeader, rn_leadID := rn_id rn, rn_heartbeatElapsed := 0, rn_electionElapsed := 0,
    rn_recentActive := Some [(rn_id rn, True)],
    rn_nextIndex := Some (fold (\<lambda>p. AList.update p (?i + 1)) (rn_peers rn) []),
    rn_matchIndex := Some (AList.update (rn_id rn) (?i + 1) (AList.update (rn_id rn) ?i (fold (\<lambda>p. AList.update p 0) (rn_peers rn) []))),
    rn_log := log_append (rn_log rn) [\<lparr>e_Term = rn_term rn, e_Index = ?i + 1, e_Data = None\<rparr>]\<rparr>"
  obtain rn2 where rn2: "maybeAdvanceCommit ls ?rn1 = Some rn2" "bcastAppend ls rn2 = Some rn'"
    using assms(1) by (auto simp: becomeLeader_def Let_def split: bind_splits)
  have f1: "forward rn ?rn1"
    using assms(2,3) by (auto simp: forward_def maps_ok_def quorum_def tallyVotes_def intro!: distinct_update distinct_fold_update)
  have f2: "forward ?rn1 rn2" "rn_state rn2 = StateLeader" "rn_votes rn2 = rn_votes ?rn1"
    using maybeAdvanceCommit_forward [OF rn2(1)] by auto
  have "forward rn rn2" by (rule forward_trans [OF f1 f2(1)])
  then show ?thesis using forward_core [OF _ bcastAppend_core [OF rn2(2)]] bcastAppend_core [OF rn2(2)] f2(2) by (simp add: same_core_def)
qed

lemma word_le_Suc: "(n :: 64 word) \<noteq> - 1 \<Longrightarrow> n \<le> n + 1"
  using unatSuc [of n] by (simp add: word_le_nat_alt add_eq_0_iff add.commute)

lemma campaign_election_forward:
  assumes "campaign_election ls rn = Some rn'" "rn_term rn \<noteq> - 1"
  shows "forward rn rn'"
proof -
  let ?c = "becomeCandidate rn"
  have c: "forward rn ?c" "rn_state ?c \<noteq> StateFollower"
    using word_le_Suc [OF assms(2)] by (simp_all add: becomeCandidate_def forward_def maps_ok_def)
  show ?thesis
  proof (cases "quorum ?c \<le> tallyVotes ?c")
    case True
    then have "becomeLeader ls ?c = Some rn'" using assms(1) by (simp add: campaign_election_def)
    then show ?thesis using becomeLeader_forward [OF _ True c(2)] forward_trans [OF c(1)] by blast
  next
    case False
    then show ?thesis
      using assms(1) by (auto simp: campaign_election_def Let_def bcastRequestVote_def intro: forward_core [OF c(1)] bcast_votes_core)
  qed
qed

lemma campaign_forward:
  assumes "campaign ls rn pre = Some rn'" "rn_term rn \<noteq> - 1"
  shows "forward rn rn'"
proof (cases pre)
  case True
  let ?c = "becomePreCandidate rn"
  have c: "forward rn ?c" "rn_term ?c \<noteq> - 1"
    using assms(2) by (simp_all add: becomePreCandidate_def forward_def maps_ok_def)
  show ?thesis
  proof (cases "quorum ?c \<le> tallyVotes ?c")
    case True
    then have "campaign_election ls ?c = Some rn'" using assms(1) \<open>pre\<close> by (simp add: campaign_def)
    then show ?thesis using campaign_election_forward [OF _ c(2)] forward_trans [OF c(1)] by blast
  next
    case False
    then show ?thesis
      using assms(1) \<open>pre\<close> by (auto simp: campaign_def Let_def bcastPreVote_def intro: forward_core [OF c(1)] bcast_votes_core)
  qed
qed (use assms campaign_election_forward in \<open>simp add: campaign_def\<close>)

lemma step_vote_core:
  assumes "step_vote ls rn m = Some rn'"
  shows "forward rn rn'" and "msg_Type m = MsgPreVote \<Longrightarrow> \<exists>x. rn' = send rn x"
proof -
  let ?no = "send rn ((zeroMessage (voteRespType (msg_Type m)))\<lparr>msg_To := msg_From m, msg_Term := rn_term rn, msg_Reject := True\<rparr>)"
    and ?yes = "send rn ((zeroMessage (voteRespType (msg_Type m)))\<lparr>msg_To := msg_From m, msg_Term := msg_Term m\<rparr>)"
  obtain b where r: "rn' = (if b then (if msg_Type m = MsgVote then ?yes\<lparr>rn_votedFor := msg_From m, rn_electionElapsed := 0\<rparr> else ?yes) else ?no)"
    using assms unfolding step_vote_def Let_def bind_eq_Some_conv by blast
  note r
  moreover have "forward rn (?yes\<lparr>rn_votedFor := msg_From m, rn_electionElapsed := 0\<rparr>)"
    by (simp add: forward_def maps_ok_def)
  moreover have "forward rn ?yes" "forward rn ?no" by (simp_all add: same_core_forward)
  ultimately show "forward rn rn'" by presburger
  assume "msg_Type m = MsgPreVote"
  then have "rn' = ?yes \<or> rn' = ?no" using r by (cases b) simp_all
  then show "\<exists>x. rn' = send rn x" by blast
qed

lemma step_voteResp_forward:
  assumes "step_voteResp ls rn m = Some rn'"
  shows "forward rn rn'"
proof (cases "rn_state rn = StateCandidate")
  case True
  then obtain v where v: "rn_votes rn = Some v" using assms by (cases "rn_votes rn") (auto simp: step_voteResp_def)
  let ?r = "rn\<lparr>rn_votes := Some (AList.update (msg_From m) (\<not> msg_Reject m) v)\<rparr>"
  have f: "forward rn ?r" using True v by (auto simp: forward_def maps_ok_def distinct_update)
  show ?thesis
  proof (cases "quorum ?r \<le> tallyVotes ?r")
    case q: True
    then have "becomeLeader ls ?r = Some rn'" using assms True v by (simp add: step_voteResp_def)
    then show ?thesis using becomeLeader_forward [OF _ q] forward_trans [OF f] True by auto
  next
    case False
    then show ?thesis using assms True v f by (auto simp: step_voteResp_def)
  qed
qed (use assms in \<open>simp add: step_voteResp_def\<close>)

lemma step_preVoteResp_forward:
  assumes "step_preVoteResp ls rn m = Some rn'" "rn_term rn \<noteq> - 1"
  shows "forward rn rn'"
proof (cases "rn_state rn = StatePreCandidate")
  case True
  then obtain v where v: "rn_votes rn = Some v" using assms by (cases "rn_votes rn") (auto simp: step_preVoteResp_def)
  let ?r = "rn\<lparr>rn_votes := Some (AList.update (msg_From m) (\<not> msg_Reject m) v)\<rparr>"
  have f: "forward rn ?r" "rn_term ?r \<noteq> - 1" using True v assms(2) by (auto simp: forward_def maps_ok_def distinct_update)
  show ?thesis
  proof (cases "quorum ?r \<le> tallyVotes ?r")
    case q: True
    then have "campaign ls ?r False = Some rn'" using assms True v by (simp add: step_preVoteResp_def)
    then show ?thesis using campaign_forward [OF _ f(2)] forward_trans [OF f(1)] True by auto
  next
    case False
    then show ?thesis using assms True v f by (auto simp: step_preVoteResp_def)
  qed
qed (use assms in \<open>simp add: step_preVoteResp_def\<close>)

lemma step_prop_forward:
  assumes "step_prop ls rn m = Some rn'"
  shows "forward rn rn'"
proof (cases "rn_state rn = StateLeader")
  case True
  obtain l x mi r2 where r: "rn_matchIndex rn = Some mi" "bcastAppend ls (rn\<lparr>rn_log := log_append (rn_log rn) l, rn_matchIndex := Some (AList.update (rn_id rn) x mi)\<rparr>) = Some r2"
    "maybeAdvanceCommit ls r2 = Some rn'"
    using assms True by (cases "rn_matchIndex rn") (auto simp: step_prop_def Let_def split: bind_splits)
  have "forward rn (rn\<lparr>rn_log := log_append (rn_log rn) l, rn_matchIndex := Some (AList.update (rn_id rn) x mi)\<rparr>)"
    using True r(1) by (auto simp: forward_def maps_ok_def distinct_update)
  then have "forward rn r2" by (rule forward_core [OF _ bcastAppend_core [OF r(2)]])
  then show ?thesis using maybeAdvanceCommit_forward [OF r(3)] forward_trans by blast
qed (use assms in \<open>simp add: step_prop_def\<close>)

lemma step_app_forward:
  assumes "step_app ls rn m = Some rn'"
  shows "forward rn rn'"
proof (cases "msg_Term m < rn_term rn")
  case True
  then show ?thesis using assms by (auto simp: step_app_def reject_append_def intro: same_core_forward)
next
  case False
  let ?f = "becomeFollower rn (msg_Term m) (msg_From m)"
  have f: "forward rn ?f" "rn_state ?f = StateFollower" using False becomeFollower_forward by (auto simp: becomeFollower_def not_less)
  obtain l x where "rn' = send (?f\<lparr>rn_log := l\<rparr>) x" "l_committed (rn_log ?f) \<le> l_committed l"
    using assms False
    by (auto simp: step_app_def reject_append_def Let_def log_commitTo_def less_imp_le split: bind_splits if_splits)
      (metis (no_types, lifting) committed_append order_refl rawNode.surjective rawNode.update_convs(13))+
  then have "forward ?f rn'" using f(2) by (auto simp: forward_def maps_ok_def)
  then show ?thesis using forward_trans [OF f(1)] f(2) by auto
qed

lemma map_put_cases:
  assumes "map_put k v mo = Some r"
  obtains m where "mo = Some m" and "r = Some (AList.update k v m)"
  using assms by (cases mo) auto

lemma step_appResp_forward:
  assumes "step_appResp ls rn m = Some rn'"
  shows "forward rn rn'"
proof (cases "rn_state rn = StateLeader")
  case leader: True
  let ?id = "msg_From m"
  obtain ra where ra: "map_put ?id True (rn_recentActive rn) = Some ra" using assms leader by (auto simp: step_appResp_def bind_eq_Some_conv)
  let ?r = "rn\<lparr>rn_recentActive := ra\<rparr>"
  have f: "forward rn ?r" using leader map_put_cases [OF ra] by (auto simp: forward_def maps_ok_def)
  show ?thesis
  proof (cases "msg_Reject m")
    case True
    then obtain ni where ni: "sendAppend ls (?r\<lparr>rn_nextIndex := ni\<rparr>) ?id = Some rn'" "rn_nextIndex rn \<noteq> None \<longrightarrow> ni \<noteq> None"
      using assms leader ra by (auto simp: step_appResp_def Let_def map_put_def split: bind_splits if_splits)
    have "forward rn (?r\<lparr>rn_nextIndex := ni\<rparr>)" using f ni(2) by (auto simp: forward_def maps_ok_def quorum_def tallyVotes_def)
    then show ?thesis by (rule forward_core [OF _ sendAppend_core [OF ni(1)]])
  next
    case False
    obtain r2 where r2: "forward rn r2" "maybeAdvanceCommit ls r2 = Some rn'"
    proof (cases "msg_Index m > map_get 0 ?id (rn_matchIndex rn)")
      case True
      obtain mi ni where n: "map_put ?id (msg_Index m) (rn_matchIndex rn) = Some mi" "map_put ?id (msg_Index m + 1) (rn_nextIndex rn) = Some ni"
        "maybeAdvanceCommit ls (?r\<lparr>rn_matchIndex := mi, rn_nextIndex := ni\<rparr>) = Some rn'"
        using assms leader ra False True by (auto simp: step_appResp_def Let_def bind_eq_Some_conv)
      obtain mm nn where "rn_matchIndex rn = Some mm" "mi = Some (AList.update ?id (msg_Index m) mm)" "ni = Some nn"
        using map_put_cases [OF n(1)] map_put_cases [OF n(2)] by metis
      then show thesis using f leader by (intro that [OF _ n(3)]) (auto simp: forward_def maps_ok_def distinct_update)
    next
      case le: False
      then show thesis using assms leader ra False f by (intro that [of ?r]) (auto simp: step_appResp_def Let_def)
    qed
    then show ?thesis using maybeAdvanceCommit_forward [OF r2(2)] forward_trans [OF r2(1)] by blast
  qed
qed (use assms in \<open>simp add: step_appResp_def\<close>)

lemma step_heartbeat_forward: "forward rn (step_heartbeat ls rn m)"
  using committed_commitTo [of "rn_log rn"]
  by (auto simp: step_heartbeat_def Let_def forward_def maps_ok_def)

lemma step_heartbeatResp_forward:
  assumes "step_heartbeatResp ls rn m = Some rn'"
  shows "forward rn rn'"
proof (cases "rn_state rn = StateLeader")
  case leader: True
  obtain ra where ra: "map_put (msg_From m) True (rn_recentActive rn) = Some ra" using assms leader by (auto simp: step_heartbeatResp_def bind_eq_Some_conv)
  let ?r = "rn\<lparr>rn_recentActive := ra\<rparr>"
  have f: "forward rn ?r" using leader map_put_cases [OF ra] by (auto simp: forward_def maps_ok_def)
  have "rn' = ?r \<or> sendAppend ls ?r (msg_From m) = Some rn'"
    using assms leader ra by (auto simp: step_heartbeatResp_def Let_def split: if_splits)
  then show ?thesis using f forward_core [OF f sendAppend_core] by blast
qed (use assms in \<open>simp add: step_heartbeatResp_def\<close>)

lemma step_snap_forward: "forward rn (step_snap ls rn m)"
proof (cases "msg_Term m < rn_term rn")
  case True
  then show ?thesis by (simp add: step_snap_def reject_append_def same_core_forward)
next
  case False
  let ?f = "becomeFollower rn (msg_Term m) (msg_From m)"
  have f: "forward rn ?f" "rn_state ?f = StateFollower" using False becomeFollower_forward by (auto simp: becomeFollower_def not_less)
  have "forward ?f (step_snap ls rn m)"
    using False f(2) committed_restore [of "rn_log ?f" "msg_Snapshot m"]
    by (auto simp: step_snap_def Let_def forward_def maps_ok_def split: prod.splits)
  then show ?thesis using forward_trans [OF f(1)] f(2) by auto
qed

lemma adopt_term_forward:
  assumes "adopt_term rn m = Some rn'"
  shows "forward rn rn' \<and> (rn_state rn' = StateLeader \<longrightarrow> rn' = rn) \<and> rn_term rn' \<in> {rn_term rn, msg_Term m}"
  using assms becomeFollower_forward [of rn "msg_Term m"]
  by (auto simp: adopt_term_def becomeFollower_def less_imp_le split: if_splits)

lemma Step_forward:
  assumes "Step ls rn m = Some rn'" "rn_term rn \<noteq> - 1" "msg_Term m \<noteq> - 1"
  shows "forward rn rn'"
proof (cases "adopt_term rn m")
  case (Some r)
  note at = adopt_term_forward [OF Some]
  have t: "rn_term r \<noteq> - 1" using at assms(2,3) by auto
  have "forward r rn' \<and> (rn_state r = StateLeader \<longrightarrow> r = rn)"
  proof
    show "forward r rn'"
    proof (cases "msg_Type m")
      case MsgHup
      then have "hup ls r = Some rn'" using assms(1) Some by (simp add: Step_def)
      then show ?thesis using campaign_forward [OF _ t] by (auto simp: hup_def split: if_splits)
    next
      case MsgBeat
      then show ?thesis using assms(1) Some same_core_forward [OF bcastHeartbeat_core] by (auto simp: Step_def split: if_splits)
    qed (use assms(1) Some step_vote_core(1) [of ls r m] step_voteResp_forward [of ls r m] step_preVoteResp_forward [OF _ t, of ls m]
          step_prop_forward [of ls r m] step_app_forward [of ls r m] step_appResp_forward [of ls r m] step_heartbeat_forward [of r ls m]
          step_heartbeatResp_forward [of ls r m] step_snap_forward [of r ls m] in \<open>auto simp: Step_def\<close>)
  qed (use at in blast)
  then show ?thesis using at forward_trans [of rn r rn'] by blast
qed (use assms(1) in \<open>simp add: Step_def\<close>)

lemma self_message_Term [simp]: "msg_Term (self_message rn t) = 0" "msg_Type (self_message rn t) = t"
  by (simp_all add: self_message_def zeroMessage_def)

lemma Step_self_forward:
  assumes "Step ls r (self_message x t) = Some rn'" "same_core rn r" "rn_term rn \<noteq> - 1" "rn_state rn = StateLeader \<longrightarrow> t = MsgBeat"
  shows "forward rn rn'"
proof (cases "rn_state rn = StateLeader")
  case True
  then have "rn' = r \<or> rn' = bcastHeartbeat r"
    using assms by (auto simp: Step_def adopt_term_def split: if_splits)
  then show ?thesis using assms(2) same_core_trans [OF assms(2) bcastHeartbeat_core] same_core_forward by blast
next
  case False
  have "rn_term r \<noteq> - 1" "rn_state r \<noteq> StateLeader" using assms(2,3) False by (simp_all add: same_core_def)
  then show ?thesis using Step_forward [OF assms(1)] forward_trans [OF same_core_forward [OF assms(2)]] by simp
qed

lemma Tick_forward:
  assumes "Tick ls rn = Some rn'" "rn_term rn \<noteq> - 1"
  shows "forward rn rn'"
proof (cases "rn_state rn = StateLeader")
  case False
  have core: "same_core rn (rn\<lparr>rn_electionElapsed := x\<rparr>)" for x by (simp add: same_core_def)
  show ?thesis
    using assms(1) False Step_self_forward [OF _ core assms(2)] same_core_forward [OF core]
    by (auto simp: Tick_def Let_def split: if_splits)
next
  case True
  define r where "r = tick_quorum rn"
  have core: "same_core x (x\<lparr>rn_electionElapsed := y\<rparr>)" "same_core x (x\<lparr>rn_heartbeatElapsed := y\<rparr>)" for x :: "'a rawNode" and y
    by (simp_all add: same_core_def)
  have fr: "forward rn r" and vr: "rn_state r = StateLeader \<longrightarrow> rn_term r \<noteq> - 1"
  proof -
    have "forward rn (maybeStepDownOnQuorumLoss (rn\<lparr>rn_electionElapsed := 0\<rparr>))"
      by (auto simp: maybeStepDownOnQuorumLoss_def Let_def becomeFollower_def forward_def maps_ok_def)
    then show "forward rn r" using same_core_forward [OF core(1)] by (auto simp: r_def tick_quorum_def Let_def)
    show "rn_state r = StateLeader \<longrightarrow> rn_term r \<noteq> - 1"
      using assms(2) by (auto simp: r_def tick_quorum_def Let_def maybeStepDownOnQuorumLoss_def becomeFollower_def)
  qed
  show ?thesis
  proof (cases "rn_state r = StateLeader")
    case lr: True
    have "rn' = r\<lparr>rn_heartbeatElapsed := rn_heartbeatElapsed r + 1\<rparr> \<or>
      (\<exists>(x :: 'a rawNode) y. Step ls (r\<lparr>rn_heartbeatElapsed := y\<rparr>) (self_message x MsgBeat) = Some rn')"
      using assms(1) True lr by (auto simp: Tick_def Let_def r_def [symmetric] split: if_splits)
    then have "forward r rn'"
    proof
      assume "\<exists>(x :: 'a rawNode) y. Step ls (r\<lparr>rn_heartbeatElapsed := y\<rparr>) (self_message x MsgBeat) = Some rn'"
      then obtain x :: "'a rawNode" and y where st: "Step ls (r\<lparr>rn_heartbeatElapsed := y\<rparr>) (self_message x MsgBeat) = Some rn'" by blast
      show ?thesis using Step_self_forward [OF st core(2)] vr lr by simp
    qed (use same_core_forward [OF core(2)] in auto)
    then show ?thesis using forward_trans [OF fr] by blast
  next
    case False
    then have "rn' = r" using assms(1) True by (auto simp: Tick_def Let_def r_def [symmetric])
    then show ?thesis using fr by simp
  qed
qed

section \<open>Runs\<close>

text \<open>
  A run of a node: messages and ticks, proposals, acknowledged work, and whatever the caller
  does to the storage between them. Terms stay below the largest 64-bit value.
\<close>

inductive raft_run :: "'s log_storage \<Rightarrow> 's rawNode \<Rightarrow> 's rawNode \<Rightarrow> bool" for ls a where
  run_start: "raft_run ls a a"
| run_Step: "raft_run ls a b \<Longrightarrow> Step ls b m = Some c \<Longrightarrow> rn_term b \<noteq> - 1 \<Longrightarrow> msg_Term m \<noteq> - 1 \<Longrightarrow> raft_run ls a c"
| run_Tick: "raft_run ls a b \<Longrightarrow> Tick ls b = Some c \<Longrightarrow> rn_term b \<noteq> - 1 \<Longrightarrow> raft_run ls a c"
| run_Propose: "raft_run ls a b \<Longrightarrow> Propose ls b data = Some c \<Longrightarrow> rn_term b \<noteq> - 1 \<Longrightarrow> raft_run ls a c"
| run_Advance: "raft_run ls a b \<Longrightarrow> Advance b rd = Some c \<Longrightarrow> raft_run ls a c"
| run_storage: "raft_run ls a b \<Longrightarrow> raft_run ls a (b\<lparr>rn_log := (rn_log b)\<lparr>l_storage := s\<rparr>\<rparr>)"

lemma log_stableTo_committed: "log_stableTo l i t = Some l' \<Longrightarrow> l_committed l' = l_committed l"
  by (auto simp: log_stableTo_def Let_def split: if_splits option.splits)

lemma log_appliedTo_committed: "log_appliedTo l i = Some l' \<Longrightarrow> l_committed l' = l_committed l"
  by (auto simp: log_appliedTo_def split: if_splits)

lemma Advance_forward:
  assumes "Advance rn rd = Some rn'"
  shows "forward rn rn'"
proof -
  define r1 where "r1 = (case rd_SoftState rd of None \<Rightarrow> rn | Some ss \<Rightarrow> rn\<lparr>rn_prevSoft := ss\<rparr>)"
  define r2 where "r2 = (if \<not> IsEmptyHardState (rd_HardState rd) then r1\<lparr>rn_prevHard := rd_HardState rd\<rparr> else r1)"
  define r3 where "r3 = (if \<not> snapshot_IsEmpty (rd_Snapshot rd) then r2\<lparr>rn_log := (rn_log r2)\<lparr>l_pendingSnapshot := zeroSnapshot\<rparr>\<rparr> else r2)"
  have "same_core rn r2" by (auto simp: r2_def r1_def same_core_def split: option.splits)
  then have r3: "forward rn r3" by (auto simp: r3_def same_core_def forward_def maps_ok_def)
  obtain l l' where l: "(if rd_Entries rd \<noteq> [] then log_stableTo (rn_log r3) (e_Index (last (rd_Entries rd))) (e_Term (last (rd_Entries rd)))
        else Some (rn_log r3)) = Some l"
      "(if rd_CommittedEntries rd \<noteq> [] then log_appliedTo l (e_Index (last (rd_CommittedEntries rd))) else Some l) = Some l'"
      "rn' = r3\<lparr>rn_log := l', rn_msgs := []\<rparr>"
    using assms unfolding Advance_def Let_def r1_def [symmetric] r2_def [symmetric] r3_def [symmetric] bind_eq_Some_conv by blast
  have "l_committed l = l_committed (rn_log r3)" using l(1) log_stableTo_committed by (auto split: if_splits)
  moreover have "l_committed l' = l_committed l" using l(2) log_appliedTo_committed by (auto split: if_splits)
  ultimately show ?thesis using r3 by (auto simp: l(3) forward_def maps_ok_def)
qed

lemma Propose_forward: "Propose ls rn data = Some rn' \<Longrightarrow> rn_term rn \<noteq> - 1 \<Longrightarrow> forward rn rn'"
  unfolding Propose_def by (erule Step_forward) simp_all

lemma storage_forward: "forward b (b\<lparr>rn_log := (rn_log b)\<lparr>l_storage := s\<rparr>\<rparr>)"
  by (simp add: forward_def maps_ok_def)

lemma raft_run_forward: "raft_run ls a b \<Longrightarrow> forward a b"
proof (induction rule: raft_run.induct)
  case (run_Step b m c)
  show ?case by (rule forward_trans [OF run_Step(5) Step_forward [OF run_Step(2-4)]])
next
  case (run_Tick b c)
  show ?case by (rule forward_trans [OF run_Tick(4) Tick_forward [OF run_Tick(2,3)]])
next
  case (run_Propose b data c)
  show ?case by (rule forward_trans [OF run_Propose(4) Propose_forward [OF run_Propose(2,3)]])
next
  case (run_Advance b rd c)
  show ?case by (rule forward_trans [OF run_Advance(3) Advance_forward [OF run_Advance(2)]])
next
  case (run_storage b s)
  show ?case by (rule forward_trans [OF run_storage(2) storage_forward])
qed simp

lemma NewRawNode_follower: "NewRawNode ls nid peers st rand = Some rn \<Longrightarrow> rn_state rn = StateFollower"
  by (auto simp: NewRawNode_def Let_def split: if_splits bind_splits)

section \<open>A node on an empty log\<close>

abbreviation ls0 :: "lsm lsmLogStorage log_storage" where "ls0 \<equiv> lsm_log_storage (lsm_engine env0)"

definition st0 :: "lsm lsmLogStorage" where "st0 = NewLSMLogStorage engine0"

lemma st0_ok: "lg_ok (lsm_inv env0) lsm_view st0"
  by (simp add: lg_ok_def st0_def NewLSMLogStorage_def engine0_empty)

lemma log_of_empty [simp]: "log_of Map.empty = Map.empty"
  by (rule ext) (simp add: log_of_def)

lemma st0_disk: "disk_of (lsm_view (lg_eng st0)) =
    \<lparr>d_hs = zeroHardState, d_applied = 0, d_snap = \<lparr>sm_Index = 0, sm_Term = 0\<rparr>, d_data = None, d_log = Map.empty\<rparr>"
  by (simp add: st0_def NewLSMLogStorage_def engine0_empty(2) disk_of_def hs_of_def applied_of_def snap_of_def)

lemma st0_answers [simp]:
  "ls_InitialState ls0 st0 = Inr zeroHardState" "ls_FirstIndex ls0 st0 = Inr 1" "ls_LastIndex ls0 st0 = Inr 0"
  "ls_Term ls0 st0 i = Inl ErrUnavailable" "ls_LoadApplied ls0 st0 = Inr 0" "ls_Snapshot ls0 st0 = Inr zeroSnapshot"
  using lsm_log.InitialState [OF st0_ok] lsm_log.FirstIndex [OF st0_ok] lsm_log.LastIndex [OF st0_ok] lsm_log.Term [OF st0_ok, of i]
    lsm_log.LoadApplied [OF st0_ok] lsm_log.Snapshot [OF st0_ok]
  by (simp_all add: st0_disk d_first_def d_last_def d_term_def d_snapshot_def)

definition log0 :: "lsm lsmLogStorage raftLog" where
  "log0 = \<lparr>l_storage = st0, l_unstable = [], l_offset = 0, l_committed = 0, l_applied = 0, l_pendingSnapshot = zeroSnapshot\<rparr>"

lemma log0_answers [simp]: "newRaftLog ls0 st0 = log0" "log_lastIndex ls0 log0 = 0" "log_lastTerm ls0 log0 = Some 0"
  "log_isUpToDate ls0 log0 i t = Some True" "log_nextEntries ls0 log0 = Some []"
  by (simp_all add: log0_def newRaftLog_def log_lastIndex_def log_lastTerm_def log_term_def log_isUpToDate_def log_nextEntries_def or_zero_def
      zeroHardState_def zeroSnapshot_def word_neq_0_conv [symmetric])

definition node0 :: "lsm lsmLogStorage rawNode" where
  "node0 = the (NewRawNode ls0 3 [1, 2, 3] st0 (\<lambda>_. 0))"

lemma node0: "NewRawNode ls0 3 [1, 2, 3] st0 (\<lambda>_. 0) = Some node0"
  by (simp add: node0_def NewRawNode_def Let_def IsEmptyHardState_def zeroHardState_def)

lemma node0_sel [simp]: "rn_id node0 = 3" "rn_state node0 = StateFollower" "rn_term node0 = 0" "rn_votedFor node0 = 0" "rn_leadID node0 = 0"
  "rn_peers node0 = [1, 2, 3]" "rn_checkQuorum node0" "rn_preVote node0" "rn_log node0 = log0" "rn_msgs node0 = []" "rn_votes node0 = None"
  "rn_prevHard node0 = zeroHardState" "rn_electionElapsed node0 = 0" "rn_electionTimeout node0 = 10"
  "rn_matchIndex node0 = None"
  by (simp_all add: node0_def NewRawNode_def Let_def IsEmptyHardState_def zeroHardState_def Raft_Node.hardState_def Raft_Node.softState_def log0_def)

definition ask_vote :: "u64 \<Rightarrow> message" where
  "ask_vote p = (zeroMessage MsgVote)\<lparr>msg_From := p, msg_To := 3, msg_Term := 5\<rparr>"

definition first_append :: message where
  "first_append = (zeroMessage MsgApp)\<lparr>msg_From := 1, msg_To := 3, msg_Term := 5\<rparr>"

lemma first_vote:
  obtains a where "Step ls0 node0 (ask_vote 1) = Some a" "rn_term a = 5" "rn_votedFor a = 1" "rn_log a = log0" "rn_id a = 3"
    "rn_peers a = [1, 2, 3]" "rn_preVote a" "rn_state a = StateFollower"
  by (simp add: Step_def ask_vote_def zeroMessage_def adopt_term_def becomeFollower_def step_vote_def canVote_def)

section \<open>Committing, voting, and the work handed out\<close>

text \<open>How many peers have a match index from \<open>k\<close> on.\<close>

lemma match_count_card:
  assumes "rn_matchIndex rn = Some m" "distinct (map fst m)"
  shows "match_count rn k = card {p. \<exists>i. map_of m p = Some i \<and> k \<le> i}"
proof -
  have "{p. \<exists>i. map_of m p = Some i \<and> k \<le> i} = fst ` set (filter (\<lambda>(p, i). k \<le> i) m)"
    using assms(2) by (force simp: image_iff dest: map_of_SomeD)
  moreover have "distinct (map fst (filter (\<lambda>(p, i). k \<le> i) m))" using assms(2) by (rule distinct_map_filter)
  ultimately show ?thesis using distinct_card [of "map fst (filter (\<lambda>(p, i). k \<le> i) m)"] by (simp add: match_count_def assms(1))
qed

text \<open>(C3) Terms and commit indices of a node never go back, whatever messages, ticks and proposals
  it sees and whatever the storage answers; its id and peers stay; and a leader has counted the
  votes of a majority of distinct nodes and keeps the maps that its role writes to, each peer once.\<close>

theorem raft_runs_go_forward:
  assumes "NewRawNode ls nid peers st rand = Some a" and "raft_run ls a b" and "raft_run ls b c"
  shows "rn_term b \<le> rn_term c \<and> l_committed (rn_log b) \<le> l_committed (rn_log c) \<and> rn_id c = rn_id b \<and> rn_peers c = rn_peers b \<and>
    (rn_state c = StateLeader \<longrightarrow>
       (\<exists>v. rn_votes c = Some v \<and> distinct (map fst v) \<and> quorum c \<le> card {p. map_of v p = Some True}) \<and>
       rn_nextIndex c \<noteq> None \<and> rn_recentActive c \<noteq> None \<and> (\<exists>m. rn_matchIndex c = Some m \<and> distinct (map fst m)))"
proof -
  have fc: "forward b c" using raft_run_forward [OF assms(3)] .
  have "maps_ok a" using NewRawNode_follower [OF assms(1)] by (simp add: maps_ok_def)
  then have mc: "maps_ok c" using raft_run_forward [OF assms(2)] fc by (simp add: forward_def)
  have "length (filter snd v) = card {p. map_of v p = Some True}" if "distinct (map fst v)" for v :: "(u64 \<times> bool) list"
  proof -
    have "{p. map_of v p = Some True} = fst ` set (filter snd v)" using that by (force simp: image_iff dest: map_of_SomeD)
    then show ?thesis using distinct_card [OF distinct_map_filter [OF that, of snd]] by simp
  qed
  then show ?thesis using fc mc by (auto simp: forward_def maps_ok_def quorum_def)
qed

theorem raft_runs_go_forward_witness:
  "\<exists>a. raft_run ls0 node0 a \<and> rn_term node0 \<le> rn_term a \<and> rn_term a = 5 \<and> rn_peers a = [1, 2, 3]"
proof -
  obtain a where a: "Step ls0 node0 (ask_vote 1) = Some a" "rn_term a = 5" by (rule first_vote)
  have "raft_run ls0 node0 a"
    by (rule run_Step [OF run_start a(1)]) (simp_all add: ask_vote_def zeroMessage_def)
  with raft_runs_go_forward [OF node0 run_start this] a(2) show ?thesis by auto
qed

text \<open>(C9) A leader commits an index only if the entry there is of its own term and a majority of
  the tracked peers have it, and then it commits the largest such index.\<close>

theorem leader_commits_on_quorum:
  assumes "maybeAdvanceCommit ls rn = Some rn'" and "rn_matchIndex rn = Some m" and "distinct (map fst m)"
  shows "rn' = rn \<or>
    (\<exists>k. rn' = rn\<lparr>rn_log := (rn_log rn)\<lparr>l_committed := k\<rparr>\<rparr> \<and> l_committed (rn_log rn) < k \<and> k \<le> log_lastIndex ls (rn_log rn) \<and>
      log_term ls (rn_log rn) k = Some (Inr (rn_term rn)) \<and> quorum rn \<le> card {p. \<exists>i. map_of m p = Some i \<and> k \<le> i} \<and>
      (\<forall>j. k < j \<and> j \<le> log_lastIndex ls (rn_log rn) \<longrightarrow> card {p. \<exists>i. map_of m p = Some i \<and> j \<le> i} < quorum rn))"
  using advance_loop_cases [OF assms(1) [unfolded maybeAdvanceCommit_def]] unfolding match_count_card [OF assms(2,3)] by blast

definition leader0 :: "lsm lsmLogStorage rawNode" where
  "leader0 = node0\<lparr>rn_state := StateLeader, rn_term := 1, rn_matchIndex := Some [(1, 1), (2, 0), (3, 1)],
     rn_log := log0\<lparr>l_unstable := [\<lparr>e_Term = 1, e_Index = 1, e_Data = None\<rparr>]\<rparr>\<rparr>"

theorem leader_commits_on_quorum_witness:
  "maybeAdvanceCommit ls0 leader0 = Some (leader0\<lparr>rn_log := (rn_log leader0)\<lparr>l_committed := 1\<rparr>\<rparr>) \<and>
   quorum leader0 \<le> card {p. \<exists>i. map_of [(1 :: u64, 1 :: u64), (2, 0), (3, 1)] p = Some i \<and> 1 \<le> i}"
proof -
  let ?r = "leader0\<lparr>rn_log := (rn_log leader0)\<lparr>l_committed := 1\<rparr>\<rparr>"
  have m: "rn_matchIndex leader0 = Some [(1, 1), (2, 0), (3, 1)]" "distinct (map fst [(1 :: u64, 1 :: u64), (2, 0), (3, 1)])"
    by (simp_all add: leader0_def)
  have step: "maybeAdvanceCommit ls0 leader0 = Some ?r"
    unfolding maybeAdvanceCommit_def
    by (subst advance_loop.simps) (simp add: leader0_def log0_def log_lastIndex_def log_term_def slice_at_def match_count_def quorum_def log_commitTo_def)
  have "?r \<noteq> leader0" by (auto dest!: arg_cong [where f = "\<lambda>r. l_committed (rn_log r)"] simp: leader0_def log0_def)
  then obtain k where k: "?r = leader0\<lparr>rn_log := (rn_log leader0)\<lparr>l_committed := k\<rparr>\<rparr>"
      "quorum leader0 \<le> card {p. \<exists>i. map_of [(1 :: u64, 1 :: u64), (2, 0), (3, 1)] p = Some i \<and> k \<le> i}"
    using leader_commits_on_quorum [OF step m] by blast
  have "k = 1" using arg_cong [OF k(1), of "\<lambda>r. l_committed (rn_log r)"] by simp
  then have "quorum leader0 \<le> card {p. \<exists>i. map_of [(1 :: u64, 1 :: u64), (2, 0), (3, 1)] p = Some i \<and> 1 \<le> i}" using k(2) by (simp only:)
  with step show ?thesis ..
qed

text \<open>(C27) A PreVote request leaves the node as it is apart from the answer in the outbox. It is
  ignored while the node hears from a leader, and granted exactly if the node could vote for the
  candidate and the candidate's log is up to date.\<close>

theorem prevote_changes_nothing:
  assumes "msg_Type m = MsgPreVote" and "log_isUpToDate ls (rn_log rn) (msg_Index m) (msg_LogTerm m) = Some u"
  shows "Step ls rn m =
    Some (if msg_Term m > rn_term rn \<and> rn_checkQuorum rn \<and> rn_leadID rn \<noteq> 0 \<and> rn_electionElapsed rn < rn_electionTimeout rn then rn
          else let grant = (msg_Term m \<ge> rn_term rn \<and> canVote rn m \<and> u)
               in rn\<lparr>rn_msgs := rn_msgs rn @ [(zeroMessage MsgPreVoteResp)\<lparr>msg_From := rn_id rn, msg_To := msg_From m,
                    msg_Term := (if grant then msg_Term m else rn_term rn), msg_Reject := \<not> grant\<rparr>]\<rparr>)"
proof (cases "msg_Term m > rn_term rn \<and> rn_checkQuorum rn \<and> rn_leadID rn \<noteq> 0 \<and> rn_electionElapsed rn < rn_electionTimeout rn")
  case True
  then show ?thesis using assms(1) by (simp add: Step_def adopt_term_def)
next
  case False
  then have "adopt_term rn m = Some rn" using assms(1) by (auto simp: adopt_term_def)
  then have "Step ls rn m = step_vote ls rn m" using assms(1) by (simp add: Step_def)
  moreover have "(if msg_Term m \<ge> rn_term rn \<and> canVote rn m then log_isUpToDate ls (rn_log rn) (msg_Index m) (msg_LogTerm m) else Some False) =
      Some (msg_Term m \<ge> rn_term rn \<and> canVote rn m \<and> u)"
    using assms(2) by auto
  ultimately have "Step ls rn m = Some (let grant = (msg_Term m \<ge> rn_term rn \<and> canVote rn m \<and> u)
      in send rn ((zeroMessage MsgPreVoteResp)\<lparr>msg_To := msg_From m, msg_Term := (if grant then msg_Term m else rn_term rn), msg_Reject := \<not> grant\<rparr>))"
    unfolding step_vote_def by (simp add: assms(1) voteRespType_def Let_def zeroMessage_def)
  then show ?thesis unfolding if_not_P [OF False] Let_def send_def by simp
qed

theorem prevote_changes_nothing_witness:
  "\<exists>r. Step ls0 node0 ((zeroMessage MsgPreVote)\<lparr>msg_From := 1, msg_Term := 1\<rparr>) = Some (node0\<lparr>rn_msgs := [r]\<rparr>) \<and> \<not> msg_Reject r"
  using prevote_changes_nothing [of "(zeroMessage MsgPreVote)\<lparr>msg_From := 1, msg_Term := 1\<rparr>" ls0 node0 True]
  by (simp add: zeroMessage_def canVote_def) (rule exI, rule conjI, rule refl, simp)

text \<open>(C38) A vote counts whatever its term: a positive answer to an earlier campaign can make a
  candidate the leader of its present term.\<close>

theorem stale_vote_counts:
  assumes "rn_state rn = StateCandidate" and "rn_votes rn = Some v" and "msg_Type m = MsgVoteResp" and "\<not> msg_Reject m"
    and "msg_Term m < rn_term rn" and "quorum rn \<le> length (filter snd (AList.update (msg_From m) True v))"
  shows "Step ls rn m = becomeLeader ls (rn\<lparr>rn_votes := Some (AList.update (msg_From m) True v)\<rparr>)"
proof -
  have "adopt_term rn m = Some rn" using assms(5) by (simp add: adopt_term_def less_imp_not_less)
  then show ?thesis using assms by (simp add: Step_def step_voteResp_def tallyVotes_def quorum_def)
qed

theorem stale_vote_counts_witness:
  "\<exists>cand. rn_term cand = 5 \<and> rn_peers cand = [1, 2, 3] \<and> rn_votes cand = Some [(3, True)] \<and>
     Step ls0 cand ((zeroMessage MsgVoteResp)\<lparr>msg_From := 2, msg_Term := 3\<rparr>) =
       becomeLeader ls0 (cand\<lparr>rn_votes := Some [(3, True), (2, True)]\<rparr>)"
proof -
  let ?c = "node0\<lparr>rn_state := StateCandidate, rn_term := 5, rn_votes := Some [(3, True)]\<rparr>"
  have "Step ls0 ?c ((zeroMessage MsgVoteResp)\<lparr>msg_From := 2, msg_Term := 3\<rparr>) = becomeLeader ls0 (?c\<lparr>rn_votes := Some (AList.update 2 True [(3, True)])\<rparr>)"
    using stale_vote_counts [of ?c "[(3, True)]" "(zeroMessage MsgVoteResp)\<lparr>msg_From := 2, msg_Term := 3\<rparr>" ls0]
    by (simp add: zeroMessage_def quorum_def)
  then show ?thesis by (intro exI [of _ ?c]) simp
qed

definition empty_ready :: ready where
  "empty_ready = \<lparr>rd_SoftState = None, rd_HardState = zeroHardState, rd_Snapshot = zeroSnapshot, rd_Entries = [], rd_Messages = [],
     rd_CommittedEntries = []\<rparr>"

text \<open>(C30) \<open>HasReady\<close> holds exactly if \<open>Ready\<close> hands out something, as long as the hard state has
  not gone back to the empty one.\<close>

theorem has_ready_iff:
  assumes "Ready ls rn = Some rd" and "IsEmptyHardState (Raft_Node.hardState rn) \<longrightarrow> rn_prevHard rn = Raft_Node.hardState rn"
  shows "HasReady ls rn = Some (rd \<noteq> empty_ready)"
proof -
  obtain es where es: "log_nextEntries ls (rn_log rn) = Some es" using assms(1) by (auto simp: Ready_def split: bind_splits)
  have z: "Raft_Node.hardState rn = zeroHardState \<longleftrightarrow> IsEmptyHardState (Raft_Node.hardState rn)"
    by (simp add: IsEmptyHardState_def zeroHardState_def Raft_Node.hardState_def)
  have p: "l_pendingSnapshot (rn_log rn) \<noteq> zeroSnapshot" if "hasPendingSnapshot (rn_log rn)"
    using that by (auto simp: hasPendingSnapshot_def snapshot_IsEmpty_def zeroSnapshot_def)
  have rd: "rd \<noteq> empty_ready \<longleftrightarrow> rd_SoftState rd \<noteq> None \<or> rd_HardState rd \<noteq> zeroHardState \<or> rd_Snapshot rd \<noteq> zeroSnapshot \<or>
      rd_Entries rd \<noteq> [] \<or> rd_Messages rd \<noteq> [] \<or> rd_CommittedEntries rd \<noteq> []"
    by (cases rd) (auto simp: empty_ready_def)
  have r: "rd_SoftState rd = (if ss_Lead (Raft_Node.softState rn) \<noteq> ss_Lead (rn_prevSoft rn) \<or>
        ss_RaftState (Raft_Node.softState rn) \<noteq> ss_RaftState (rn_prevSoft rn) then Some (Raft_Node.softState rn) else None)"
      "rd_HardState rd = (if Raft_Node.hardState rn \<noteq> rn_prevHard rn then Raft_Node.hardState rn else zeroHardState)"
      "rd_Snapshot rd = (if hasPendingSnapshot (rn_log rn) then l_pendingSnapshot (rn_log rn) else zeroSnapshot)"
      "rd_Entries rd = log_unstableEntries (rn_log rn)" "rd_Messages rd = rn_msgs rn" "rd_CommittedEntries rd = es"
    using assms(1) unfolding Ready_def es by auto
  have hs: "rd_HardState rd \<noteq> zeroHardState \<longleftrightarrow> Raft_Node.hardState rn \<noteq> rn_prevHard rn" using r(2) assms(2) z by presburger
  have sn: "rd_Snapshot rd \<noteq> zeroSnapshot \<longleftrightarrow> hasPendingSnapshot (rn_log rn)" using r(3) p by presburger
  have so: "rd_SoftState rd \<noteq> None \<longleftrightarrow> ss_Lead (Raft_Node.softState rn) \<noteq> ss_Lead (rn_prevSoft rn) \<or>
      ss_RaftState (Raft_Node.softState rn) \<noteq> ss_RaftState (rn_prevSoft rn)" using r(1) by simp
  show ?thesis unfolding rd hs sn so r(4-6) HasReady_def es by auto
qed

theorem has_ready_iff_witness: "Ready ls0 node0 = Some empty_ready \<and> HasReady ls0 node0 = Some False"
proof -
  have "Ready ls0 node0 = Some empty_ready"
    by (simp add: Ready_def empty_ready_def node0_def NewRawNode_def Let_def IsEmptyHardState_def zeroHardState_def Raft_Node.hardState_def
        Raft_Node.softState_def hasPendingSnapshot_def snapshot_IsEmpty_def zeroSnapshot_def log_unstableEntries_def) (simp add: log0_def zeroSnapshot_def)
  then show ?thesis using has_ready_iff [of ls0 node0 empty_ready]
    by (simp add: Raft_Node.hardState_def zeroHardState_def log0_def)
qed

text \<open>(C39) A node can vote for two candidates of the same term: the first append of the term's leader
  clears the vote, an election timeout clears the leader, and a late request of another candidate
  of that term is then granted.\<close>

theorem two_votes_in_one_term:
  "\<exists>a b c d. Step ls0 node0 (ask_vote 1) = Some a \<and> Step ls0 a first_append = Some b \<and> Step ls0 b (self_message b MsgHup) = Some c \<and>
     Step ls0 c (ask_vote 2) = Some d \<and> rn_term a = 5 \<and> rn_votedFor a = 1 \<and> rn_term d = 5 \<and> rn_votedFor d = 2"
proof -
  obtain a where a: "Step ls0 node0 (ask_vote 1) = Some a" "rn_term a = 5" "rn_votedFor a = 1" "rn_log a = log0" "rn_id a = 3" "rn_peers a = [1, 2, 3]"
      "rn_preVote a" "rn_state a = StateFollower"
    by (rule first_vote)
  obtain b where b: "Step ls0 a first_append = Some b" "rn_term b = 5" "rn_votedFor b = 0" "rn_log b = log0" "rn_id b = 3" "rn_peers b = [1, 2, 3]"
      "rn_preVote b" "rn_state b = StateFollower"
    using a by (simp add: Step_def first_append_def zeroMessage_def adopt_term_def becomeFollower_def step_app_def)
  obtain c where c: "Step ls0 b (self_message b MsgHup) = Some c" "rn_term c = 5" "rn_votedFor c = 0" "rn_leadID c = 0" "rn_log c = log0"
    using b by (simp add: Step_def adopt_term_def hup_def campaign_def becomePreCandidate_def tallyVotes_def quorum_def bcastPreVote_def)
  obtain d where "Step ls0 c (ask_vote 2) = Some d" "rn_term d = 5" "rn_votedFor d = 2"
    using c by (simp add: Step_def ask_vote_def zeroMessage_def adopt_term_def step_vote_def canVote_def)
  with a(1-3) b(1) c(1) show ?thesis by blast
qed

end
