(* ===== verification/Raft_Recovery.thy ===== *)
theory Raft_Recovery
  imports Raft_Props
begin

text \<open>
  What a Raft node finds in its storage: any sequence of writes to the storage on the LSM engine
  reads back as the plain records they describe, a restarted node has the term, vote and commit
  index it had saved, and entries behind an overwritten one stay, with a vote that this wins.
\<close>

section \<open>Sequences of writes\<close>

datatype store_op = Save_HardState hardState | Save_Applied u64 | Append_Entries "raftEntry list" | Save_Snapshot snapshot | Compact_To u64

fun store_apply :: "'s log_storage \<Rightarrow> 's \<Rightarrow> store_op \<Rightarrow> 's \<times> error option" where
  "store_apply ls s (Save_HardState hs) = ls_SaveHardState ls s hs"
| "store_apply ls s (Save_Applied i) = ls_SaveApplied ls s i"
| "store_apply ls s (Append_Entries es) = ls_AppendEntries ls s es"
| "store_apply ls s (Save_Snapshot snap) = ls_SaveSnapshot ls s snap"
| "store_apply ls s (Compact_To c) = ls_Compact ls s c"

fun run_store :: "'s log_storage \<Rightarrow> 's \<Rightarrow> store_op list \<Rightarrow> 's \<times> error option" where
  "run_store ls s [] = (s, None)"
| "run_store ls s (x # xs) = (case store_apply ls s x of (s', None) \<Rightarrow> run_store ls s' xs | (s', Some err) \<Rightarrow> (s', Some err))"

text \<open>The same writes on the plain records.\<close>

fun disk_apply :: "store_op \<Rightarrow> raft_disk \<Rightarrow> raft_disk" where
  "disk_apply (Save_HardState hs) d = d\<lparr>d_hs := hs\<rparr>"
| "disk_apply (Save_Applied i) d = d\<lparr>d_applied := i\<rparr>"
| "disk_apply (Append_Entries es) d = d\<lparr>d_log := d_append es (d_log d)\<rparr>"
| "disk_apply (Save_Snapshot snap) d = d\<lparr>d_snap := s_Metadata snap, d_data := Some (s_Data snap)\<rparr>"
| "disk_apply (Compact_To c) d = d\<lparr>d_log := (if c = 0 then d_log d else d_log d |` {i. c < i})\<rparr>"

definition ops_ok :: "store_op list \<Rightarrow> bool" where
  "ops_ok xs \<longleftrightarrow> (\<forall>snap. Save_Snapshot snap \<in> set xs \<longrightarrow> \<not> snapshot_IsEmpty snap)"

lemma d_append_other: "i \<notin> e_Index ` set es \<Longrightarrow> d_append es L i = L i"
proof (induction es arbitrary: L)
  case (Cons e es)
  then show ?case by (simp add: d_append_def)
qed (simp add: d_append_def)

lemma d_append_Cons: "d_append (e # es) L = d_append es (L(e_Index e \<mapsto> e))"
  by (simp add: d_append_def)

lemma d_append_nth: "distinct (map e_Index es) \<Longrightarrow> k < length es \<Longrightarrow> d_append es L (e_Index (es ! k)) = Some (es ! k)"
proof (induction es arbitrary: L k)
  case (Cons e es)
  show ?case
  proof (cases k)
    case 0
    then show ?thesis using Cons(2) by (simp add: d_append_Cons d_append_other)
  next
    case (Suc j)
    then show ?thesis using Cons by (simp add: d_append_Cons)
  qed
qed simp

lemma dom_d_append: "dom (d_append es L) = dom L \<union> e_Index ` set es"
  by (induction es arbitrary: L) (auto simp: d_append_def)

context raft_store
begin

lemma store_apply_disk:
  assumes "ok s" "ops_ok [x]"
  shows "\<exists>s'. store_apply ls s x = (s', None) \<and> ok s' \<and> disk s' = disk_apply x (disk s)"
  using assms SaveHardState SaveApplied AppendEntries SaveSnapshot Compact by (cases x) (simp_all add: ops_ok_def)

lemma run_store_disk:
  "ok s \<Longrightarrow> ops_ok xs \<Longrightarrow> \<exists>s'. run_store ls s xs = (s', None) \<and> ok s' \<and> disk s' = fold disk_apply xs (disk s)"
proof (induction xs arbitrary: s)
  case (Cons x xs)
  then obtain s' where s': "store_apply ls s x = (s', None)" "ok s'" "disk s' = disk_apply x (disk s)"
    using store_apply_disk [of s x] by (auto simp: ops_ok_def)
  have "ops_ok xs" using Cons(3) by (simp add: ops_ok_def)
  then show ?case using Cons(1) [OF s'(2)] s' by simp
qed simp

text \<open>A node started on the storage.\<close>

lemma restart:
  assumes "ok s"
  shows "\<exists>rn. NewRawNode ls nid peers s rand = Some rn \<and> rn_state rn = StateFollower \<and> rn_term rn = hs_Term (d_hs (disk s)) \<and>
    rn_votedFor rn = hs_VotedFor (d_hs (disk s)) \<and> l_committed (rn_log rn) = max (sm_Index (d_snap (disk s))) (hs_Commit (d_hs (disk s))) \<and>
    l_applied (rn_log rn) = max (sm_Index (d_snap (disk s))) (min (d_applied (disk s)) (hs_Commit (d_hs (disk s)))) \<and>
    log_lastIndex ls (rn_log rn) = d_last (disk s) \<and> l_storage (rn_log rn) = s \<and> l_unstable (rn_log rn) = []"
proof -
  let ?d = "disk s" let ?hs = "d_hs (disk s)" let ?f = "sm_Index (d_snap (disk s))"
  define l0 where "l0 = newRaftLog ls s"
  have f: "d_first ?d - 1 = ?f" by (simp add: d_first_def word_greater_zero_iff)
  have l0: "l_committed l0 = (if hs_Commit ?hs > ?f \<and> hs_Commit ?hs \<le> d_last ?d then hs_Commit ?hs else ?f)" "l_applied l0 = ?f"
    "l_storage l0 = s" "l_unstable l0 = []" "l_pendingSnapshot l0 = zeroSnapshot"
    by (simp_all add: l0_def newRaftLog_def Let_def InitialState [OF assms] FirstIndex [OF assms] LastIndex [OF assms] f or_zero_def)
  have last: "log_lastIndex ls (l0\<lparr>l_committed := c, l_applied := a\<rparr>) = d_last ?d" for c a
    by (simp add: log_lastIndex_def l0 LastIndex [OF assms] or_zero_def zeroSnapshot_def Let_def word_neq_0_conv [symmetric])
  define c a where "c = max ?f (hs_Commit ?hs)" and "a = max ?f (min (d_applied ?d) (hs_Commit ?hs))"
  have com: "log_commitTo l0 (hs_Commit ?hs) = l0\<lparr>l_committed := c\<rparr>"
    by (cases l0) (use l0 in \<open>auto simp: log_commitTo_def c_def max_def\<close>)
  have app: "log_appliedTo (l0\<lparr>l_committed := c\<rparr>) (if d_applied ?d > hs_Commit ?hs then hs_Commit ?hs else d_applied ?d) = Some (l0\<lparr>l_committed := c, l_applied := a\<rparr>)"
    by (cases l0) (use l0 in \<open>auto simp: log_appliedTo_def a_def c_def max_def min_def\<close>)
  let ?rn = "\<lparr>rn_id = nid, rn_state = StateFollower, rn_term = 0, rn_votedFor = 0, rn_votes = None, rn_leadID = 0,
    rn_peers = peers, rn_nextIndex = None, rn_matchIndex = None, rn_recentActive = None, rn_preVote = True,
    rn_checkQuorum = True, rn_log = l0, rn_electionElapsed = 0, rn_heartbeatElapsed = 0,
    rn_electionTimeout = 10 + int (rand 0 mod 10), rn_msgs = [],
    rn_prevSoft = \<lparr>ss_Lead = 0, ss_RaftState = StateFollower\<rparr>, rn_prevHard = zeroHardState, rn_rand = rand, rn_draws = 1\<rparr>"
  let ?rn' = "if IsEmptyHardState ?hs then ?rn
    else ?rn\<lparr>rn_term := hs_Term ?hs, rn_votedFor := hs_VotedFor ?hs, rn_log := l0\<lparr>l_committed := c, l_applied := a\<rparr>\<rparr>"
  have new: "NewRawNode ls nid peers s rand = Some (?rn'\<lparr>rn_prevHard := Raft_Node.hardState ?rn', rn_prevSoft := Raft_Node.softState ?rn'\<rparr>)"
    unfolding NewRawNode_def l0_def [symmetric] InitialState [OF assms] LoadApplied [OF assms] Let_def
    using app by (cases "d_applied ?d > hs_Commit ?hs") (simp_all add: or_zero_def com)
  have rn': "rn_log ?rn' = l0\<lparr>l_committed := c, l_applied := a\<rparr>" "rn_term ?rn' = hs_Term ?hs" "rn_votedFor ?rn' = hs_VotedFor ?hs"
    using l0 by (auto simp: IsEmptyHardState_def c_def a_def)
  show ?thesis unfolding new using rn' last l0 by (auto simp: c_def a_def)
qed

text \<open>Entries from the last index of the storage backwards that are overwritten leave the tail.\<close>

lemma stale_tail:
  assumes "ok s" "sm_Index (d_snap (disk s)) = 0" "d_log (disk s) (d_last (disk s)) = Some old" "d_last (disk s) \<noteq> 0"
    and "\<forall>e \<in> set es. e_Index e < d_last (disk s)" "ls_AppendEntries ls s es = (s', None)"
  shows "ok s'" "d_last (disk s') = d_last (disk s)" "d_term (disk s') (d_last (disk s)) = Inr (e_Term old)"
proof -
  have s': "ok s'" "disk s' = (disk s)\<lparr>d_log := d_append es (d_log (disk s))\<rparr>" using AppendEntries [OF assms(1), of es] assms(6) by auto
  have mx: "Max (insert 0 (dom (d_log (disk s)))) = d_last (disk s)" using assms(2) by (simp add: d_last_def)
  have un: "Max (A \<union> B) = Max A" if "A \<noteq> {}" "\<forall>b \<in> B. b < Max A" for A B :: "u64 set"
    using that by (intro Max_eqI) (auto intro: less_imp_le)
  have "Max (insert 0 (dom (d_log (disk s))) \<union> e_Index ` set es) = d_last (disk s)"
    using un [of "insert 0 (dom (d_log (disk s)))" "e_Index ` set es"] assms(5) unfolding mx by blast
  then show "d_last (disk s') = d_last (disk s)" using assms(2) by (simp add: d_last_def s'(2) dom_d_append)
  show "d_term (disk s') (d_last (disk s)) = Inr (e_Term old)"
  proof -
    have "d_last (disk s) \<notin> e_Index ` set es" using assms(5) by auto
    then show ?thesis using assms(2,3) by (simp add: d_term_def s'(2) d_append_other)
  qed
qed (use AppendEntries [OF assms(1), of es] assms(6) in auto)

lemma stale_tail_vote:
  assumes "ok s" "sm_Index (d_snap (disk s)) = 0" "d_log (disk s) (d_last (disk s)) = Some old" "d_last (disk s) \<noteq> 0"
    and "\<forall>e \<in> set es. e_Index e < d_last (disk s)" "ls_AppendEntries ls s es = (s', None)"
    and "l_storage (rn_log rn) = s'" "l_unstable (rn_log rn) = []" "l_pendingSnapshot (rn_log rn) = zeroSnapshot"
    and "msg_Type m = MsgVote" "rn_term rn < msg_Term m" "msg_LogTerm m = e_Term old" "msg_Index m = d_last (disk s)"
    and "\<not> rn_checkQuorum rn \<or> rn_leadID rn = 0 \<or> rn_electionTimeout rn \<le> rn_electionElapsed rn"
  shows "\<exists>rn'. Step ls rn m = Some rn' \<and> rn_term rn' = msg_Term m \<and> rn_votedFor rn' = msg_From m"
proof -
  note st = stale_tail [OF assms(1-6)]
  have last: "log_lastIndex ls (rn_log rn) = d_last (disk s)"
    using assms(7-9) LastIndex [OF st(1)] st(2) by (simp add: log_lastIndex_def or_zero_def zeroSnapshot_def Let_def)
  then have "log_lastTerm ls (rn_log rn) = Some (e_Term old)"
    using assms(4,7-9) Term [OF st(1)] st(3) by (simp add: log_lastTerm_def log_term_def snapshot_IsEmpty_def zeroSnapshot_def or_zero_def)
  then have up: "log_isUpToDate ls (rn_log rn) (msg_Index m) (msg_LogTerm m) = Some True"
    using last assms(12,13) by (simp add: log_isUpToDate_def)
  let ?f = "becomeFollower rn (msg_Term m) 0"
  have "adopt_term rn m = Some ?f" using assms(10,11,14) by (auto simp: adopt_term_def)
  moreover have "rn_log ?f = rn_log rn" "rn_term ?f = msg_Term m" "rn_votedFor ?f = 0" "rn_leadID ?f = 0" by (simp_all add: becomeFollower_def)
  ultimately show ?thesis using up assms(10) by (simp add: Step_def step_vote_def canVote_def Let_def)
qed

end

section \<open>Properties\<close>

text \<open>(C4) Any sequence of writes to the storage on the LSM engine succeeds, and then every read answers
  as the plain records those writes describe; the cached last index is the one a scan finds.\<close>

theorem raft_storage_refines:
  assumes "lg_ok (lsm_inv env) lsm_view s" and "ops_ok xs"
  shows "\<exists>s'. run_store (lsm_log_storage (lsm_engine env)) s xs = (s', None) \<and>
    (let d = fold disk_apply xs (disk_of (lsm_view (lg_eng s)))
     in InitialState (lsm_engine env) s' = Inr (d_hs d) \<and> FirstIndex (lsm_engine env) s' = Inr (d_first d) \<and>
        (\<exists>s''. LastIndex (lsm_engine env) s' = Some (Inr (d_last d), s'')) \<and> scanLastIndex (lsm_engine env) s' = Some (Inr (d_last d)) \<and>
        (\<forall>i. Term (lsm_engine env) s' i = d_term d i) \<and> LoadApplied (lsm_engine env) s' = Inr (d_applied d) \<and>
        Snapshot (lsm_engine env) s' = Inr (d_snapshot d))"
proof -
  obtain s' where s': "run_store (lsm_log_storage (lsm_engine env)) s xs = (s', None)" "lg_ok (lsm_inv env) lsm_view s'"
    "disk_of (lsm_view (lg_eng s')) = fold disk_apply xs (disk_of (lsm_view (lg_eng s)))"
    using lsm_log.run_store_disk [OF assms] by blast
  show ?thesis
    using s'(1) lsm_log.InitialState [OF s'(2)] lsm_log.FirstIndex [OF s'(2)] lsm_eng.LastIndex_eq [OF s'(2)] lsm_eng.scanLastIndex_eq [OF s'(2)]
      lsm_log.Term [OF s'(2)] lsm_log.LoadApplied [OF s'(2)] lsm_log.Snapshot [OF s'(2)]
    unfolding s'(3) disk_of_sel(6) [symmetric] by (auto simp: Let_def lsm_log_storage_def)
qed

theorem raft_storage_refines_witness:
  "\<exists>s'. run_store ls0 st0 [Append_Entries [\<lparr>e_Term = 2, e_Index = 1, e_Data = None\<rparr>], Save_Applied 1] = (s', None) \<and>
     LoadApplied (lsm_engine env0) s' = Inr 1 \<and> Term (lsm_engine env0) s' 1 = Inr 2"
  using raft_storage_refines [OF st0_ok, of "[Append_Entries [\<lparr>e_Term = 2, e_Index = 1, e_Data = None\<rparr>], Save_Applied 1]"]
  by (auto simp: ops_ok_def st0_disk d_term_def d_append_def Let_def)

text \<open>(C28) Entries with consecutive indices that were appended to the storage read back as they were.\<close>

theorem raft_entries_round_trip:
  assumes "lg_ok (lsm_inv env) lsm_view s" and "\<forall>k < length es. e_Index (es ! k) = lo + of_nat k"
    and "unat lo + length es < 2 ^ 64" and "length es * 40 \<le> 2 ^ 48"
  shows "\<exists>s'. AppendEntries (lsm_engine env) s es = (s', None) \<and> Entries (lsm_engine env) s' lo (lo + of_nat (length es)) = Some (Inr es)"
proof -
  obtain s' where s': "AppendEntries (lsm_engine env) s es = (s', None)" "lg_ok (lsm_inv env) lsm_view s'"
    and d: "disk_of (lsm_view (lg_eng s')) = (disk_of (lsm_view (lg_eng s)))\<lparr>d_log := d_append es (log_of (lsm_view (lg_eng s)))\<rparr>"
    using lsm_eng.Append_ok [OF assms(1), of es] by auto
  have dl: "d_log (disk_of (lsm_view (lg_eng s'))) = d_append es (log_of (lsm_view (lg_eng s)))" unfolding d by simp
  have un: "unat (lo + of_nat k) = unat lo + k" if "k \<le> length es" for k
    using that assms(3) by (simp add: unat_word_ariths unat_of_nat)
  have idx: "e_Index (es ! k) = of_nat (unat lo + k)" if "k < length es" for k using assms(2) that by simp
  have "inj_on (\<lambda>k. e_Index (es ! k)) {..<length es}"
    using assms(2) un by (intro inj_onI) (metis add_left_cancel lessThan_iff less_imp_le)
  then have dist: "distinct (map e_Index es)" by (simp add: distinct_conv_nth inj_on_def) blast
  have get: "d_log (disk_of (lsm_view (lg_eng s'))) (of_nat (unat lo + k)) = Some (es ! k)" if "k < length es" for k
    using d_append_nth [OF dist that] unfolding dl idx [OF that] by simp
  have range: "[unat lo..<unat (lo + of_nat (length es))] = map ((+) (unat lo)) [0..<length es]"
    unfolding un [OF order_refl] by (rule nth_equalityI) simp_all
  have "map (\<lambda>n. the (d_log (disk_of (lsm_view (lg_eng s'))) (of_nat n))) [unat lo..<unat (lo + of_nat (length es))] = es"
    unfolding range map_map by (rule nth_equalityI) (use get in auto)
  moreover have "\<forall>n \<in> {unat lo..<unat (lo + of_nat (length es))}. d_log (disk_of (lsm_view (lg_eng s'))) (of_nat n) \<noteq> None"
  proof
    fix n
    assume "n \<in> {unat lo..<unat (lo + of_nat (length es))}"
    then obtain k where "n = unat lo + k" "k < length es" using un [OF order_refl] by (auto dest!: le_Suc_ex)
    then show "d_log (disk_of (lsm_view (lg_eng s'))) (of_nat n) \<noteq> None" using get by simp
  qed
  moreover have "unat (lo + of_nat (length es) - lo) * 40 \<le> 2 ^ 48" using assms(3,4) by (simp add: unat_of_nat)
  ultimately have "Entries (lsm_engine env) s' lo (lo + of_nat (length es)) = Some (Inr es)"
    using lsm_log.Entries [OF s'(2)] by (simp add: lsm_log_storage_def)
  then show ?thesis using s'(1) by blast
qed

theorem raft_entries_round_trip_witness:
  "\<exists>s'. AppendEntries (lsm_engine env0) st0 [\<lparr>e_Term = 1, e_Index = 7, e_Data = Some [0]\<rparr>] = (s', None) \<and>
     Entries (lsm_engine env0) s' 7 8 = Some (Inr [\<lparr>e_Term = 1, e_Index = 7, e_Data = Some [0]\<rparr>])"
  using raft_entries_round_trip [OF st0_ok, of "[\<lparr>e_Term = 1, e_Index = 7, e_Data = Some [0]\<rparr>]" 7] by simp

text \<open>(C13) A node started on a storage, also after crashes and restarts of the engine below it, has
  the term and the vote it had saved, counts as committed what it had saved as committed or has
  in its snapshot, and replays from the applied index it had saved.\<close>

theorem raft_restart_recovers:
  assumes "opts_ok env opts" and "lsm_reach env opts e m" and "raft_ok m" and "m keyRaftHardState = Some (marshalHardState hs)"
  shows "\<exists>rn. NewRawNode (lsm_log_storage (lsm_engine env)) nid peers (NewLSMLogStorage e) rand = Some rn \<and>
    rn_state rn = StateFollower \<and> rn_term rn = hs_Term hs \<and> rn_votedFor rn = hs_VotedFor hs \<and>
    l_committed (rn_log rn) = max (sm_Index (snap_of m)) (hs_Commit hs) \<and>
    l_applied (rn_log rn) = max (sm_Index (snap_of m)) (min (applied_of m) (hs_Commit hs)) \<and>
    log_lastIndex (lsm_log_storage (lsm_engine env)) (rn_log rn) = last_of m"
proof -
  have e: "lsm_inv env e" "lsm_view e = m" using lsm_reach_ok [OF assms(2,1)] by auto
  have "lg_ok (lsm_inv env) lsm_view (NewLSMLogStorage e)" using e assms(3) by (simp add: lg_ok_def NewLSMLogStorage_def)
  moreover have "hs_of m = hs" by (simp add: hs_of_def assms(4))
  ultimately show ?thesis using lsm_log.restart [of env "NewLSMLogStorage e" nid peers rand] e(2) by (auto simp: NewLSMLogStorage_def)
qed

theorem raft_restart_recovers_witness:
  "\<exists>e rn. lsm_reach env0 opts0 e [keyRaftHardState \<mapsto> marshalHardState \<lparr>hs_Term = 5, hs_VotedFor = 2, hs_Commit = 0\<rparr>] \<and>
     NewRawNode ls0 3 [1, 2, 3] (NewLSMLogStorage e) (\<lambda>_. 0) = Some rn \<and> rn_term rn = 5 \<and> rn_votedFor rn = 2"
proof -
  let ?v = "marshalHardState \<lparr>hs_Term = 5, hs_VotedFor = 2, hs_Commit = 0\<rparr>"
  obtain e where e: "lsm_Put env0 engine0 keyRaftHardState ?v = Some (e, None)"
    using lsm_Put_ok [OF engine0_empty(1)] by blast
  have "length ?v \<le> 100"
    by (simp add: marshalHardState_def u64_json_def print_str_def print_int_def print_nat.simps escape_byte_def)
  then have "entry_ok (batch_entry (BatchPut keyRaftHardState ?v))" by (simp add: entry_ok_def keyRaftHardState_def)
  then have r: "lsm_reach env0 opts0 e (Map.empty(keyRaftHardState \<mapsto> ?v))" by (rule reach_Put [OF reach_open [OF open0] _ e])
  have "raft_ok (Map.empty(keyRaftHardState \<mapsto> ?v))" by (rule raft_ok_put(2)) simp
  from raft_restart_recovers [OF opts0_ok r this, of "\<lparr>hs_Term = 5, hs_VotedFor = 2, hs_Commit = 0\<rparr>" 3 "[1, 2, 3]" "\<lambda>_. 0"] r
  show ?thesis by auto
qed

text \<open>(C40) The storage keeps entries behind overwritten ones, and the node takes them for its log: when
  entries below the last stored index are replaced, be it by entries of a later term, a vote
  still goes to a candidate that only has the old entry at that index.\<close>

theorem overwritten_tail_decides_vote:
  assumes "lg_ok (lsm_inv env) lsm_view s" and "sm_Index (snap_of (lsm_view (lg_eng s))) = 0"
    and "log_of (lsm_view (lg_eng s)) (last_of (lsm_view (lg_eng s))) = Some old" and "last_of (lsm_view (lg_eng s)) \<noteq> 0"
    and "\<forall>e \<in> set es. e_Index e < last_of (lsm_view (lg_eng s))" and "AppendEntries (lsm_engine env) s es = (s', None)"
    and "l_storage (rn_log rn) = s'" and "l_unstable (rn_log rn) = []" and "l_pendingSnapshot (rn_log rn) = zeroSnapshot"
    and "msg_Type m = MsgVote" and "rn_term rn < msg_Term m" and "msg_LogTerm m = e_Term old" and "msg_Index m = last_of (lsm_view (lg_eng s))"
    and "\<not> rn_checkQuorum rn \<or> rn_leadID rn = 0 \<or> rn_electionTimeout rn \<le> rn_electionElapsed rn"
  shows "\<exists>rn'. Step (lsm_log_storage (lsm_engine env)) rn m = Some rn' \<and> rn_term rn' = msg_Term m \<and> rn_votedFor rn' = msg_From m"
  using assms by (intro lsm_log.stale_tail_vote [of env s old es s' rn m]) (simp_all add: lsm_log_storage_def)

abbreviation raft_entry :: "u64 \<Rightarrow> u64 \<Rightarrow> raftEntry" where "raft_entry t i \<equiv> \<lparr>e_Term = t, e_Index = i, e_Data = None\<rparr>"

theorem overwritten_tail_decides_vote_witness:
  "\<exists>s s' rn'. AppendEntries (lsm_engine env0) st0 [raft_entry 1 1, raft_entry 2 2, raft_entry 2 3] = (s, None) \<and>
     AppendEntries (lsm_engine env0) s [raft_entry 3 2] = (s', None) \<and>
     Step ls0 (node0\<lparr>rn_term := 3, rn_log := log0\<lparr>l_storage := s'\<rparr>\<rparr>)
       ((zeroMessage MsgVote)\<lparr>msg_From := 1, msg_Term := 4, msg_Index := 3, msg_LogTerm := 2\<rparr>) = Some rn' \<and> rn_votedFor rn' = 1"
proof -
  obtain s where s: "AppendEntries (lsm_engine env0) st0 [raft_entry 1 1, raft_entry 2 2, raft_entry 2 3] = (s, None)"
      "lg_ok (lsm_inv env0) lsm_view s"
    and d: "disk_of (lsm_view (lg_eng s)) = (disk_of (lsm_view (lg_eng st0)))\<lparr>d_log := [1 \<mapsto> raft_entry 1 1, 2 \<mapsto> raft_entry 2 2, 3 \<mapsto> raft_entry 2 3]\<rparr>"
    using lsm_eng.Append_ok [OF st0_ok, of "[raft_entry 1 1, raft_entry 2 2, raft_entry 2 3]"] unfolding st0_disk by (auto simp: d_append_def)
  obtain s' where s': "AppendEntries (lsm_engine env0) s [raft_entry 3 2] = (s', None)" using lsm_eng.Append_ok [OF s(2)] by blast
  let ?V = "lsm_view (lg_eng s)"
  have log: "log_of ?V = [1 \<mapsto> raft_entry 1 1, 2 \<mapsto> raft_entry 2 2, 3 \<mapsto> raft_entry 2 3]" "sm_Index (snap_of ?V) = 0"
    unfolding disk_of_sel [symmetric] d st0_disk by simp_all
  have "last_of ?V = 3" by (simp add: last_of_def log max_def word_le_nat_alt)
  with overwritten_tail_decides_vote [OF s(2), of "raft_entry 2 3" "[raft_entry 3 2]" s' "node0\<lparr>rn_term := 3, rn_log := log0\<lparr>l_storage := s'\<rparr>\<rparr>"
      "(zeroMessage MsgVote)\<lparr>msg_From := 1, msg_Term := 4, msg_Index := 3, msg_LogTerm := 2\<rparr>"] log s'
  have "\<exists>rn'. Step ls0 (node0\<lparr>rn_term := 3, rn_log := log0\<lparr>l_storage := s'\<rparr>\<rparr>)
       ((zeroMessage MsgVote)\<lparr>msg_From := 1, msg_Term := 4, msg_Index := 3, msg_LogTerm := 2\<rparr>) = Some rn' \<and> rn_votedFor rn' = 1"
    by (simp add: zeroMessage_def log0_def) blast
  with s(1) s' show ?thesis by blast
qed

end
