(* ===== verification/Spec2Isabelle.thy ===== *)
theory Spec2Isabelle
  imports Mvcc_Props Raft_Recovery
begin

text \<open>
  DucklingDB is a distributed SQL database in Go.

  \<^descr> \<open>Prelude\<close> holds the shared byte and list lemmas.
  \<^descr> \<open>HLC\<close> models \<open>internal/util/hlc\<close>.
  \<^descr> \<open>Json\<close> models the fragment of \<open>encoding/json\<close> the stored records use.
\<close>

end
